theory Spec2Isabelle
  imports Main "HOL-Library.AList" "HOL-Library.Char_ord" "HOL-Library.List_Lexorder"
    "HOL-Library.Multiset"
begin

section \<open>JavaScript values and the object store\<close>

text \<open>
  The merge code mutates objects in place and compares array elements by identity, so
  objects live in an explicit store: a reference is an address, the store is the list of
  allocated objects, and a fresh object is appended at the end.
  Numbers are integers here (JSON numbers that are not integers, and the distinction
  between \<open>+0\<close> and \<open>-0\<close>, are outside the model); functions and the prototype chain are
  not modelled, so a property that is not an own property reads as \<open>undefined\<close>
  (every property inherited from \<open>Object.prototype\<close> or \<open>Array.prototype\<close> is a function,
  which the tests of \<open>deepMerge\<close> treat exactly as \<open>undefined\<close>). The accessor
  \<open>__proto__\<close> is the exception: reading it where it is not an own property yields the
  prototype object, and writing it there runs a setter. The model does not follow
  either; such an access ends the run with \<open>Raised Unmodelled\<close>.
\<close>

type_synonym addr = nat

datatype jsval = Undefined | Null | Bool bool | Num int | Str string | Ref addr

text \<open>
  An ordinary object is its list of own enumerable properties in the order
  \<open>Object.keys\<close> reports them. An array is its list of elements, where \<open>None\<close> is a hole,
  together with its other (named) own properties.
\<close>

datatype jsobj =
    JObject "(string \<times> jsval) list"
  | JArray "jsval option list" "(string \<times> jsval) list"

type_synonym heap = "jsobj list"

datatype errno = ENOENT | ENOTDIR | EISDIR | EEXIST | ELOOP | ENOTEMPTY | EBUSY

text \<open>
  What a call can throw: the JavaScript errors, a failed filesystem call, an exception
  thrown by a callback of the caller, and \<open>StoreError\<close> for a reference to an
  address that holds no object (which no JavaScript program can build). \<open>Unmodelled\<close> is
  no JavaScript error: it ends a run of the model at an access to the prototype of an
  object, where the JavaScript goes on in a way the model does not describe.
\<close>

datatype jserror = RangeError | TypeError | SyntaxError | StoreError
  | FsError errno | Thrown string | Unmodelled

text \<open>The outcome of a call: it returns, it throws, or the model ran out of fuel.\<close>

datatype 'a outcome = Returned 'a | Raised jserror | OutOfFuel

fun bind_outcome :: "'a outcome \<Rightarrow> ('a \<Rightarrow> 'b outcome) \<Rightarrow> 'b outcome" where
  "bind_outcome (Returned x) f = f x"
| "bind_outcome (Raised e) f = Raised e"
| "bind_outcome OutOfFuel f = OutOfFuel"

definition deref :: "heap \<Rightarrow> addr \<Rightarrow> jsobj option" where
  "deref h a = (if a < length h then Some (h ! a) else None)"

definition alloc :: "jsobj \<Rightarrow> heap \<Rightarrow> addr \<times> heap" where
  "alloc ob h = (length h, h @ [ob])"

subsection \<open>Property keys\<close>

text \<open>
  A key is an array index when it is the canonical decimal form of a number below
  \<open>2^32 - 1\<close>. Such keys come first, in ascending numeric order, in the key order of
  every object.
\<close>

definition is_digit :: "char \<Rightarrow> bool" where
  "is_digit c = (48 \<le> (of_char c :: nat) \<and> (of_char c :: nat) \<le> 57)"

definition dec_value :: "string \<Rightarrow> nat" where
  "dec_value s = foldl (\<lambda>n c. 10 * n + ((of_char c :: nat) - 48)) 0 s"

definition array_index :: "string \<Rightarrow> nat option" where
  "array_index s =
     (if s \<noteq> [] \<and> list_all is_digit s \<and> (length s = 1 \<or> hd s \<noteq> CHR ''0'')
         \<and> dec_value s < 2 ^ 32 - 1
      then Some (dec_value s) else None)"

fun string_of_nat :: "nat \<Rightarrow> string" where
  "string_of_nat n =
     (if n < 10 then [char_of (48 + n)]
      else string_of_nat (n div 10) @ [char_of (48 + n mod 10)])"

declare string_of_nat.simps [simp del]

fun insert_index :: "nat \<Rightarrow> string \<Rightarrow> jsval \<Rightarrow> (string \<times> jsval) list \<Rightarrow> (string \<times> jsval) list" where
  "insert_index i k v [] = [(k, v)]"
| "insert_index i k v (p # ps) =
     (case array_index (fst p) of
        Some j \<Rightarrow> if j < i then p # insert_index i k v ps else (k, v) # p # ps
      | None \<Rightarrow> (k, v) # p # ps)"

text \<open>
  Assignment to a property of an ordinary object: an existing property keeps its place,
  a new array-index key is placed among the index keys, any other new key goes last.
\<close>

definition put_prop :: "string \<Rightarrow> jsval \<Rightarrow> (string \<times> jsval) list \<Rightarrow> (string \<times> jsval) list" where
  "put_prop k v ps =
     (if map_of ps k \<noteq> None then AList.update k v ps
      else case array_index k of
             Some i \<Rightarrow> insert_index i k v ps
           | None \<Rightarrow> ps @ [(k, v)])"

definition lookup_prop :: "(string \<times> jsval) list \<Rightarrow> string \<Rightarrow> jsval" where
  "lookup_prop ps k = (case map_of ps k of Some v \<Rightarrow> v | None \<Rightarrow> Undefined)"

text \<open>\<open>Object.keys\<close>: the own enumerable string keys. The \<open>length\<close> of an array is not
  enumerable; a hole is not a property.\<close>

fun own_keys :: "jsobj \<Rightarrow> string list" where
  "own_keys (JObject ps) = map fst ps"
| "own_keys (JArray es ps) =
     map string_of_nat (filter (\<lambda>i. es ! i \<noteq> None) [0..<length es]) @ map fst ps"

fun get_prop :: "jsobj \<Rightarrow> string \<Rightarrow> jsval" where
  "get_prop (JObject ps) k = lookup_prop ps k"
| "get_prop (JArray es ps) k =
     (case array_index k of
        Some i \<Rightarrow> (if i < length es then (case es ! i of Some v \<Rightarrow> v | None \<Rightarrow> Undefined)
                   else Undefined)
      | None \<Rightarrow> if k = ''length'' then Num (int (length es)) else lookup_prop ps k)"

text \<open>
  Assignment \<open>o[k] = v\<close>. On an array, an index at or beyond the length extends the
  array with holes, and assigning \<open>length\<close> truncates or extends it, or throws a
  RangeError when the value does not convert to an array length. That conversion
  (ECMAScript's ToNumber and ToUint32 on an arbitrary value) is a parameter \<open>L\<close> of the
  model: \<open>L h v = Some n\<close> when, in the store \<open>h\<close>, the value \<open>v\<close> converts to the
  length \<open>n\<close>.
\<close>

fun set_prop :: "(jsval \<Rightarrow> nat option) \<Rightarrow> jsobj \<Rightarrow> string \<Rightarrow> jsval \<Rightarrow> jserror + jsobj" where
  "set_prop L (JObject ps) k v = Inr (JObject (put_prop k v ps))"
| "set_prop L (JArray es ps) k v =
     (case array_index k of
        Some i \<Rightarrow>
          Inr (JArray (if i < length es then es[i := Some v]
                       else es @ replicate (i - length es) None @ [Some v]) ps)
      | None \<Rightarrow>
          if k = ''length'' then
            (case L v of
               Some n \<Rightarrow> Inr (JArray (take n es @ replicate (n - length es) None) ps)
             | None \<Rightarrow> Inl RangeError)
          else Inr (JArray es (put_prop k v ps)))"

definition get_at :: "heap \<Rightarrow> addr \<Rightarrow> string \<Rightarrow> jsval" where
  "get_at h a k = (case deref h a of Some ob \<Rightarrow> get_prop ob k | None \<Rightarrow> Undefined)"

definition set_at :: "(heap \<Rightarrow> jsval \<Rightarrow> nat option) \<Rightarrow> heap \<Rightarrow> addr \<Rightarrow> string \<Rightarrow> jsval \<Rightarrow> heap outcome" where
  "set_at L h a k v =
     (case deref h a of
        None \<Rightarrow> Raised StoreError
      | Some ob \<Rightarrow> (case set_prop (L h) ob k v of
                     Inl e \<Rightarrow> Raised e
                   | Inr ob' \<Rightarrow> Returned (h[a := ob'])))"

subsection \<open>Property access on an arbitrary value\<close>

text \<open>
  \<open>Object.keys(v)\<close>, \<open>v[k]\<close> and \<open>v[k] = x\<close> for any value \<open>v\<close>. On \<open>null\<close> and
  \<open>undefined\<close> all three throw a TypeError. A string has its characters as indexed
  properties; numbers and booleans have no own properties. The files are ES modules,
  hence strict code, where assigning to a property of a primitive throws a TypeError.
  The key \<open>__proto__\<close> is an ordinary key of an object that has it as an own property
  (as an object parsed from JSON can); anywhere else it reads and writes the prototype,
  which ends the run of the model.
\<close>

definition owns_key :: "heap \<Rightarrow> jsval \<Rightarrow> string \<Rightarrow> bool" where
  "owns_key h v k =
     (case v of
        Ref a \<Rightarrow> (case deref h a of Some ob \<Rightarrow> k \<in> set (own_keys ob) | None \<Rightarrow> False)
      | _ \<Rightarrow> False)"

definition reaches_prototype :: "heap \<Rightarrow> jsval \<Rightarrow> string \<Rightarrow> bool" where
  "reaches_prototype h v k = (k = ''__proto__'' \<and> \<not> owns_key h v k)"

fun keys_of :: "heap \<Rightarrow> jsval \<Rightarrow> string list outcome" where
  "keys_of h Undefined = Raised TypeError"
| "keys_of h Null = Raised TypeError"
| "keys_of h (Bool b) = Returned []"
| "keys_of h (Num n) = Returned []"
| "keys_of h (Str s) = Returned (map string_of_nat [0..<length s])"
| "keys_of h (Ref a) =
     (case deref h a of None \<Rightarrow> Raised StoreError | Some ob \<Rightarrow> Returned (own_keys ob))"

fun get_own :: "heap \<Rightarrow> jsval \<Rightarrow> string \<Rightarrow> jsval" where
  "get_own h (Str s) k =
     (case array_index k of
        Some i \<Rightarrow> if i < length s then Str [s ! i] else Undefined
      | None \<Rightarrow> if k = ''length'' then Num (int (length s)) else Undefined)"
| "get_own h (Ref a) k = get_at h a k"
| "get_own h v k = Undefined"

definition get_val :: "heap \<Rightarrow> jsval \<Rightarrow> string \<Rightarrow> jsval outcome" where
  "get_val h v k =
     (if v = Undefined \<or> v = Null then Raised TypeError
      else if reaches_prototype h v k then Raised Unmodelled
      else Returned (get_own h v k))"

definition set_val :: "(heap \<Rightarrow> jsval \<Rightarrow> nat option) \<Rightarrow> heap \<Rightarrow> jsval \<Rightarrow> string \<Rightarrow> jsval \<Rightarrow> heap outcome" where
  "set_val L h v k x =
     (if v = Undefined \<or> v = Null then Raised TypeError
      else if reaches_prototype h v k then Raised Unmodelled
      else case v of Ref a \<Rightarrow> set_at L h a k x | _ \<Rightarrow> Raised TypeError)"

section \<open>deepMerge.js\<close>

fun typeof :: "jsval \<Rightarrow> string" where
  "typeof Undefined = ''undefined''"
| "typeof Null = ''object''"
| "typeof (Bool b) = ''boolean''"
| "typeof (Num n) = ''number''"
| "typeof (Str s) = ''string''"
| "typeof (Ref a) = ''object''"

fun truthy :: "jsval \<Rightarrow> bool" where
  "truthy Undefined = False"
| "truthy Null = False"
| "truthy (Bool b) = b"
| "truthy (Num n) = (n \<noteq> 0)"
| "truthy (Str s) = (s \<noteq> [])"
| "truthy (Ref a) = True"

text \<open>\<open>const isObject = (val) => val && typeof val === 'object'\<close>, used as a condition.\<close>

definition isObject :: "jsval \<Rightarrow> bool" where
  "isObject val = (truthy val \<and> typeof val = ''object'')"

text \<open>\<open>Array.isArray\<close>.\<close>

definition isArray :: "heap \<Rightarrow> jsval \<Rightarrow> bool" where
  "isArray h v =
     (case v of
        Ref a \<Rightarrow> (case deref h a of Some (JArray es ps) \<Rightarrow> True | _ \<Rightarrow> False)
      | _ \<Rightarrow> False)"

text \<open>Spreading an array, \<open>[...a]\<close>: its elements by index, a hole read as \<open>undefined\<close>.\<close>

definition spread :: "heap \<Rightarrow> jsval \<Rightarrow> jsval list" where
  "spread h v =
     (case v of
        Ref a \<Rightarrow>
          (case deref h a of
             Some (JArray es ps) \<Rightarrow> map (\<lambda>e. case e of Some x \<Rightarrow> x | None \<Rightarrow> Undefined) es
           | _ \<Rightarrow> [])
      | _ \<Rightarrow> [])"

text \<open>
  \<open>new Set(xs)\<close> adds the elements in order and keeps the first of the elements that are
  the same value. Two values are the same when they are the same primitive or the same
  reference, which is equality of \<open>jsval\<close>. \<open>Array.from\<close> lists the set in insertion order.
\<close>

definition set_add :: "jsval list \<Rightarrow> jsval \<Rightarrow> jsval list" where
  "set_add s v = (if v \<in> set s then s else s @ [v])"

definition new_Set :: "jsval list \<Rightarrow> jsval list" where
  "new_Set xs = foldl set_add [] xs"

text \<open>\<open>const mergeArrayWithDedupe = (a, b) => Array.from(new Set([...a, ...b]))\<close>:
  the elements of the new array. It is only called on two arrays.\<close>

definition mergeArrayWithDedupe :: "heap \<Rightarrow> jsval \<Rightarrow> jsval \<Rightarrow> jsval list" where
  "mergeArrayWithDedupe h a b = new_Set (spread h a @ spread h b)"

definition array_of :: "jsval list \<Rightarrow> jsobj" where
  "array_of xs = JArray (map Some xs) []"

text \<open>
  \<open>deepMerge(target, obj)\<close>. The JavaScript function returns \<open>target\<close>; the model
  returns the store. Recursion on nested objects does not terminate on a cyclic store,
  so the depth of the recursion is bounded by fuel. \<open>mergeKeys\<close> is the loop
  \<open>for (const key of Object.keys(obj))\<close>; the keys are listed once, before the first
  iteration.
\<close>

fun deepMerge :: "(heap \<Rightarrow> jsval \<Rightarrow> nat option) \<Rightarrow> nat \<Rightarrow> heap \<Rightarrow> jsval \<Rightarrow> jsval \<Rightarrow> heap outcome"
  and mergeKeys :: "(heap \<Rightarrow> jsval \<Rightarrow> nat option) \<Rightarrow> nat \<Rightarrow> string list \<Rightarrow> heap \<Rightarrow> jsval \<Rightarrow> jsval \<Rightarrow> heap outcome"
where
  "deepMerge L 0 h target obj = OutOfFuel"
| "deepMerge L (Suc n) h target obj =
     bind_outcome (keys_of h obj) (\<lambda>keys. mergeKeys L n keys h target obj)"
| "mergeKeys L n [] h target obj = Returned h"
| "mergeKeys L n (key # keys) h target obj =
     bind_outcome (get_val h target key) (\<lambda>oldVal.
     bind_outcome (get_val h obj key) (\<lambda>newVal.
       if isArray h oldVal \<and> isArray h newVal then
         (case alloc (array_of (mergeArrayWithDedupe h oldVal newVal)) h of
            (a, h1) \<Rightarrow>
              bind_outcome (set_val L h1 target key (Ref a))
                (\<lambda>h2. mergeKeys L n keys h2 target obj))
       else if isObject oldVal \<and> isObject newVal then
         bind_outcome (deepMerge L n h oldVal newVal)
           (\<lambda>h1. bind_outcome (set_val L h1 target key oldVal)
             (\<lambda>h2. mergeKeys L n keys h2 target obj))
       else
         bind_outcome (set_val L h target key newVal)
           (\<lambda>h2. mergeKeys L n keys h2 target obj)))"

section \<open>sortDependencies.js\<close>

definition depTypes :: "string list" where
  "depTypes = [''dependencies'', ''devDependencies'', ''peerDependencies'',
     ''optionalDependencies'']"

text \<open>
  The callback of \<open>forEach\<close>, run on each name in turn:
  \<open>sorted[depType][name] = packageJson[depType][name]\<close>.
\<close>

fun copyNames ::
  "(heap \<Rightarrow> jsval \<Rightarrow> nat option) \<Rightarrow> heap \<Rightarrow> jsval \<Rightarrow> jsval \<Rightarrow> string \<Rightarrow> string list \<Rightarrow> heap outcome"
where
  "copyNames L h packageJson sorted_obj depType [] = Returned h"
| "copyNames L h packageJson sorted_obj depType (name # names) =
     bind_outcome (get_val h sorted_obj depType) (\<lambda>s.
     bind_outcome (get_val h packageJson depType) (\<lambda>d.
     bind_outcome (get_val h d name) (\<lambda>x.
     bind_outcome (set_val L h s name x) (\<lambda>h1.
       copyNames L h1 packageJson sorted_obj depType names))))"

text \<open>
  The loop \<open>for (const depType of depTypes)\<close>. \<open>sort()\<close> without a comparison function
  orders strings by their code units, the lexicographic order of \<open>string\<close>.
\<close>

fun sortLoop ::
  "(heap \<Rightarrow> jsval \<Rightarrow> nat option) \<Rightarrow> heap \<Rightarrow> jsval \<Rightarrow> jsval \<Rightarrow> string list \<Rightarrow> heap outcome"
where
  "sortLoop L h packageJson sorted_obj [] = Returned h"
| "sortLoop L h packageJson sorted_obj (depType # rest) =
     bind_outcome (get_val h packageJson depType) (\<lambda>d.
       if truthy d then
         (case alloc (JObject []) h of
            (e, h1) \<Rightarrow>
              bind_outcome (set_val L h1 sorted_obj depType (Ref e)) (\<lambda>h2.
              bind_outcome (get_val h2 packageJson depType) (\<lambda>d2.
              bind_outcome (keys_of h2 d2) (\<lambda>names.
              bind_outcome (copyNames L h2 packageJson sorted_obj depType (sort names)) (\<lambda>h3.
                sortLoop L h3 packageJson sorted_obj rest)))))
       else sortLoop L h packageJson sorted_obj rest)"

text \<open>
  Object spread, \<open>{...v}\<close> continued on the properties \<open>ps\<close> collected so far: the own
  enumerable properties of \<open>v\<close> are defined on the new object in key order; \<open>null\<close> and
  \<open>undefined\<close> contribute nothing.
\<close>

definition prop_of :: "heap \<Rightarrow> jsval \<Rightarrow> string \<Rightarrow> jsval" where
  "prop_of h v k = (case get_val h v k of Returned x \<Rightarrow> x | _ \<Rightarrow> Undefined)"

definition spread_props :: "heap \<Rightarrow> jsval \<Rightarrow> (string \<times> jsval) list \<Rightarrow> (string \<times> jsval) list outcome" where
  "spread_props h v ps =
     (case v of
        Undefined \<Rightarrow> Returned ps
      | Null \<Rightarrow> Returned ps
      | _ \<Rightarrow> bind_outcome (keys_of h v)
               (\<lambda>keys. Returned (foldl (\<lambda>qs k. put_prop k (prop_of h v k) qs) ps keys)))"

text \<open>\<open>sortDependencies(packageJson)\<close> returns a new object: the value and the store.\<close>

definition sortDependencies ::
  "(heap \<Rightarrow> jsval \<Rightarrow> nat option) \<Rightarrow> heap \<Rightarrow> jsval \<Rightarrow> (jsval \<times> heap) outcome"
where
  "sortDependencies L h packageJson =
     (case alloc (JObject []) h of
        (sorted_obj, h1) \<Rightarrow>
          bind_outcome (sortLoop L h1 packageJson (Ref sorted_obj) depTypes) (\<lambda>h2.
          bind_outcome (spread_props h2 packageJson []) (\<lambda>ps1.
          bind_outcome (spread_props h2 (Ref sorted_obj) ps1) (\<lambda>ps2.
            (case alloc (JObject ps2) h2 of (r, h3) \<Rightarrow> Returned (Ref r, h3))))))"

section \<open>The file system\<close>

text \<open>
  A path is the list of the segments of an absolute, normalised POSIX path. The file
  system is the tree under the root directory; a directory lists its entries in the
  order \<open>readdirSync\<close> reports them, and a new entry is listed last. A symbolic link
  holds the absolute path it points to; at most \<open>max_symlinks\<close> links are followed in
  one path resolution.
\<close>

type_synonym path = "string list"

datatype node = File string | Dir "(string \<times> node) list" | Symlink path

definition max_symlinks :: nat where
  "max_symlinks = 40"

text \<open>
  \<open>walk\<close> resolves the remaining segments from the directory \<open>cur\<close>, whose own resolved
  path is \<open>here\<close>; a link in last position is followed only when \<open>follow\<close> is set. It
  returns the resolved path and the node found there.
\<close>

fun walk :: "nat \<Rightarrow> node \<Rightarrow> bool \<Rightarrow> path \<Rightarrow> node \<Rightarrow> path \<Rightarrow> errno + (path \<times> node)" where
  "walk fuel root follow here cur [] = Inr (here, cur)"
| "walk fuel root follow here cur (c # cs) =
     (case cur of
        Dir es \<Rightarrow>
          (case map_of es c of
             None \<Rightarrow> Inl ENOENT
           | Some (Symlink t) \<Rightarrow>
               if cs = [] \<and> \<not> follow then Inr (here @ [c], Symlink t)
               else if fuel = 0 then Inl ELOOP
               else walk (fuel - 1) root follow [] root (t @ cs)
           | Some n \<Rightarrow> walk fuel root follow (here @ [c]) n cs)
      | _ \<Rightarrow> Inl ENOTDIR)"

definition statSync :: "node \<Rightarrow> path \<Rightarrow> errno + (path \<times> node)" where
  "statSync fs p = walk max_symlinks fs True [] fs p"

definition lstatSync :: "node \<Rightarrow> path \<Rightarrow> errno + (path \<times> node)" where
  "lstatSync fs p = walk max_symlinks fs False [] fs p"

fun isDirectory :: "path \<times> node \<Rightarrow> bool" where
  "isDirectory (p, Dir es) = True"
| "isDirectory (p, n) = False"

definition existsSync :: "node \<Rightarrow> path \<Rightarrow> bool" where
  "existsSync fs p = (case statSync fs p of Inr st \<Rightarrow> True | Inl e \<Rightarrow> False)"

definition readdirSync :: "node \<Rightarrow> path \<Rightarrow> errno + string list" where
  "readdirSync fs p =
     (case statSync fs p of
        Inl e \<Rightarrow> Inl e
      | Inr (q, Dir es) \<Rightarrow> Inr (map fst es)
      | Inr (q, n) \<Rightarrow> Inl ENOTDIR)"

definition readFileSync :: "node \<Rightarrow> path \<Rightarrow> errno + string" where
  "readFileSync fs p =
     (case statSync fs p of
        Inl e \<Rightarrow> Inl e
      | Inr (q, File c) \<Rightarrow> Inr c
      | Inr (q, n) \<Rightarrow> Inl EISDIR)"

text \<open>Replacing, or creating as the last entry, the node at a resolved path.\<close>

fun put_node :: "path \<Rightarrow> node \<Rightarrow> node \<Rightarrow> node" where
  "put_node [] new cur = new"
| "put_node (c # cs) new cur =
     (case cur of
        Dir es \<Rightarrow>
          (case map_of es c of
             Some n \<Rightarrow> Dir (AList.update c (put_node cs new n) es)
           | None \<Rightarrow> if cs = [] then Dir (es @ [(c, new)]) else cur)
      | _ \<Rightarrow> cur)"

text \<open>
  Writing a file (\<open>writeFileSync\<close>, and the destination side of \<open>copyFileSync\<close>): the
  parent must resolve to a directory; an existing file is overwritten, a link in last
  position is followed, a directory is refused.
\<close>

fun write_file :: "nat \<Rightarrow> node \<Rightarrow> path \<Rightarrow> string \<Rightarrow> errno + node" where
  "write_file fuel fs p content =
     (if p = [] then Inl EISDIR
      else case statSync fs (butlast p) of
             Inl e \<Rightarrow> Inl e
           | Inr (q, Dir es) \<Rightarrow>
               (case map_of es (last p) of
                  Some (Symlink t) \<Rightarrow>
                    if fuel = 0 then Inl ELOOP else write_file (fuel - 1) fs t content
                | Some (Dir ds) \<Rightarrow> Inl EISDIR
                | _ \<Rightarrow> Inr (put_node (q @ [last p]) (File content) fs))
           | Inr (q, n) \<Rightarrow> Inl ENOTDIR)"

declare write_file.simps [simp del]

definition writeFileSync :: "node \<Rightarrow> path \<Rightarrow> string \<Rightarrow> errno + node" where
  "writeFileSync fs p content = write_file max_symlinks fs p content"

definition copyFileSync :: "node \<Rightarrow> path \<Rightarrow> path \<Rightarrow> errno + node" where
  "copyFileSync fs src dest =
     (case readFileSync fs src of
        Inl e \<Rightarrow> Inl e
      | Inr content \<Rightarrow> write_file max_symlinks fs dest content)"

text \<open>\<open>mkdirSync(p)\<close>, and \<open>mkdirSync(p, { recursive: true })\<close>, which creates the missing
  ancestors first and accepts an existing directory.\<close>

definition mkdirSync :: "node \<Rightarrow> path \<Rightarrow> errno + node" where
  "mkdirSync fs p =
     (if p = [] then Inl EEXIST
      else case statSync fs (butlast p) of
             Inl e \<Rightarrow> Inl e
           | Inr (q, Dir es) \<Rightarrow>
               (case map_of es (last p) of
                  None \<Rightarrow> Inr (put_node (q @ [last p]) (Dir []) fs)
                | Some n \<Rightarrow> Inl EEXIST)
           | Inr (q, n) \<Rightarrow> Inl ENOTDIR)"

fun mkdir_recursive :: "node \<Rightarrow> path \<Rightarrow> errno + node" where
  "mkdir_recursive fs p =
     (case statSync fs p of
        Inr (q, Dir es) \<Rightarrow> Inr fs
      | Inr (q, n) \<Rightarrow> Inl EEXIST
      | Inl ENOENT \<Rightarrow>
          if p = [] then Inl ENOENT
          else (case mkdir_recursive fs (butlast p) of
                  Inl e \<Rightarrow> Inl e
                | Inr fs1 \<Rightarrow> mkdirSync fs1 p)
      | Inl e \<Rightarrow> Inl e)"

declare mkdir_recursive.simps [simp del]

text \<open>Removing the entry at a resolved path; \<open>rmdirSync\<close> removes an empty directory,
  \<open>unlinkSync\<close> a file or a link. Neither follows a link in last position.\<close>

fun remove_node :: "path \<Rightarrow> node \<Rightarrow> node" where
  "remove_node [] cur = cur"
| "remove_node (c # cs) cur =
     (case cur of
        Dir es \<Rightarrow>
          if cs = [] then Dir (AList.delete c es)
          else (case map_of es c of
                  Some n \<Rightarrow> Dir (AList.update c (remove_node cs n) es)
                | None \<Rightarrow> cur)
      | _ \<Rightarrow> cur)"

definition rmdirSync :: "node \<Rightarrow> path \<Rightarrow> errno + node" where
  "rmdirSync fs p =
     (case lstatSync fs p of
        Inl e \<Rightarrow> Inl e
      | Inr (q, Dir es) \<Rightarrow>
          if es \<noteq> [] then Inl ENOTEMPTY
          else if q = [] then Inl EBUSY
          else Inr (remove_node q fs)
      | Inr (q, n) \<Rightarrow> Inl ENOTDIR)"

definition unlinkSync :: "node \<Rightarrow> path \<Rightarrow> errno + node" where
  "unlinkSync fs p =
     (case lstatSync fs p of
        Inl e \<Rightarrow> Inl e
      | Inr (q, Dir es) \<Rightarrow> Inl EISDIR
      | Inr (q, n) \<Rightarrow> Inr (remove_node q fs))"

subsection \<open>The path module\<close>

text \<open>
  \<open>path.resolve(dir, name)\<close> for an absolute \<open>dir\<close> and a \<open>name\<close> without separator, which
  is what the code passes: an entry of a directory listing or a base name. The segment
  \<open>.\<close> (like the empty one) resolves to \<open>dir\<close> itself and \<open>..\<close> to its parent.
\<close>

definition resolve :: "path \<Rightarrow> string \<Rightarrow> path" where
  "resolve dir name =
     (if name = [] \<or> name = ''.'' then dir
      else if name = ''..'' then butlast dir
      else dir @ [name])"

definition basename :: "path \<Rightarrow> string" where
  "basename p = (if p = [] then [] else last p)"

definition dirname :: "path \<Rightarrow> path" where
  "dirname p = butlast p"

section \<open>directoryTraverse.js\<close>

text \<open>
  A callback receives a path and may change the file system and the caller's own state
  \<open>'u\<close> in any way; it returns normally or throws, in both cases leaving a new state.
  The state of a traversal also records, for the statements below, the directories the
  traversal listed and the callbacks it invoked, in order.
\<close>

datatype status = Done | Threw jserror | NoFuel

datatype event = Listed path | DirCb path | FileCb path

record 'u tstate =
  fs :: node
  usr :: 'u
  trace :: "event list"

type_synonym 'u callback = "path \<Rightarrow> node \<times> 'u \<Rightarrow> status \<times> node \<times> 'u"

definition log_event :: "event \<Rightarrow> 'u tstate \<Rightarrow> 'u tstate" where
  "log_event e s = s\<lparr>trace := trace s @ [e]\<rparr>"

definition invoke :: "'u callback \<Rightarrow> path \<Rightarrow> 'u tstate \<Rightarrow> status \<times> 'u tstate" where
  "invoke cb p s =
     (case cb p (fs s, usr s) of (st, f, u) \<Rightarrow> (st, s\<lparr>fs := f, usr := u\<rparr>))"

definition and_then :: "status \<times> 's \<Rightarrow> ('s \<Rightarrow> status \<times> 's) \<Rightarrow> status \<times> 's" where
  "and_then r f = (case r of (Done, s) \<Rightarrow> f s | _ \<Rightarrow> r)"

text \<open>
  The fuel bounds the depth of the recursion: a callback that keeps creating
  directories below the one it is given makes the JavaScript recurse forever.
\<close>

fun preOrderDirectoryTraverse ::
    "nat \<Rightarrow> path \<Rightarrow> 'u callback \<Rightarrow> 'u callback \<Rightarrow> 'u tstate \<Rightarrow> status \<times> 'u tstate"
  and preOrderLoop ::
    "nat \<Rightarrow> path \<Rightarrow> string list \<Rightarrow> 'u callback \<Rightarrow> 'u callback \<Rightarrow> 'u tstate \<Rightarrow> status \<times> 'u tstate"
where
  "preOrderDirectoryTraverse 0 dir dirCallback fileCallback s = (NoFuel, s)"
| "preOrderDirectoryTraverse (Suc n) dir dirCallback fileCallback s =
     (case readdirSync (fs s) dir of
        Inl e \<Rightarrow> (Threw (FsError e), log_event (Listed dir) s)
      | Inr names \<Rightarrow> preOrderLoop n dir names dirCallback fileCallback (log_event (Listed dir) s))"
| "preOrderLoop n dir [] dirCallback fileCallback s = (Done, s)"
| "preOrderLoop n dir (filename # rest) dirCallback fileCallback s =
     (let fullpath = resolve dir filename in
      case lstatSync (fs s) fullpath of
        Inl e \<Rightarrow> (Threw (FsError e), s)
      | Inr st \<Rightarrow>
          if isDirectory st then
            and_then (invoke dirCallback fullpath (log_event (DirCb fullpath) s)) (\<lambda>s1.
            and_then (if existsSync (fs s1) fullpath
                      then preOrderDirectoryTraverse n fullpath dirCallback fileCallback s1
                      else (Done, s1)) (\<lambda>s2.
              preOrderLoop n dir rest dirCallback fileCallback s2))
          else
            and_then (invoke fileCallback fullpath (log_event (FileCb fullpath) s)) (\<lambda>s1.
              preOrderLoop n dir rest dirCallback fileCallback s1))"

fun postOrderDirectoryTraverse ::
    "nat \<Rightarrow> path \<Rightarrow> 'u callback \<Rightarrow> 'u callback \<Rightarrow> 'u tstate \<Rightarrow> status \<times> 'u tstate"
  and postOrderLoop ::
    "nat \<Rightarrow> path \<Rightarrow> string list \<Rightarrow> 'u callback \<Rightarrow> 'u callback \<Rightarrow> 'u tstate \<Rightarrow> status \<times> 'u tstate"
where
  "postOrderDirectoryTraverse 0 dir dirCallback fileCallback s = (NoFuel, s)"
| "postOrderDirectoryTraverse (Suc n) dir dirCallback fileCallback s =
     (case readdirSync (fs s) dir of
        Inl e \<Rightarrow> (Threw (FsError e), log_event (Listed dir) s)
      | Inr names \<Rightarrow> postOrderLoop n dir names dirCallback fileCallback (log_event (Listed dir) s))"
| "postOrderLoop n dir [] dirCallback fileCallback s = (Done, s)"
| "postOrderLoop n dir (filename # rest) dirCallback fileCallback s =
     (let fullpath = resolve dir filename in
      case lstatSync (fs s) fullpath of
        Inl e \<Rightarrow> (Threw (FsError e), s)
      | Inr st \<Rightarrow>
          if isDirectory st then
            and_then (postOrderDirectoryTraverse n fullpath dirCallback fileCallback s) (\<lambda>s1.
            and_then (invoke dirCallback fullpath (log_event (DirCb fullpath) s1)) (\<lambda>s2.
              postOrderLoop n dir rest dirCallback fileCallback s2))
          else
            and_then (invoke fileCallback fullpath (log_event (FileCb fullpath) s)) (\<lambda>s1.
              postOrderLoop n dir rest dirCallback fileCallback s1))"

section \<open>index.js: the callers of the traversals\<close>

text \<open>
  \<open>emptyDir(dir)\<close> is the post-order traversal with \<open>fs.rmdirSync\<close> on directories and
  \<open>fs.unlinkSync\<close> on files and links.
\<close>

definition rmdir_callback :: "'u callback" where
  "rmdir_callback p w =
     (case w of (f, u) \<Rightarrow>
      case rmdirSync f p of Inl e \<Rightarrow> (Threw (FsError e), f, u) | Inr f1 \<Rightarrow> (Done, f1, u))"

definition unlink_callback :: "'u callback" where
  "unlink_callback p w =
     (case w of (f, u) \<Rightarrow>
      case unlinkSync f p of Inl e \<Rightarrow> (Threw (FsError e), f, u) | Inr f1 \<Rightarrow> (Done, f1, u))"

definition emptyDir :: "nat \<Rightarrow> path \<Rightarrow> 'u tstate \<Rightarrow> status \<times> 'u tstate" where
  "emptyDir n dir s = postOrderDirectoryTraverse n dir rmdir_callback unlink_callback s"

text \<open>
  The directory callback of the clean-up that removes the tests: a directory named
  \<open>cypress\<close> or \<open>__tests__\<close> is emptied and removed.
\<close>

definition remove_tests_callback :: "nat \<Rightarrow> 'u callback" where
  "remove_tests_callback n dirpath w =
     (case w of (f, u) \<Rightarrow>
      if basename dirpath = ''cypress'' \<or> basename dirpath = ''__tests__'' then
        (case emptyDir n dirpath \<lparr>fs = f, usr = u, trace = []\<rparr> of
           (Done, s1) \<Rightarrow>
             (case rmdirSync (fs s1) dirpath of
                Inl e \<Rightarrow> (Threw (FsError e), fs s1, usr s1)
              | Inr f1 \<Rightarrow> (Done, f1, usr s1))
         | (st, s1) \<Rightarrow> (st, fs s1, usr s1))
      else (Done, f, u))"

definition no_callback :: "'u callback" where
  "no_callback p w = (Done, w)"

section \<open>renderTemplate.js\<close>

text \<open>
  \<open>JSON.parse\<close>, \<open>JSON.stringify\<close> and the conversion to an array length are built into
  the language and are parameters of the model: \<open>json_parse t h\<close> is \<open>None\<close> when the
  text \<open>t\<close> is not JSON and otherwise the parsed value with the store \<open>h\<close> extended by
  its objects; \<open>json_stringify h v n\<close> is \<open>JSON.stringify(v, null, n)\<close>.
\<close>

record builtins =
  json_parse :: "string \<Rightarrow> heap \<Rightarrow> (jsval \<times> heap) option"
  json_stringify :: "heap \<Rightarrow> jsval \<Rightarrow> nat \<Rightarrow> string"
  to_length :: "heap \<Rightarrow> jsval \<Rightarrow> nat option"

text \<open>The state of a rendering: the file system and, for the statements below, the
  calls made so far that read or write it.\<close>

datatype fscall = ReadFile path | WriteFile path | CopyFile path path | Mkdir path

type_synonym rstate = "node \<times> fscall list"

text \<open>
  The body of \<open>if (filename === 'package.json' && fs.existsSync(dest))\<close>. The two
  documents are parsed into a store of their own.
\<close>

definition mergePackageJson :: "builtins \<Rightarrow> nat \<Rightarrow> path \<Rightarrow> path \<Rightarrow> rstate \<Rightarrow> status \<times> rstate" where
  "mergePackageJson B n src dest s =
     (case s of (fs0, calls) \<Rightarrow>
     (case readFileSync fs0 dest of
        Inl e \<Rightarrow> (Threw (FsError e), fs0, calls @ [ReadFile dest])
      | Inr text1 \<Rightarrow>
     (case json_parse B text1 [] of
        None \<Rightarrow> (Threw SyntaxError, fs0, calls @ [ReadFile dest])
      | Some (existing, h1) \<Rightarrow>
     (case readFileSync fs0 src of
        Inl e \<Rightarrow> (Threw (FsError e), fs0, calls @ [ReadFile dest, ReadFile src])
      | Inr text2 \<Rightarrow>
     (case json_parse B text2 h1 of
        None \<Rightarrow> (Threw SyntaxError, fs0, calls @ [ReadFile dest, ReadFile src])
      | Some (newPackage, h2) \<Rightarrow>
     (case deepMerge (to_length B) n h2 existing newPackage of
        OutOfFuel \<Rightarrow> (NoFuel, fs0, calls @ [ReadFile dest, ReadFile src])
      | Raised e \<Rightarrow> (Threw e, fs0, calls @ [ReadFile dest, ReadFile src])
      | Returned h3 \<Rightarrow>
     (case sortDependencies (to_length B) h3 existing of
        OutOfFuel \<Rightarrow> (NoFuel, fs0, calls @ [ReadFile dest, ReadFile src])
      | Raised e \<Rightarrow> (Threw e, fs0, calls @ [ReadFile dest, ReadFile src])
      | Returned (pkg, h4) \<Rightarrow>
     (case writeFileSync fs0 dest (json_stringify B h4 pkg 2 @ [CHR 0x0A]) of
        Inl e \<Rightarrow> (Threw (FsError e), fs0, calls @ [ReadFile dest, ReadFile src, WriteFile dest])
      | Inr fs1 \<Rightarrow>
          (Done, fs1, calls @ [ReadFile dest, ReadFile src, WriteFile dest])))))))))"

text \<open>\<open>filename.startsWith('_')\<close> and \<open>filename.replace(/^_/, '.')\<close>.\<close>

definition startsWith_underscore :: "string \<Rightarrow> bool" where
  "startsWith_underscore filename = (filename \<noteq> [] \<and> hd filename = CHR ''_'')"

definition replace_underscore :: "string \<Rightarrow> string" where
  "replace_underscore filename =
     (if startsWith_underscore filename then CHR ''.'' # tl filename else filename)"

text \<open>
  \<open>renderTemplate(src, dest)\<close>; \<open>renderFiles\<close> is the loop over the directory listing.
  Rendering a directory into one of its own subdirectories recurses without end, hence
  the fuel.
\<close>

fun renderTemplate :: "builtins \<Rightarrow> nat \<Rightarrow> path \<Rightarrow> path \<Rightarrow> rstate \<Rightarrow> status \<times> rstate"
  and renderFiles :: "builtins \<Rightarrow> nat \<Rightarrow> path \<Rightarrow> path \<Rightarrow> string list \<Rightarrow> rstate \<Rightarrow> status \<times> rstate"
where
  "renderTemplate B 0 src dest s = (NoFuel, s)"
| "renderTemplate B (Suc n) src dest s =
     (case s of (fs0, calls) \<Rightarrow>
     (case statSync fs0 src of
        Inl e \<Rightarrow> (Threw (FsError e), s)
      | Inr stats \<Rightarrow>
          if isDirectory stats then
            (case mkdir_recursive fs0 dest of
               Inl e \<Rightarrow> (Threw (FsError e), fs0, calls @ [Mkdir dest])
             | Inr fs1 \<Rightarrow>
                 (case readdirSync fs1 src of
                    Inl e \<Rightarrow> (Threw (FsError e), fs1, calls @ [Mkdir dest])
                  | Inr files \<Rightarrow> renderFiles B n src dest files (fs1, calls @ [Mkdir dest])))
          else
            (let filename = basename src in
             if filename = ''package.json'' \<and> existsSync fs0 dest then
               mergePackageJson B n src dest s
             else
               (let dest1 = (if startsWith_underscore filename
                             then resolve (dirname dest) (replace_underscore filename)
                             else dest)
                in case copyFileSync fs0 src dest1 of
                     Inl e \<Rightarrow> (Threw (FsError e), fs0, calls @ [CopyFile src dest1])
                   | Inr fs1 \<Rightarrow> (Done, fs1, calls @ [CopyFile src dest1])))))"
| "renderFiles B n src dest [] s = (Done, s)"
| "renderFiles B n src dest (file # files) s =
     and_then (renderTemplate B n (resolve src file) (resolve dest file) s)
       (\<lambda>s1. renderFiles B n src dest files s1)"

section \<open>Vocabulary of the statements about merging\<close>

fun addr_of :: "jsval \<Rightarrow> addr" where
  "addr_of (Ref a) = a"
| "addr_of v = 0"

text \<open>
  The plan of a merge, read off the store before the merge starts: the objects it
  writes (the target and, recursively, each nested object of the target that meets a
  nested object of the incoming document under the same key) and the objects it reads
  (the incoming document and its nested objects met in the same way, and the two arrays
  wherever both sides hold an array). There is no plan when the fuel does not cover the
  nesting or when an object lists a key twice.
\<close>

fun merge_plan :: "nat \<Rightarrow> heap \<Rightarrow> addr \<Rightarrow> addr \<Rightarrow> (addr list \<times> addr list) option"
  and merge_plan_keys ::
    "nat \<Rightarrow> heap \<Rightarrow> addr \<Rightarrow> addr \<Rightarrow> string list \<Rightarrow> (addr list \<times> addr list) option"
where
  "merge_plan 0 h t u = None"
| "merge_plan (Suc n) h t u =
     (case deref h t of
        None \<Rightarrow> None
      | Some tb \<Rightarrow>
          (case deref h u of
             None \<Rightarrow> None
           | Some ob \<Rightarrow>
               if distinct (own_keys ob) then
                 (case merge_plan_keys n h t u (own_keys ob) of
                    None \<Rightarrow> None
                  | Some (W, R) \<Rightarrow> Some (t # W, u # R))
               else None))"
| "merge_plan_keys n h t u [] = Some ([], [])"
| "merge_plan_keys n h t u (key # keys) =
     (case (if isArray h (get_at h t key) \<and> isArray h (get_at h u key)
            then Some ([], [addr_of (get_at h t key), addr_of (get_at h u key)])
            else if isObject (get_at h t key) \<and> isObject (get_at h u key)
            then merge_plan n h (addr_of (get_at h t key)) (addr_of (get_at h u key))
            else Some ([], [])) of
        None \<Rightarrow> None
      | Some (W1, R1) \<Rightarrow>
          (case merge_plan_keys n h t u keys of
             None \<Rightarrow> None
           | Some (W2, R2) \<Rightarrow> Some (W1 @ W2, R1 @ R2)))"

text \<open>The part of the plan that belongs to one key.\<close>

definition key_plan :: "nat \<Rightarrow> heap \<Rightarrow> addr \<Rightarrow> addr \<Rightarrow> string \<Rightarrow> (addr list \<times> addr list) option" where
  "key_plan n h t u key =
     (if isArray h (get_at h t key) \<and> isArray h (get_at h u key)
      then Some ([], [addr_of (get_at h t key), addr_of (get_at h u key)])
      else if isObject (get_at h t key) \<and> isObject (get_at h u key)
      then merge_plan n h (addr_of (get_at h t key)) (addr_of (get_at h u key))
      else Some ([], []))"

text \<open>
  Two documents are separated when the merge writes no object twice and writes no
  object that it reads. Documents parsed from two texts are trees without a common
  object, and are separated.
\<close>

definition separated :: "nat \<Rightarrow> heap \<Rightarrow> addr \<Rightarrow> addr \<Rightarrow> bool" where
  "separated n h t u =
     (case merge_plan n h t u of
        None \<Rightarrow> False
      | Some (W, R) \<Rightarrow> distinct W \<and> set W \<inter> set R = {})"

text \<open>Every object the merge writes is a mapping: no array of the target meets a mapping
  of the incoming document.\<close>

definition mappings_only :: "nat \<Rightarrow> heap \<Rightarrow> addr \<Rightarrow> addr \<Rightarrow> bool" where
  "mappings_only n h t u =
     (case merge_plan n h t u of
        None \<Rightarrow> False
      | Some (W, R) \<Rightarrow>
          list_all (\<lambda>a. case deref h a of Some (JObject ps) \<Rightarrow> True | _ \<Rightarrow> False) W)"

text \<open>
  The objects reachable from a value, each as often as there are ways to reach it; there
  is no result when the fuel does not cover the nesting, as on a cyclic store. A value
  is a tree when no object is reached twice.
\<close>

fun values_of :: "jsobj \<Rightarrow> jsval list" where
  "values_of (JObject ps) = map snd ps"
| "values_of (JArray es ps) =
     map (\<lambda>e. case e of Some x \<Rightarrow> x | None \<Rightarrow> Undefined) es @ map snd ps"

fun reach :: "nat \<Rightarrow> heap \<Rightarrow> jsval \<Rightarrow> addr list option" where
  "reach n h (Ref a) =
     (case n of
        0 \<Rightarrow> None
      | Suc m \<Rightarrow>
          (case deref h a of
             None \<Rightarrow> None
           | Some ob \<Rightarrow>
               (case those (map (reach m h) (values_of ob)) of
                  None \<Rightarrow> None
                | Some xss \<Rightarrow> Some (a # concat xss))))"
| "reach n h v = Some []"

definition is_tree :: "nat \<Rightarrow> heap \<Rightarrow> jsval \<Rightarrow> bool" where
  "is_tree n h v = (case reach n h v of None \<Rightarrow> False | Some F \<Rightarrow> distinct F)"

text \<open>
  The document a value stands for: the value itself when it is a primitive, and the
  tree of the properties (and elements) of its object otherwise. Two values are equal
  as documents when they unfold to the same tree. There is no tree when the fuel does
  not cover the nesting.
\<close>

datatype jstree =
    Prim jsval
  | ObjectT "(string \<times> jstree) list"
  | ArrayT "jstree option list" "(string \<times> jstree) list"

fun unfold :: "nat \<Rightarrow> heap \<Rightarrow> jsval \<Rightarrow> jstree option" where
  "unfold n h (Ref a) =
     (case n of
        0 \<Rightarrow> None
      | Suc m \<Rightarrow>
          (case deref h a of
             None \<Rightarrow> None
           | Some (JObject ps) \<Rightarrow>
               map_option ObjectT
                 (those (map (\<lambda>p. map_option (Pair (fst p)) (unfold m h (snd p))) ps))
           | Some (JArray es ps) \<Rightarrow>
               (case those (map (\<lambda>e. case e of None \<Rightarrow> Some None
                                        | Some x \<Rightarrow> map_option Some (unfold m h x)) es) of
                  None \<Rightarrow> None
                | Some ts \<Rightarrow>
                    map_option (ArrayT ts)
                      (those (map (\<lambda>p. map_option (Pair (fst p)) (unfold m h (snd p))) ps)))))"
| "unfold n h v = Some (Prim v)"

text \<open>
  No object that the merge reads as an incoming document has the key \<open>__proto__\<close>, so
  the merge never reaches a prototype.
\<close>

definition no_proto_key :: "nat \<Rightarrow> heap \<Rightarrow> addr \<Rightarrow> addr \<Rightarrow> bool" where
  "no_proto_key n h t u =
     (case merge_plan n h t u of
        None \<Rightarrow> False
      | Some (W, R) \<Rightarrow>
          list_all (\<lambda>a. case deref h a of
                          Some ob \<Rightarrow> ''__proto__'' \<notin> set (own_keys ob)
                        | None \<Rightarrow> True) R)"

text \<open>
  The conversion of a value to an array length, for the examples: \<open>null\<close> and the
  booleans convert to 0 and 1, an integer from 0 to \<open>2^32 - 1\<close> is a length, and
  \<open>undefined\<close> and the other integers are none. Strings and objects convert through
  their text and are left out.
\<close>

definition num_length :: "heap \<Rightarrow> jsval \<Rightarrow> nat option" where
  "num_length h v =
     (case v of
        Null \<Rightarrow> Some 0
      | Bool b \<Rightarrow> Some (if b then 1 else 0)
      | Num n \<Rightarrow> if 0 \<le> n \<and> n < 4294967296 then Some (nat n) else None
      | _ \<Rightarrow> None)"


text \<open>
  From the store \<open>h\<close> to the store \<open>h'\<close> every plain mapping is still a plain mapping and
  has every key it had.
\<close>

definition keeps_keys :: "heap \<Rightarrow> heap \<Rightarrow> bool" where
  "keeps_keys h h' =
     (length h \<le> length h'
      \<and> (\<forall>a < length h. case h ! a of
                            JObject ps \<Rightarrow> (case h' ! a of
                                            JObject ps' \<Rightarrow> set (map fst ps) \<subseteq> set (map fst ps')
                                          | JArray es qs \<Rightarrow> False)
                          | JArray es qs \<Rightarrow> True))"

section \<open>Vocabulary of the statements about the manifest\<close>

text \<open>
  The order in which JavaScript lists the keys of an object whose properties were
  created in ascending order of their names: the array indices first, by their number,
  then the other keys by their code units.
\<close>

definition js_key_less :: "string \<Rightarrow> string \<Rightarrow> bool" where
  "js_key_less k1 k2 =
     (case array_index k1 of
        Some i \<Rightarrow> (case array_index k2 of Some j \<Rightarrow> i < j | None \<Rightarrow> True)
      | None \<Rightarrow> (case array_index k2 of Some j \<Rightarrow> False | None \<Rightarrow> k1 < k2))"

text \<open>
  The properties of an object as JavaScript keeps them, whatever the order of their
  creation: no key twice, the array indices first and ascending.
\<close>

definition index_first :: "string \<Rightarrow> string \<Rightarrow> bool" where
  "index_first k1 k2 =
     (case array_index k2 of
        Some j \<Rightarrow> (case array_index k1 of Some i \<Rightarrow> i < j | None \<Rightarrow> False)
      | None \<Rightarrow> True)"

definition canonical :: "(string \<times> jsval) list \<Rightarrow> bool" where
  "canonical ps = (distinct (map fst ps) \<and> sorted_wrt index_first (map fst ps))"

text \<open>The properties of \<open>sorted[depType]\<close> once the names of the mapping \<open>ds\<close> are copied.\<close>

definition sorted_entries :: "(string \<times> jsval) list \<Rightarrow> (string \<times> jsval) list" where
  "sorted_entries ds =
     foldl (\<lambda>qs name. put_prop name (lookup_prop ds name) qs) [] (sort (map fst ds))"

text \<open>
  Each of the four dependency fields of the object at \<open>t\<close> is falsy or is a plain mapping
  that lists no name twice and has no name \<open>__proto__\<close>.
\<close>

definition dep_fields_mappings :: "heap \<Rightarrow> addr \<Rightarrow> bool" where
  "dep_fields_mappings h t =
     list_all (\<lambda>k. case get_at h t k of
                     Ref d \<Rightarrow> (case deref h d of
                                Some (JObject ds) \<Rightarrow>
                                  distinct (map fst ds) \<and> ''__proto__'' \<notin> set (map fst ds)
                              | _ \<Rightarrow> False)
                   | v \<Rightarrow> \<not> truthy v) depTypes"

text \<open>
  Builtins for the example of a manifest: the parser knows the two texts of the example,
  \<open>{"name":"app","dependencies":{"vue":"3","axios":"1"}}\<close> and
  \<open>{"dependencies":{"pinia":"2"}}\<close>, and the printer is left out.
\<close>

definition example_builtins :: builtins where
  "example_builtins =
     \<lparr>json_parse = (\<lambda>t h.
        if t = ''{\"name\":\"app\",\"dependencies\":{\"vue\":\"3\",\"axios\":\"1\"}}'' then
          Some (Ref (length h),
                h @ [JObject [(''name'', Str ''app''), (''dependencies'', Ref (Suc (length h)))],
                     JObject [(''vue'', Str ''3''), (''axios'', Str ''1'')]])
        else if t = ''{\"dependencies\":{\"pinia\":\"2\"}}'' then
          Some (Ref (length h),
                h @ [JObject [(''dependencies'', Ref (Suc (length h)))],
                     JObject [(''pinia'', Str ''2'')]])
        else None),
      json_stringify = (\<lambda>h v n. []),
      to_length = num_length\<rparr>"


section \<open>Vocabulary of the statements about directory trees\<close>

text \<open>
  A well-formed directory lists every name once, and no entry is named \<open>.\<close> or \<open>..\<close> or
  has the empty name.
\<close>

definition valid_name :: "string \<Rightarrow> bool" where
  "valid_name name = (name \<noteq> [] \<and> name \<noteq> ''.'' \<and> name \<noteq> ''..'')"

fun wf_node :: "node \<Rightarrow> bool"
  and wf_entries :: "(string \<times> node) list \<Rightarrow> bool"
where
  "wf_node (Dir es) = (distinct (map fst es) \<and> wf_entries es)"
| "wf_node (File c) = True"
| "wf_node (Symlink t) = True"
| "wf_entries [] = True"
| "wf_entries (e # es) = (valid_name (fst e) \<and> wf_node (snd e) \<and> wf_entries es)"

text \<open>
  The visits of the two traversals as the specification describes them, by recursion on
  the directory tree: in pre-order a directory is reported and then listed and walked, in
  post-order it is listed and walked and then reported; a file or a link is reported.
\<close>

fun preorder_visits :: "path \<Rightarrow> (string \<times> node) list \<Rightarrow> event list" where
  "preorder_visits dir [] = []"
| "preorder_visits dir ((name, Dir es) # rest) =
     DirCb (dir @ [name]) # Listed (dir @ [name]) # preorder_visits (dir @ [name]) es
       @ preorder_visits dir rest"
| "preorder_visits dir ((name, File c) # rest) = FileCb (dir @ [name]) # preorder_visits dir rest"
| "preorder_visits dir ((name, Symlink t) # rest) = FileCb (dir @ [name]) # preorder_visits dir rest"

fun postorder_visits :: "path \<Rightarrow> (string \<times> node) list \<Rightarrow> event list" where
  "postorder_visits dir [] = []"
| "postorder_visits dir ((name, Dir es) # rest) =
     Listed (dir @ [name]) # postorder_visits (dir @ [name]) es @ DirCb (dir @ [name])
       # postorder_visits dir rest"
| "postorder_visits dir ((name, File c) # rest) = FileCb (dir @ [name]) # postorder_visits dir rest"
| "postorder_visits dir ((name, Symlink t) # rest) = FileCb (dir @ [name]) # postorder_visits dir rest"

text \<open>The entries below a directory, each with its path, and the depth of the tree.\<close>

fun descendants :: "path \<Rightarrow> (string \<times> node) list \<Rightarrow> (path \<times> node) list" where
  "descendants dir [] = []"
| "descendants dir ((name, Dir es) # rest) =
     (dir @ [name], Dir es) # descendants (dir @ [name]) es @ descendants dir rest"
| "descendants dir ((name, File c) # rest) = (dir @ [name], File c) # descendants dir rest"
| "descendants dir ((name, Symlink t) # rest) = (dir @ [name], Symlink t) # descendants dir rest"

fun depth :: "(string \<times> node) list \<Rightarrow> nat" where
  "depth [] = 0"
| "depth ((name, Dir es) # rest) = max (Suc (depth es)) (depth rest)"
| "depth ((name, File c) # rest) = depth rest"
| "depth ((name, Symlink t) # rest) = depth rest"

fun event_path :: "event \<Rightarrow> path" where
  "event_path (Listed p) = p"
| "event_path (DirCb p) = p"
| "event_path (FileCb p) = p"

fun is_DirCb :: "event \<Rightarrow> bool" where
  "is_DirCb (DirCb p) = True"
| "is_DirCb e = False"

text \<open>\<open>before xs a b\<close>: some occurrence of \<open>a\<close> in \<open>xs\<close> comes before some occurrence of \<open>b\<close>.\<close>

fun before :: "'a list \<Rightarrow> 'a \<Rightarrow> 'a \<Rightarrow> bool" where
  "before [] a b = False"
| "before (x # xs) a b = ((x = a \<and> b \<in> set xs) \<or> before xs a b)"

text \<open>A callback that returns normally and leaves the file system as it is.\<close>

definition read_only :: "'u callback \<Rightarrow> bool" where
  "read_only cb = (\<forall>p w. fst (cb p w) = Done \<and> fst (snd (cb p w)) = fst w)"

fun is_callback :: "event \<Rightarrow> bool" where
  "is_callback (Listed p) = False"
| "is_callback e = True"

definition proper_prefix :: "'a list \<Rightarrow> 'a list \<Rightarrow> bool" where
  "proper_prefix p q = (\<exists>r. r \<noteq> [] \<and> q = p @ r)"

text \<open>
  What the two callbacks make of the caller's state when they are called on the visits
  of a list, in order, each time with the file system \<open>f\<close>.
\<close>

fun apply_visits :: "'u callback \<Rightarrow> 'u callback \<Rightarrow> node \<Rightarrow> event list \<Rightarrow> 'u \<Rightarrow> 'u" where
  "apply_visits dcb fcb f [] u = u"
| "apply_visits dcb fcb f (DirCb p # es) u = apply_visits dcb fcb f es (snd (snd (dcb p (f, u))))"
| "apply_visits dcb fcb f (FileCb p # es) u = apply_visits dcb fcb f es (snd (snd (fcb p (f, u))))"
| "apply_visits dcb fcb f (Listed p # es) u = apply_visits dcb fcb f es u"

text \<open>Callbacks that note, in the caller's state, the path they were given.\<close>

definition note_dir :: "(string \<times> path) list callback" where
  "note_dir p w = (Done, fst w, snd w @ [(''onDirectory'', p)])"

definition note_file :: "(string \<times> path) list callback" where
  "note_file p w = (Done, fst w, snd w @ [(''onFile'', p)])"

section \<open>Vocabulary of the statements about rendering\<close>

text \<open>The node at a resolved path, found without following any link.\<close>

fun node_at :: "node \<Rightarrow> path \<Rightarrow> node option" where
  "node_at cur [] = Some cur"
| "node_at cur (c # cs) =
     (case cur of
        Dir es \<Rightarrow> (case map_of es c of Some n \<Rightarrow> node_at n cs | None \<Rightarrow> None)
      | _ \<Rightarrow> None)"

text \<open>Builtins for the examples that do not touch a manifest.\<close>

definition no_json :: builtins where
  "no_json = \<lparr>json_parse = (\<lambda>t h. None), json_stringify = (\<lambda>h v n. []),
     to_length = (\<lambda>h v. None)\<rparr>"

section \<open>Array merging removes duplicates by identity\<close>

lemma set_foldl_set_add: "set (foldl set_add acc xs) = set acc \<union> set xs"
  by (induction xs arbitrary: acc) (auto simp: set_add_def)

lemma distinct_foldl_set_add: "distinct acc \<Longrightarrow> distinct (foldl set_add acc xs)"
  by (induction xs arbitrary: acc) (auto simp: set_add_def)

lemma foldl_set_add_split:
  "foldl set_add acc xs = acc @ foldl set_add [] (filter (\<lambda>x. x \<notin> set acc) xs)"
proof (induction xs rule: rev_induct)
  case Nil
  show ?case by simp
next
  case (snoc x xs)
  then show ?case
    by (simp add: set_add_def set_foldl_set_add)
qed

lemma set_new_Set: "set (new_Set xs) = set xs"
  by (simp add: new_Set_def set_foldl_set_add)

lemma distinct_new_Set: "distinct (new_Set xs)"
  by (simp add: new_Set_def distinct_foldl_set_add)

lemma new_Set_append:
  "new_Set (xs @ ys) = new_Set xs @ new_Set (filter (\<lambda>y. y \<notin> set xs) ys)"
proof -
  have "new_Set (xs @ ys) = foldl set_add (new_Set xs) ys"
    by (simp add: new_Set_def)
  also have "\<dots> = new_Set xs @ foldl set_add [] (filter (\<lambda>y. y \<notin> set (new_Set xs)) ys)"
    by (rule foldl_set_add_split)
  finally show ?thesis
    by (simp add: new_Set_def set_foldl_set_add)
qed

lemma new_Set_distinct_id: "distinct xs \<Longrightarrow> new_Set xs = xs"
proof (induction xs rule: rev_induct)
  case Nil
  show ?case by (simp add: new_Set_def)
next
  case (snoc x xs)
  then show ?case by (simp add: new_Set_def set_add_def)
qed

text \<open>
  C10. The merged array holds every element of either array exactly once, where two
  elements count as the same only if they are equal values of \<open>jsval\<close>: the same
  primitive or the same address. Two references to different addresses both stay in the
  result, whatever the store holds at the two addresses, also when it holds equal objects.
\<close>

theorem dedupe_by_identity:
  "distinct (mergeArrayWithDedupe h a b)
   \<and> set (mergeArrayWithDedupe h a b) = set (spread h a) \<union> set (spread h b)
   \<and> (\<forall>p q. Ref p \<in> set (spread h a) \<longrightarrow> Ref q \<in> set (spread h b) \<longrightarrow> p \<noteq> q \<longrightarrow>
         deref h p = deref h q \<longrightarrow>
         Ref p \<in> set (mergeArrayWithDedupe h a b) \<and> Ref q \<in> set (mergeArrayWithDedupe h a b))"
  by (simp add: mergeArrayWithDedupe_def distinct_new_Set set_new_Set)

text \<open>The arrays \<open>[{a: 1}]\<close> and \<open>[{a: 1}]\<close>, holding two different objects.\<close>

theorem dedupe_by_identity_witness:
  "Ref 2 \<in> set (spread [array_of [Ref 2], array_of [Ref 3], JObject [(''a'', Num 1)],
                        JObject [(''a'', Num 1)]] (Ref 0))
   \<and> Ref 3 \<in> set (spread [array_of [Ref 2], array_of [Ref 3], JObject [(''a'', Num 1)],
                        JObject [(''a'', Num 1)]] (Ref 1))
   \<and> deref [array_of [Ref 2], array_of [Ref 3], JObject [(''a'', Num 1)],
                        JObject [(''a'', Num 1)]] 2
       = deref [array_of [Ref 2], array_of [Ref 3], JObject [(''a'', Num 1)],
                        JObject [(''a'', Num 1)]] 3
   \<and> mergeArrayWithDedupe [array_of [Ref 2], array_of [Ref 3], JObject [(''a'', Num 1)],
                        JObject [(''a'', Num 1)]] (Ref 0) (Ref 1) = [Ref 2, Ref 3]"
proof -
  let ?h = "[array_of [Ref 2], array_of [Ref 3], JObject [(''a'', Num 1)],
             JObject [(''a'', Num 1)]]"
  have a: "Ref 2 \<in> set (spread ?h (Ref 0))" by code_simp
  have b: "Ref 3 \<in> set (spread ?h (Ref 1))" by code_simp
  have c: "deref ?h 2 = deref ?h 3" by code_simp
  have m: "mergeArrayWithDedupe ?h (Ref 0) (Ref 1) = [Ref 2, Ref 3]" by code_simp
  from dedupe_by_identity [of ?h "Ref 0" "Ref 1"] a b c
  have "Ref 2 \<in> set (mergeArrayWithDedupe ?h (Ref 0) (Ref 1))
        \<and> Ref 3 \<in> set (mergeArrayWithDedupe ?h (Ref 0) (Ref 1))"
    by blast
  with a b c m show ?thesis by blast
qed

section \<open>Properties of the traversals\<close>

text \<open>
  C8. When the root does not exist, or is not a directory (it resolves to a file, or the
  resolution runs into a file on the way), both traversals throw the error of
  \<open>readdirSync\<close>, ENOENT in the first case and ENOTDIR in the second, before any
  callback is invoked.
\<close>

theorem traverse_missing_root:
  assumes "statSync (fs s) dir = Inl ENOENT
           \<or> statSync (fs s) dir = Inl ENOTDIR
           \<or> (\<exists>q n. statSync (fs s) dir = Inr (q, n) \<and> \<not> isDirectory (q, n))"
  shows "\<exists>e. (e = ENOENT \<or> e = ENOTDIR)
           \<and> (e = ENOENT \<longleftrightarrow> statSync (fs s) dir = Inl ENOENT)
           \<and> preOrderDirectoryTraverse (Suc n) dir dirCallback fileCallback s
               = (Threw (FsError e), log_event (Listed dir) s)
           \<and> postOrderDirectoryTraverse (Suc n) dir dirCallback fileCallback s
               = (Threw (FsError e), log_event (Listed dir) s)"
  using assms
  by (auto simp: readdirSync_def split: sum.splits node.splits prod.splits
           elim!: isDirectory.elims)

theorem traverse_missing_root_witness:
  "statSync (Dir [(''a'', File ''x'')]) [''b''] = Inl ENOENT
   \<and> preOrderDirectoryTraverse (Suc 0) [''b''] no_callback no_callback
        \<lparr>fs = Dir [(''a'', File ''x'')], usr = (), trace = []\<rparr>
       = (Threw (FsError ENOENT), \<lparr>fs = Dir [(''a'', File ''x'')], usr = (), trace = [Listed [''b'']]\<rparr>)
   \<and> postOrderDirectoryTraverse (Suc 0) [''b''] no_callback no_callback
        \<lparr>fs = Dir [(''a'', File ''x'')], usr = (), trace = []\<rparr>
       = (Threw (FsError ENOENT), \<lparr>fs = Dir [(''a'', File ''x'')], usr = (), trace = [Listed [''b'']]\<rparr>)"
proof -
  let ?s = "\<lparr>fs = Dir [(''a'', File ''x'')], usr = (), trace = []\<rparr>"
  have h: "statSync (fs ?s) [''b''] = Inl ENOENT" by code_simp
  from traverse_missing_root [of ?s "[''b'']" 0 no_callback no_callback] h
  show ?thesis by (auto simp: log_event_def)
qed

text \<open>
  C5. When the entry is a directory, the directory callback returns, and the path does
  not exist afterwards, the pre-order loop goes on with the next entry from the state
  the callback left: it does not list the path and throws nothing, for any fuel. The
  only event recorded for the entry is the invocation of the callback.
\<close>

theorem preorder_skips_deleted_directory:
  assumes "lstatSync (fs s) (resolve dir filename) = Inr st"
    and "isDirectory st"
    and "invoke dirCallback (resolve dir filename)
           (log_event (DirCb (resolve dir filename)) s) = (Done, s1)"
    and "\<not> existsSync (fs s1) (resolve dir filename)"
  shows "preOrderLoop n dir (filename # rest) dirCallback fileCallback s
           = preOrderLoop n dir rest dirCallback fileCallback s1
         \<and> trace s1 = trace s @ [DirCb (resolve dir filename)]"
  using assms
  by (auto simp: and_then_def invoke_def log_event_def Let_def split: prod.splits)

text \<open>The clean-up callback of \<open>index.js\<close> removes the directory \<open>/p/__tests__\<close>; the
  traversal of \<open>/p\<close> goes on with the file \<open>/p/x\<close>.\<close>

theorem preorder_skips_deleted_directory_witness:
  "lstatSync (Dir [(''p'', Dir [(''__tests__'', Dir [(''a'', File ''t'')]), (''x'', File ''x'')])])
      (resolve [''p''] ''__tests__'') = Inr ([''p'', ''__tests__''], Dir [(''a'', File ''t'')])
   \<and> \<not> existsSync (Dir [(''p'', Dir [(''x'', File ''x'')])]) (resolve [''p''] ''__tests__'')
   \<and> preOrderLoop 0 [''p''] [''__tests__'', ''x''] (remove_tests_callback 2) no_callback
        \<lparr>fs = Dir [(''p'', Dir [(''__tests__'', Dir [(''a'', File ''t'')]), (''x'', File ''x'')])],
         usr = (), trace = []\<rparr>
       = (Done, \<lparr>fs = Dir [(''p'', Dir [(''x'', File ''x'')])], usr = (),
                 trace = [DirCb [''p'', ''__tests__''], FileCb [''p'', ''x'']]\<rparr>)"
proof -
  let ?f = "Dir [(''p'', Dir [(''__tests__'', Dir [(''a'', File ''t'')]), (''x'', File ''x'')])]"
  let ?s = "\<lparr>fs = ?f, usr = (), trace = []\<rparr>"
  let ?s1 = "\<lparr>fs = Dir [(''p'', Dir [(''x'', File ''x'')])], usr = (),
              trace = [DirCb [''p'', ''__tests__'']]\<rparr>"
  have h1: "lstatSync (fs ?s) (resolve [''p''] ''__tests__'')
              = Inr ([''p'', ''__tests__''], Dir [(''a'', File ''t'')])"
    by code_simp
  have h2: "isDirectory ([''p'', ''__tests__''], Dir [(''a'', File ''t'')])"
    by simp
  have h3: "invoke (remove_tests_callback 2) (resolve [''p''] ''__tests__'')
              (log_event (DirCb (resolve [''p''] ''__tests__'')) ?s) = (Done, ?s1)"
    by code_simp
  have h4: "\<not> existsSync (fs ?s1) (resolve [''p''] ''__tests__'')"
    by code_simp
  have rest: "preOrderLoop 0 [''p''] [''x''] (remove_tests_callback 2) no_callback ?s1
       = (Done, \<lparr>fs = Dir [(''p'', Dir [(''x'', File ''x'')])], usr = (),
                 trace = [DirCb [''p'', ''__tests__''], FileCb [''p'', ''x'']]\<rparr>)"
    by code_simp
  have h1': "lstatSync ?f (resolve [''p''] ''__tests__'')
              = Inr ([''p'', ''__tests__''], Dir [(''a'', File ''t'')])"
    by code_simp
  have h4': "\<not> existsSync (Dir [(''p'', Dir [(''x'', File ''x'')])]) (resolve [''p''] ''__tests__'')"
    by code_simp
  from preorder_skips_deleted_directory [OF h1 h2 h3 h4, of 0 "[''x'']" no_callback]
  have "preOrderLoop 0 [''p''] [''__tests__'', ''x''] (remove_tests_callback 2) no_callback ?s
          = preOrderLoop 0 [''p''] [''x''] (remove_tests_callback 2) no_callback ?s1"
    by (rule conjunct1)
  with rest h1' h4' show ?thesis by (simp only: simp_thms)
qed

lemma walk_child:
  assumes "walk k root True here cur p = Inr (q, Dir es)" and "map_of es nm = Some nd"
  shows "walk k root False here cur (p @ [nm]) = Inr (q @ [nm], nd)"
    and "(\<forall>t. nd \<noteq> Symlink t) \<Longrightarrow> walk k root True here cur (p @ [nm]) = Inr (q @ [nm], nd)"
  using assms
  by (induction k root True here cur p rule: walk.induct;
      auto split: node.splits option.splits if_splits)+

lemma lstat_child:
  "statSync f dir = Inr (q, Dir es) \<Longrightarrow> map_of es nm = Some nd \<Longrightarrow>
   lstatSync f (dir @ [nm]) = Inr (q @ [nm], nd)"
  by (simp add: statSync_def lstatSync_def walk_child)

lemma stat_child_dir:
  "statSync f dir = Inr (q, Dir es) \<Longrightarrow> map_of es nm = Some (Dir ds) \<Longrightarrow>
   statSync f (dir @ [nm]) = Inr (q @ [nm], Dir ds)"
  by (simp add: statSync_def walk_child)

lemma resolve_valid: "valid_name nm \<Longrightarrow> resolve dir nm = dir @ [nm]"
  by (simp add: resolve_def valid_name_def)

lemma invoke_read_only:
  "read_only cb \<Longrightarrow> \<exists>s'. invoke cb p s = (Done, s') \<and> fs s' = fs s \<and> trace s' = trace s
      \<and> usr s' = snd (snd (cb p (fs s, usr s)))"
  unfolding read_only_def invoke_def
  by (auto split: prod.splits) (metis fst_conv snd_conv)+

lemma apply_visits_append:
  "apply_visits dcb fcb f (xs @ ys) u = apply_visits dcb fcb f ys (apply_visits dcb fcb f xs u)"
  by (induction dcb fcb f xs u rule: apply_visits.induct) simp_all

lemma map_of_distinct_entries:
  "distinct (map fst es) \<Longrightarrow> \<forall>(nm, nd) \<in> set es. map_of es nm = Some nd"
  by auto

lemma pre_loop_refines:
  assumes "read_only dcb" and "read_only fcb"
  shows "statSync (fs s) dir = Inr (q, Dir all) \<Longrightarrow> \<forall>(nm, nd) \<in> set es. map_of all nm = Some nd \<Longrightarrow>
         wf_entries es \<Longrightarrow> depth es \<le> n \<Longrightarrow>
         \<exists>s'. preOrderLoop n dir (map fst es) dcb fcb s = (Done, s') \<and> fs s' = fs s
              \<and> trace s' = trace s @ preorder_visits dir es
              \<and> usr s' = apply_visits dcb fcb (fs s) (preorder_visits dir es) (usr s)"
proof (induction dir es arbitrary: s n q all rule: preorder_visits.induct)
  case (1 dir)
  then show ?case by simp
next
  case (2 dir name ds rest)
  let ?p = "dir @ [name]"
  from 2 have vn: "valid_name name" and wfd: "distinct (map fst ds)" "wf_entries ds" and wfr: "wf_entries rest"
    by auto
  from 2 have mo: "map_of all name = Some (Dir ds)" by auto
  have l: "lstatSync (fs s) ?p = Inr (q @ [name], Dir ds)"
    using lstat_child [OF "2.prems"(1) mo] .
  obtain s1 where s1: "invoke dcb ?p (log_event (DirCb ?p) s) = (Done, s1)"
      "fs s1 = fs s" "trace s1 = trace s @ [DirCb ?p]"
      "usr s1 = snd (snd (dcb ?p (fs s, usr s)))"
    using invoke_read_only [OF assms(1), of ?p "log_event (DirCb ?p) s"]
    by (auto simp: log_event_def)
  have st: "statSync (fs s1) ?p = Inr (q @ [name], Dir ds)"
    using stat_child_dir [OF "2.prems"(1) mo] s1 by simp
  from "2.prems" obtain m where n: "n = Suc m" and dm: "depth ds \<le> m" and dr: "depth rest \<le> n"
    by (cases n) auto
  have "\<exists>s2. preOrderLoop m ?p (map fst ds) dcb fcb (log_event (Listed ?p) s1) = (Done, s2)
           \<and> fs s2 = fs (log_event (Listed ?p) s1)
           \<and> trace s2 = trace (log_event (Listed ?p) s1) @ preorder_visits ?p ds
           \<and> usr s2 = apply_visits dcb fcb (fs (log_event (Listed ?p) s1)) (preorder_visits ?p ds)
                 (usr (log_event (Listed ?p) s1))"
    apply (rule "2.IH"(1) [where q = "q @ [name]" and all = ds])
    using st wfd dm map_of_distinct_entries [OF wfd(1)] by (auto simp: log_event_def)
  then obtain s2 where s2: "preOrderLoop m ?p (map fst ds) dcb fcb (log_event (Listed ?p) s1) = (Done, s2)"
     "fs s2 = fs s" "trace s2 = trace s @ DirCb ?p # Listed ?p # preorder_visits ?p ds"
     "usr s2 = apply_visits dcb fcb (fs s) (preorder_visits ?p ds) (usr s1)"
    using s1 by (auto simp: log_event_def)
  have "\<exists>s3. preOrderLoop n dir (map fst rest) dcb fcb s2 = (Done, s3) \<and> fs s3 = fs s2
           \<and> trace s3 = trace s2 @ preorder_visits dir rest
           \<and> usr s3 = apply_visits dcb fcb (fs s2) (preorder_visits dir rest) (usr s2)"
    apply (rule "2.IH"(2) [where q = q and all = all])
    using "2.prems" s2 wfr dr by auto
  then obtain s3 where s3: "preOrderLoop n dir (map fst rest) dcb fcb s2 = (Done, s3)" "fs s3 = fs s2"
           "trace s3 = trace s2 @ preorder_visits dir rest"
           "usr s3 = apply_visits dcb fcb (fs s2) (preorder_visits dir rest) (usr s2)" by blast
  have ex: "existsSync (fs s1) ?p" using st by (simp add: existsSync_def)
  have rd: "readdirSync (fs s1) ?p = Inr (map fst ds)" using st by (simp add: readdirSync_def)
  show ?case
    using vn l s1 ex rd s2 s3 n
    by (simp add: resolve_valid and_then_def apply_visits_append)
next
  case (3 dir name c rest)
  let ?p = "dir @ [name]"
  from 3 have vn: "valid_name name" and wfr: "wf_entries rest" by auto
  from 3 have mo: "map_of all name = Some (File c)" by auto
  have l: "lstatSync (fs s) ?p = Inr (q @ [name], File c)"
    using lstat_child [OF "3.prems"(1) mo] .
  obtain s1 where s1: "invoke fcb ?p (log_event (FileCb ?p) s) = (Done, s1)"
      "fs s1 = fs s" "trace s1 = trace s @ [FileCb ?p]"
      "usr s1 = snd (snd (fcb ?p (fs s, usr s)))"
    using invoke_read_only [OF assms(2), of ?p "log_event (FileCb ?p) s"]
    by (auto simp: log_event_def)
  have "\<exists>s3. preOrderLoop n dir (map fst rest) dcb fcb s1 = (Done, s3) \<and> fs s3 = fs s1
           \<and> trace s3 = trace s1 @ preorder_visits dir rest
           \<and> usr s3 = apply_visits dcb fcb (fs s1) (preorder_visits dir rest) (usr s1)"
    apply (rule "3.IH" [where q = q and all = all])
    using "3.prems" s1 wfr by auto
  then show ?case using vn l s1 by (auto simp: resolve_valid and_then_def)
next
  case (4 dir name t rest)
  let ?p = "dir @ [name]"
  from 4 have vn: "valid_name name" and wfr: "wf_entries rest" by auto
  from 4 have mo: "map_of all name = Some (Symlink t)" by auto
  have l: "lstatSync (fs s) ?p = Inr (q @ [name], Symlink t)"
    using lstat_child [OF "4.prems"(1) mo] .
  obtain s1 where s1: "invoke fcb ?p (log_event (FileCb ?p) s) = (Done, s1)"
      "fs s1 = fs s" "trace s1 = trace s @ [FileCb ?p]"
      "usr s1 = snd (snd (fcb ?p (fs s, usr s)))"
    using invoke_read_only [OF assms(2), of ?p "log_event (FileCb ?p) s"]
    by (auto simp: log_event_def)
  have "\<exists>s3. preOrderLoop n dir (map fst rest) dcb fcb s1 = (Done, s3) \<and> fs s3 = fs s1
           \<and> trace s3 = trace s1 @ preorder_visits dir rest
           \<and> usr s3 = apply_visits dcb fcb (fs s1) (preorder_visits dir rest) (usr s1)"
    apply (rule "4.IH" [where q = q and all = all])
    using "4.prems" s1 wfr by auto
  then show ?case using vn l s1 by (auto simp: resolve_valid and_then_def)
qed

lemma post_loop_refines:
  assumes "read_only dcb" and "read_only fcb"
  shows "statSync (fs s) dir = Inr (q, Dir all) \<Longrightarrow> \<forall>(nm, nd) \<in> set es. map_of all nm = Some nd \<Longrightarrow>
         wf_entries es \<Longrightarrow> depth es \<le> n \<Longrightarrow>
         \<exists>s'. postOrderLoop n dir (map fst es) dcb fcb s = (Done, s') \<and> fs s' = fs s
              \<and> trace s' = trace s @ postorder_visits dir es
              \<and> usr s' = apply_visits dcb fcb (fs s) (postorder_visits dir es) (usr s)"
proof (induction dir es arbitrary: s n q all rule: postorder_visits.induct)
  case (1 dir)
  then show ?case by simp
next
  case (2 dir name ds rest)
  let ?p = "dir @ [name]"
  from 2 have vn: "valid_name name" and wfd: "distinct (map fst ds)" "wf_entries ds" and wfr: "wf_entries rest"
    by auto
  from 2 have mo: "map_of all name = Some (Dir ds)" by auto
  have l: "lstatSync (fs s) ?p = Inr (q @ [name], Dir ds)"
    using lstat_child [OF "2.prems"(1) mo] .
  have st: "statSync (fs s) ?p = Inr (q @ [name], Dir ds)"
    using stat_child_dir [OF "2.prems"(1) mo] by simp
  from "2.prems" obtain m where n: "n = Suc m" and dm: "depth ds \<le> m" and dr: "depth rest \<le> n"
    by (cases n) auto
  have "\<exists>s1. postOrderLoop m ?p (map fst ds) dcb fcb (log_event (Listed ?p) s) = (Done, s1)
           \<and> fs s1 = fs (log_event (Listed ?p) s)
           \<and> trace s1 = trace (log_event (Listed ?p) s) @ postorder_visits ?p ds
           \<and> usr s1 = apply_visits dcb fcb (fs (log_event (Listed ?p) s)) (postorder_visits ?p ds)
                 (usr (log_event (Listed ?p) s))"
    apply (rule "2.IH"(1) [where q = "q @ [name]" and all = ds])
    using st wfd dm map_of_distinct_entries [OF wfd(1)] by (auto simp: log_event_def)
  then obtain s1 where s1: "postOrderLoop m ?p (map fst ds) dcb fcb (log_event (Listed ?p) s) = (Done, s1)"
     "fs s1 = fs s" "trace s1 = trace s @ Listed ?p # postorder_visits ?p ds"
     "usr s1 = apply_visits dcb fcb (fs s) (postorder_visits ?p ds) (usr s)"
    by (auto simp: log_event_def)
  obtain s2 where s2: "invoke dcb ?p (log_event (DirCb ?p) s1) = (Done, s2)"
      "fs s2 = fs s" "trace s2 = trace s @ Listed ?p # postorder_visits ?p ds @ [DirCb ?p]"
      "usr s2 = snd (snd (dcb ?p (fs s, usr s1)))"
    using invoke_read_only [OF assms(1), of ?p "log_event (DirCb ?p) s1"] s1
    by (auto simp: log_event_def)
  have "\<exists>s3. postOrderLoop n dir (map fst rest) dcb fcb s2 = (Done, s3) \<and> fs s3 = fs s2
           \<and> trace s3 = trace s2 @ postorder_visits dir rest
           \<and> usr s3 = apply_visits dcb fcb (fs s2) (postorder_visits dir rest) (usr s2)"
    apply (rule "2.IH"(2) [where q = q and all = all])
    using "2.prems" s2 wfr dr by auto
  then obtain s3 where s3: "postOrderLoop n dir (map fst rest) dcb fcb s2 = (Done, s3)" "fs s3 = fs s2"
           "trace s3 = trace s2 @ postorder_visits dir rest"
           "usr s3 = apply_visits dcb fcb (fs s2) (postorder_visits dir rest) (usr s2)" by blast
  have rd: "readdirSync (fs s) ?p = Inr (map fst ds)" using st by (simp add: readdirSync_def)
  show ?case
    using vn l s1 rd s2 s3 n
    by (simp add: resolve_valid and_then_def apply_visits_append)
next
  case (3 dir name c rest)
  let ?p = "dir @ [name]"
  from 3 have vn: "valid_name name" and wfr: "wf_entries rest" by auto
  from 3 have mo: "map_of all name = Some (File c)" by auto
  have l: "lstatSync (fs s) ?p = Inr (q @ [name], File c)"
    using lstat_child [OF "3.prems"(1) mo] .
  obtain s1 where s1: "invoke fcb ?p (log_event (FileCb ?p) s) = (Done, s1)"
      "fs s1 = fs s" "trace s1 = trace s @ [FileCb ?p]"
      "usr s1 = snd (snd (fcb ?p (fs s, usr s)))"
    using invoke_read_only [OF assms(2), of ?p "log_event (FileCb ?p) s"]
    by (auto simp: log_event_def)
  have "\<exists>s3. postOrderLoop n dir (map fst rest) dcb fcb s1 = (Done, s3) \<and> fs s3 = fs s1
           \<and> trace s3 = trace s1 @ postorder_visits dir rest
           \<and> usr s3 = apply_visits dcb fcb (fs s1) (postorder_visits dir rest) (usr s1)"
    apply (rule "3.IH" [where q = q and all = all])
    using "3.prems" s1 wfr by auto
  then show ?case using vn l s1 by (auto simp: resolve_valid and_then_def)
next
  case (4 dir name t rest)
  let ?p = "dir @ [name]"
  from 4 have vn: "valid_name name" and wfr: "wf_entries rest" by auto
  from 4 have mo: "map_of all name = Some (Symlink t)" by auto
  have l: "lstatSync (fs s) ?p = Inr (q @ [name], Symlink t)"
    using lstat_child [OF "4.prems"(1) mo] .
  obtain s1 where s1: "invoke fcb ?p (log_event (FileCb ?p) s) = (Done, s1)"
      "fs s1 = fs s" "trace s1 = trace s @ [FileCb ?p]"
      "usr s1 = snd (snd (fcb ?p (fs s, usr s)))"
    using invoke_read_only [OF assms(2), of ?p "log_event (FileCb ?p) s"]
    by (auto simp: log_event_def)
  have "\<exists>s3. postOrderLoop n dir (map fst rest) dcb fcb s1 = (Done, s3) \<and> fs s3 = fs s1
           \<and> trace s3 = trace s1 @ postorder_visits dir rest
           \<and> usr s3 = apply_visits dcb fcb (fs s1) (postorder_visits dir rest) (usr s1)"
    apply (rule "4.IH" [where q = q and all = all])
    using "4.prems" s1 wfr by auto
  then show ?case using vn l s1 by (auto simp: resolve_valid and_then_def)
qed

lemma visits_mset: "mset (preorder_visits dir es) = mset (postorder_visits dir es)"
  by (induction dir es rule: preorder_visits.induct) auto

lemma pre_visit_path:
  "e \<in> set (preorder_visits dir es) \<Longrightarrow>
   \<exists>nm r. nm \<in> fst ` set es \<and> event_path e = dir @ nm # r"
proof (induction dir es rule: preorder_visits.induct)
  case (1 dir)
  then show ?case by simp
next
  case (2 dir name ds rest)
  from "2.prems" consider "e = DirCb (dir @ [name]) \<or> e = Listed (dir @ [name])"
    | "e \<in> set (preorder_visits (dir @ [name]) ds)" | "e \<in> set (preorder_visits dir rest)"
    by auto
  then show ?case
  proof cases
    case 1
    then have "event_path e = dir @ name # []" by auto
    then show ?thesis by (intro exI [of _ name] exI [of _ "[]"]) simp
  next
    case 2
    from "2.IH"(1) [OF this] obtain nm r where "event_path e = (dir @ [name]) @ nm # r" by blast
    then have "event_path e = dir @ name # (nm # r)" by simp
    then show ?thesis by (intro exI [of _ name] exI [of _ "nm # r"]) simp
  next
    case 3
    from "2.IH"(2) [OF this] show ?thesis by auto
  qed
next
  case (3 dir name c rest)
  from "3.prems" consider "e = FileCb (dir @ [name])" | "e \<in> set (preorder_visits dir rest)"
    by auto
  then show ?case
  proof cases
    case 1
    then have "event_path e = dir @ name # []" by auto
    then show ?thesis by (intro exI [of _ name] exI [of _ "[]"]) simp
  next
    case 2
    from "3.IH" [OF this] show ?thesis by auto
  qed
next
  case (4 dir name t rest)
  from "4.prems" consider "e = FileCb (dir @ [name])" | "e \<in> set (preorder_visits dir rest)"
    by auto
  then show ?case
  proof cases
    case 1
    then have "event_path e = dir @ name # []" by auto
    then show ?thesis by (intro exI [of _ name] exI [of _ "[]"]) simp
  next
    case 2
    from "4.IH" [OF this] show ?thesis by auto
  qed
qed

lemma post_visit_path:
  "e \<in> set (postorder_visits dir es) \<Longrightarrow>
   \<exists>nm r. nm \<in> fst ` set es \<and> event_path e = dir @ nm # r"
  using visits_mset [of dir es] pre_visit_path [of e dir es]
  by (metis mset_eq_setD)

lemma before_set: "before xs a b \<Longrightarrow> a \<in> set xs \<and> b \<in> set xs"
  by (induction xs) auto

lemma before_append:
  "before (xs @ ys) a b \<longleftrightarrow> before xs a b \<or> before ys a b \<or> (a \<in> set xs \<and> b \<in> set ys)"
  by (induction xs) (auto dest: before_set)

lemma visits_set: "set (postorder_visits dir es) = set (preorder_visits dir es)"
  using visits_mset [of dir es] by (metis mset_eq_setD)

lemma path_clash:
  "dir @ nm # r = dir @ [name] \<Longrightarrow> nm = name" 
  "(dir @ [name]) @ nm' # r' = dir @ nm # r \<Longrightarrow> nm = name"
  by auto

lemma distinct_preorder_visits:
  "distinct (map fst es) \<Longrightarrow> wf_entries es \<Longrightarrow> distinct (preorder_visits dir es)"
proof (induction dir es rule: preorder_visits.induct)
  case (1 dir)
  show ?case by simp
next
  case (2 dir name ds rest)
  let ?p = "dir @ [name]"
  have sub: "event_path e \<noteq> ?p" if "e \<in> set (preorder_visits ?p ds)" for e
    using pre_visit_path [OF that] by auto
  have rest: "event_path e \<noteq> ?p \<and> e \<notin> set (preorder_visits ?p ds)"
    if "e \<in> set (preorder_visits dir rest)" for e
  proof -
    from pre_visit_path [OF that] obtain nm r where nm: "nm \<in> fst ` set rest" "event_path e = dir @ nm # r"
      by blast
    with "2.prems" have "nm \<noteq> name" by auto
    with nm show ?thesis using pre_visit_path [of e ?p ds] by auto
  qed
  from 2 have "distinct (preorder_visits ?p ds)" "distinct (preorder_visits dir rest)" by auto
  then show ?case using sub rest by fastforce
next
  case (3 dir name c rest)
  have "event_path e \<noteq> dir @ [name]" if "e \<in> set (preorder_visits dir rest)" for e
  proof -
    from pre_visit_path [OF that] obtain nm r where nm: "nm \<in> fst ` set rest" "event_path e = dir @ nm # r"
      by blast
    with "3.prems" have "nm \<noteq> name" by auto
    with nm show ?thesis by auto
  qed
  with 3 show ?case by fastforce
next
  case (4 dir name t rest)
  have "event_path e \<noteq> dir @ [name]" if "e \<in> set (preorder_visits dir rest)" for e
  proof -
    from pre_visit_path [OF that] obtain nm r where nm: "nm \<in> fst ` set rest" "event_path e = dir @ nm # r"
      by blast
    with "4.prems" have "nm \<noteq> name" by auto
    with nm show ?thesis by auto
  qed
  with 4 show ?case by fastforce
qed

lemma distinct_postorder_visits:
  "distinct (map fst es) \<Longrightarrow> wf_entries es \<Longrightarrow> distinct (postorder_visits dir es)"
  using distinct_preorder_visits [of es dir] visits_mset [of dir es]
  by (metis mset_eq_imp_distinct_iff)

lemma DirCb_visits:
  "DirCb p \<in> set (preorder_visits dir es) \<longleftrightarrow> (\<exists>ds. (p, Dir ds) \<in> set (descendants dir es))"
  by (induction dir es rule: preorder_visits.induct) auto

lemma FileCb_visits:
  "FileCb p \<in> set (preorder_visits dir es)
     \<longleftrightarrow> (\<exists>nd. (p, nd) \<in> set (descendants dir es) \<and> \<not> isDirectory (p, nd))"
  by (induction dir es rule: preorder_visits.induct) auto

lemma branches_unrelated:
  "n1 \<noteq> n2 \<Longrightarrow> \<not> proper_prefix (dir @ n1 # r1) (dir @ n2 # r2)"
  by (auto simp: proper_prefix_def)

lemma not_proper_prefix_self_ext:
  "\<not> proper_prefix (dir @ name # r) (dir @ [name])"
  by (auto simp: proper_prefix_def)

lemma proper_prefix_ext: "proper_prefix (dir @ [name]) (dir @ name # nm # r)"
  by (auto simp: proper_prefix_def)

lemma visit_order:
  "distinct (map fst es) \<Longrightarrow> wf_entries es \<Longrightarrow>
   a \<in> set (preorder_visits dir es) \<Longrightarrow> b \<in> set (preorder_visits dir es) \<Longrightarrow>
   is_callback a \<Longrightarrow> is_callback b \<Longrightarrow> a \<noteq> b \<Longrightarrow>
   (proper_prefix (event_path a) (event_path b) \<longrightarrow>
      before (filter is_callback (preorder_visits dir es)) a b
      \<and> before (filter is_callback (postorder_visits dir es)) b a)
   \<and> (\<not> proper_prefix (event_path a) (event_path b) \<and> \<not> proper_prefix (event_path b) (event_path a) \<longrightarrow>
      (before (filter is_callback (preorder_visits dir es)) a b
       \<longleftrightarrow> before (filter is_callback (postorder_visits dir es)) a b))"
proof (induction dir es arbitrary: a b rule: preorder_visits.induct)
  case (1 dir)
  then show ?case by simp
next
  case (2 dir name ds rest)
  let ?p = "dir @ [name]"
  let ?D = "DirCb ?p"
  let ?A = "filter is_callback (preorder_visits ?p ds)"
  let ?A' = "filter is_callback (postorder_visits ?p ds)"
  let ?B = "filter is_callback (preorder_visits dir rest)"
  let ?B' = "filter is_callback (postorder_visits dir rest)"
  have setA: "set ?A' = set ?A" and setB: "set ?B' = set ?B"
    by (simp_all add: visits_set)
  have inA: "\<exists>nm r. event_path x = dir @ name # nm # r" if "x \<in> set ?A" for x
    using pre_visit_path [of x ?p ds] that by auto
  have inB: "\<exists>nm r. nm \<noteq> name \<and> event_path x = dir @ nm # r" if "x \<in> set ?B" for x
  proof -
    from that pre_visit_path [of x dir rest]
    obtain nm r where nm: "nm \<in> fst ` set rest" "event_path x = dir @ nm # r" by auto
    with "2.prems" have "nm \<noteq> name" by auto
    with nm show ?thesis by blast
  qed
  have DA: "?D \<notin> set ?A" using inA by fastforce
  have DB: "?D \<notin> set ?B" using inB by fastforce
  have AB: "x \<in> set ?A \<Longrightarrow> x \<notin> set ?B" for x using inA inB by fastforce
  have pre: "before (filter is_callback (preorder_visits dir ((name, Dir ds) # rest))) x y
      \<longleftrightarrow> (x = ?D \<and> (y \<in> set ?A \<or> y \<in> set ?B)) \<or> before ?A x y \<or> before ?B x y
          \<or> (x \<in> set ?A \<and> y \<in> set ?B)" for x y
    by (auto simp: before_append)
  have post: "before (filter is_callback (postorder_visits dir ((name, Dir ds) # rest))) x y
      \<longleftrightarrow> before ?A' x y \<or> (x \<in> set ?A \<and> (y = ?D \<or> y \<in> set ?B))
          \<or> (x = ?D \<and> y \<in> set ?B) \<or> before ?B' x y" for x y
    using setA setB by (auto simp: before_append)
  from "2.prems" have wfd: "distinct (map fst ds)" "wf_entries ds"
    and wfr: "distinct (map fst rest)" "wf_entries rest" by auto
  from "2.prems" have mem: "a = ?D \<or> a \<in> set ?A \<or> a \<in> set ?B" "b = ?D \<or> b \<in> set ?A \<or> b \<in> set ?B"
    by auto
  have bsA: "before ?A x y \<Longrightarrow> x \<in> set ?A \<and> y \<in> set ?A" for x y by (rule before_set)
  have bsA': "before ?A' x y \<Longrightarrow> x \<in> set ?A \<and> y \<in> set ?A" for x y
    unfolding setA [symmetric] by (rule before_set)
  have bsB: "before ?B x y \<Longrightarrow> x \<in> set ?B \<and> y \<in> set ?B" for x y by (rule before_set)
  have bsB': "before ?B' x y \<Longrightarrow> x \<in> set ?B \<and> y \<in> set ?B" for x y
    unfolding setB [symmetric] by (rule before_set)
  have asym: "proper_prefix x y \<Longrightarrow> \<not> proper_prefix y x" for x y :: path
    by (auto simp: proper_prefix_def)
  have ppDA: "proper_prefix (event_path ?D) (event_path x)" if "x \<in> set ?A" for x
    using inA [OF that] by (auto simp: proper_prefix_def)
  have unDB: "\<not> proper_prefix (event_path ?D) (event_path x) \<and> \<not> proper_prefix (event_path x) (event_path ?D)"
    if "x \<in> set ?B" for x
    using inB [OF that] by (auto simp: proper_prefix_def)
  have unAB: "\<not> proper_prefix (event_path x) (event_path y) \<and> \<not> proper_prefix (event_path y) (event_path x)"
    if "x \<in> set ?A" "y \<in> set ?B" for x y
    using inA [OF that(1)] inB [OF that(2)] by (auto simp: proper_prefix_def)
  consider (DA) "a = ?D" "b \<in> set ?A" | (DB) "a = ?D" "b \<in> set ?B"
    | (AD) "a \<in> set ?A" "b = ?D" | (AA) "a \<in> set ?A" "b \<in> set ?A"
    | (AB) "a \<in> set ?A" "b \<in> set ?B" | (BD) "a \<in> set ?B" "b = ?D"
    | (BA) "a \<in> set ?B" "b \<in> set ?A" | (BB) "a \<in> set ?B" "b \<in> set ?B"
    using mem "2.prems"(7) by blast
  then show ?case
  proof cases
    case DA
    have "proper_prefix (event_path a) (event_path b)" using ppDA DA by simp
    moreover have "before (filter is_callback (preorder_visits dir ((name, Dir ds) # rest))) a b"
      unfolding pre using DA by blast
    moreover have "before (filter is_callback (postorder_visits dir ((name, Dir ds) # rest))) b a"
      unfolding post using DA by blast
    ultimately show ?thesis by blast
  next
    case DB
    have "before (filter is_callback (preorder_visits dir ((name, Dir ds) # rest))) a b"
      unfolding pre using DB by blast
    moreover have "before (filter is_callback (postorder_visits dir ((name, Dir ds) # rest))) a b"
      unfolding post using DB by blast
    moreover have "\<not> proper_prefix (event_path a) (event_path b)" using unDB DB by simp
    ultimately show ?thesis by blast
  next
    case AD
    have "proper_prefix (event_path b) (event_path a)" using ppDA AD by simp
    then show ?thesis using asym by blast
  next
    case AA
    have ih: "(proper_prefix (event_path a) (event_path b) \<longrightarrow> before ?A a b \<and> before ?A' b a)
       \<and> (\<not> proper_prefix (event_path a) (event_path b) \<and> \<not> proper_prefix (event_path b) (event_path a) \<longrightarrow>
      (before ?A a b \<longleftrightarrow> before ?A' a b))"
      using "2.IH"(1) [of a b] wfd AA "2.prems" by auto
    have nD: "a \<noteq> ?D" "b \<noteq> ?D" "a \<notin> set ?B" "b \<notin> set ?B" using AA DA AB by auto
    have "before (filter is_callback (preorder_visits dir ((name, Dir ds) # rest))) x y \<longleftrightarrow> before ?A x y"
      if "x \<in> set ?A" "y \<in> set ?A" for x y
      unfolding pre using that DA AB bsB by blast
    moreover have "before (filter is_callback (postorder_visits dir ((name, Dir ds) # rest))) x y \<longleftrightarrow> before ?A' x y"
      if "x \<in> set ?A" "y \<in> set ?A" for x y
      unfolding post using that DA AB bsB' by blast
    ultimately show ?thesis using ih AA by presburger
  next
    case AB
    have "before (filter is_callback (preorder_visits dir ((name, Dir ds) # rest))) a b"
      unfolding pre using AB by blast
    moreover have "before (filter is_callback (postorder_visits dir ((name, Dir ds) # rest))) a b"
      unfolding post using AB by blast
    moreover have "\<not> proper_prefix (event_path a) (event_path b)" using unAB AB by simp
    ultimately show ?thesis by blast
  next
    case BD
    have "\<not> before (filter is_callback (preorder_visits dir ((name, Dir ds) # rest))) a b"
      unfolding pre using BD DA DB AB bsA bsB by blast
    moreover have "\<not> before (filter is_callback (postorder_visits dir ((name, Dir ds) # rest))) a b"
      unfolding post using BD DA DB AB bsA' bsB' by blast
    moreover have "\<not> proper_prefix (event_path a) (event_path b)" using unDB BD by simp
    ultimately show ?thesis by blast
  next
    case BA
    have "\<not> before (filter is_callback (preorder_visits dir ((name, Dir ds) # rest))) a b"
      unfolding pre using BA DA DB AB bsA bsB by blast
    moreover have "\<not> before (filter is_callback (postorder_visits dir ((name, Dir ds) # rest))) a b"
      unfolding post using BA DA DB AB bsA' bsB' by blast
    moreover have "\<not> proper_prefix (event_path a) (event_path b)" using unAB BA by simp
    ultimately show ?thesis by blast
  next
    case BB
    have ih: "(proper_prefix (event_path a) (event_path b) \<longrightarrow> before ?B a b \<and> before ?B' b a)
       \<and> (\<not> proper_prefix (event_path a) (event_path b) \<and> \<not> proper_prefix (event_path b) (event_path a) \<longrightarrow>
      (before ?B a b \<longleftrightarrow> before ?B' a b))"
      using "2.IH"(2) [of a b] wfr BB "2.prems" by auto
    have "before (filter is_callback (preorder_visits dir ((name, Dir ds) # rest))) x y \<longleftrightarrow> before ?B x y"
      if "x \<in> set ?B" "y \<in> set ?B" for x y
      unfolding pre using that DB AB bsA by blast
    moreover have "before (filter is_callback (postorder_visits dir ((name, Dir ds) # rest))) x y \<longleftrightarrow> before ?B' x y"
      if "x \<in> set ?B" "y \<in> set ?B" for x y
      unfolding post using that DB AB bsA' by blast
    ultimately show ?thesis using ih BB by presburger
  qed
next
  case (3 dir name c rest)
  let ?F = "FileCb (dir @ [name])"
  let ?B = "filter is_callback (preorder_visits dir rest)"
  let ?B' = "filter is_callback (postorder_visits dir rest)"
  have setB: "set ?B' = set ?B"
    by (simp add: visits_set)
  have inB: "\<exists>nm r. nm \<noteq> name \<and> event_path x = dir @ nm # r" if "x \<in> set ?B" for x
  proof -
    from that pre_visit_path [of x dir rest]
    obtain nm r where nm: "nm \<in> fst ` set rest" "event_path x = dir @ nm # r" by auto
    with "3.prems" have "nm \<noteq> name" by auto
    with nm show ?thesis by blast
  qed
  have FB: "?F \<notin> set ?B" using inB by fastforce
  have pre: "before (filter is_callback (preorder_visits dir ((name, File c) # rest))) x y
      \<longleftrightarrow> (x = ?F \<and> y \<in> set ?B) \<or> before ?B x y" for x y
    by auto
  have post: "before (filter is_callback (postorder_visits dir ((name, File c) # rest))) x y
      \<longleftrightarrow> (x = ?F \<and> y \<in> set ?B) \<or> before ?B' x y" for x y
    using setB by auto
  from "3.prems" have wfr: "distinct (map fst rest)" "wf_entries rest" by auto
  from "3.prems" have mem: "a = ?F \<or> a \<in> set ?B" "b = ?F \<or> b \<in> set ?B"
    by auto
  have bsB: "before ?B x y \<Longrightarrow> x \<in> set ?B \<and> y \<in> set ?B" for x y by (rule before_set)
  have bsB': "before ?B' x y \<Longrightarrow> x \<in> set ?B \<and> y \<in> set ?B" for x y
    unfolding setB [symmetric] by (rule before_set)
  have unFB: "\<not> proper_prefix (event_path ?F) (event_path x) \<and> \<not> proper_prefix (event_path x) (event_path ?F)"
    if "x \<in> set ?B" for x
    using inB [OF that] by (auto simp: proper_prefix_def)
  consider (FB) "a = ?F" "b \<in> set ?B" | (BF) "a \<in> set ?B" "b = ?F" | (BB) "a \<in> set ?B" "b \<in> set ?B"
    using mem "3.prems"(7) by blast
  then show ?case
  proof cases
    case FB
    have "before (filter is_callback (preorder_visits dir ((name, File c) # rest))) a b"
      unfolding pre using FB by blast
    moreover have "before (filter is_callback (postorder_visits dir ((name, File c) # rest))) a b"
      unfolding post using FB by blast
    moreover have "\<not> proper_prefix (event_path a) (event_path b)" using unFB FB by simp
    ultimately show ?thesis by blast
  next
    case BF
    have "\<not> before (filter is_callback (preorder_visits dir ((name, File c) # rest))) a b"
      unfolding pre using BF FB bsB by blast
    moreover have "\<not> before (filter is_callback (postorder_visits dir ((name, File c) # rest))) a b"
      unfolding post using BF FB bsB' by blast
    moreover have "\<not> proper_prefix (event_path a) (event_path b)" using unFB BF by simp
    ultimately show ?thesis by blast
  next
    case BB
    have ih: "(proper_prefix (event_path a) (event_path b) \<longrightarrow> before ?B a b \<and> before ?B' b a)
       \<and> (\<not> proper_prefix (event_path a) (event_path b) \<and> \<not> proper_prefix (event_path b) (event_path a) \<longrightarrow>
      (before ?B a b \<longleftrightarrow> before ?B' a b))"
      using "3.IH" [of a b] wfr BB "3.prems" by auto
    have "before (filter is_callback (preorder_visits dir ((name, File c) # rest))) x y \<longleftrightarrow> before ?B x y"
      if "x \<in> set ?B" "y \<in> set ?B" for x y
      unfolding pre using that FB by blast
    moreover have "before (filter is_callback (postorder_visits dir ((name, File c) # rest))) x y \<longleftrightarrow> before ?B' x y"
      if "x \<in> set ?B" "y \<in> set ?B" for x y
      unfolding post using that FB by blast
    ultimately show ?thesis using ih BB by presburger
  qed
next
  case (4 dir name t rest)
  let ?F = "FileCb (dir @ [name])"
  let ?B = "filter is_callback (preorder_visits dir rest)"
  let ?B' = "filter is_callback (postorder_visits dir rest)"
  have setB: "set ?B' = set ?B"
    by (simp add: visits_set)
  have inB: "\<exists>nm r. nm \<noteq> name \<and> event_path x = dir @ nm # r" if "x \<in> set ?B" for x
  proof -
    from that pre_visit_path [of x dir rest]
    obtain nm r where nm: "nm \<in> fst ` set rest" "event_path x = dir @ nm # r" by auto
    with "4.prems" have "nm \<noteq> name" by auto
    with nm show ?thesis by blast
  qed
  have FB: "?F \<notin> set ?B" using inB by fastforce
  have pre: "before (filter is_callback (preorder_visits dir ((name, Symlink t) # rest))) x y
      \<longleftrightarrow> (x = ?F \<and> y \<in> set ?B) \<or> before ?B x y" for x y
    by auto
  have post: "before (filter is_callback (postorder_visits dir ((name, Symlink t) # rest))) x y
      \<longleftrightarrow> (x = ?F \<and> y \<in> set ?B) \<or> before ?B' x y" for x y
    using setB by auto
  from "4.prems" have wfr: "distinct (map fst rest)" "wf_entries rest" by auto
  from "4.prems" have mem: "a = ?F \<or> a \<in> set ?B" "b = ?F \<or> b \<in> set ?B"
    by auto
  have bsB: "before ?B x y \<Longrightarrow> x \<in> set ?B \<and> y \<in> set ?B" for x y by (rule before_set)
  have bsB': "before ?B' x y \<Longrightarrow> x \<in> set ?B \<and> y \<in> set ?B" for x y
    unfolding setB [symmetric] by (rule before_set)
  have unFB: "\<not> proper_prefix (event_path ?F) (event_path x) \<and> \<not> proper_prefix (event_path x) (event_path ?F)"
    if "x \<in> set ?B" for x
    using inB [OF that] by (auto simp: proper_prefix_def)
  consider (FB) "a = ?F" "b \<in> set ?B" | (BF) "a \<in> set ?B" "b = ?F" | (BB) "a \<in> set ?B" "b \<in> set ?B"
    using mem "4.prems"(7) by blast
  then show ?case
  proof cases
    case FB
    have "before (filter is_callback (preorder_visits dir ((name, Symlink t) # rest))) a b"
      unfolding pre using FB by blast
    moreover have "before (filter is_callback (postorder_visits dir ((name, Symlink t) # rest))) a b"
      unfolding post using FB by blast
    moreover have "\<not> proper_prefix (event_path a) (event_path b)" using unFB FB by simp
    ultimately show ?thesis by blast
  next
    case BF
    have "\<not> before (filter is_callback (preorder_visits dir ((name, Symlink t) # rest))) a b"
      unfolding pre using BF FB bsB by blast
    moreover have "\<not> before (filter is_callback (postorder_visits dir ((name, Symlink t) # rest))) a b"
      unfolding post using BF FB bsB' by blast
    moreover have "\<not> proper_prefix (event_path a) (event_path b)" using unFB BF by simp
    ultimately show ?thesis by blast
  next
    case BB
    have ih: "(proper_prefix (event_path a) (event_path b) \<longrightarrow> before ?B a b \<and> before ?B' b a)
       \<and> (\<not> proper_prefix (event_path a) (event_path b) \<and> \<not> proper_prefix (event_path b) (event_path a) \<longrightarrow>
      (before ?B a b \<longleftrightarrow> before ?B' a b))"
      using "4.IH" [of a b] wfr BB "4.prems" by auto
    have "before (filter is_callback (preorder_visits dir ((name, Symlink t) # rest))) x y \<longleftrightarrow> before ?B x y"
      if "x \<in> set ?B" "y \<in> set ?B" for x y
      unfolding pre using that FB by blast
    moreover have "before (filter is_callback (postorder_visits dir ((name, Symlink t) # rest))) x y \<longleftrightarrow> before ?B' x y"
      if "x \<in> set ?B" "y \<in> set ?B" for x y
      unfolding post using that FB by blast
    ultimately show ?thesis using ih BB by presburger
  qed
qed

text \<open>
  C6. On a well-formed directory tree and with callbacks that return normally and leave
  the file system alone, both traversals return once the fuel exceeds the depth of the
  tree, and each leaves the caller's state as calling the callbacks on its visits, in
  order, leaves it: the directory callback on the paths of the directory visits and the
  file callback on the paths of the file visits, each time with the unchanged file
  system. The visits of the two traversals are the same multiset, without repetition:
  a directory visit for exactly the directories below the root, a file visit for exactly
  the files and links below it. A directory comes before everything below it in
  pre-order and after it in post-order, and two visits of paths of which neither lies
  below the other come in the same order in both traversals.
\<close>

theorem traversal_completeness:
  assumes "read_only dirCallback" and "read_only fileCallback"
    and "statSync (fs s) dir = Inr (q, Dir es)" and "wf_node (Dir es)"
  shows "\<exists>N. \<forall>n \<ge> N. \<exists>s1 s2 pre post.
      preOrderDirectoryTraverse n dir dirCallback fileCallback s = (Done, s1)
    \<and> postOrderDirectoryTraverse n dir dirCallback fileCallback s = (Done, s2)
    \<and> fs s1 = fs s \<and> fs s2 = fs s
    \<and> usr s1 = apply_visits dirCallback fileCallback (fs s) pre (usr s)
    \<and> usr s2 = apply_visits dirCallback fileCallback (fs s) post (usr s)
    \<and> trace s1 = trace s @ Listed dir # pre
    \<and> trace s2 = trace s @ Listed dir # post
    \<and> mset (filter is_callback pre) = mset (filter is_callback post)
    \<and> distinct (filter is_callback pre)
    \<and> distinct (filter is_callback post)
    \<and> (\<forall>p. DirCb p \<in> set pre \<longleftrightarrow> (\<exists>ds. (p, Dir ds) \<in> set (descendants dir es)))
    \<and> (\<forall>p. FileCb p \<in> set pre
            \<longleftrightarrow> (\<exists>nd. (p, nd) \<in> set (descendants dir es) \<and> \<not> isDirectory (p, nd)))
    \<and> (\<forall>a b. a \<in> set (filter is_callback pre) \<longrightarrow> b \<in> set (filter is_callback pre) \<longrightarrow>
            a \<noteq> b \<longrightarrow>
            (proper_prefix (event_path a) (event_path b) \<longrightarrow>
               before (filter is_callback pre) a b \<and> before (filter is_callback post) b a)
          \<and> (\<not> proper_prefix (event_path a) (event_path b)
               \<and> \<not> proper_prefix (event_path b) (event_path a) \<longrightarrow>
               (before (filter is_callback pre) a b \<longleftrightarrow> before (filter is_callback post) a b)))"
proof (intro exI [of _ "Suc (depth es)"] allI impI)
  fix n assume "Suc (depth es) \<le> n"
  then obtain m where n: "n = Suc m" and m: "depth es \<le> m" by (cases n) auto
  from assms(4) have d: "distinct (map fst es)" and wf: "wf_entries es" by auto
  let ?s0 = "log_event (Listed dir) s"
  have st0: "statSync (fs ?s0) dir = Inr (q, Dir es)" using assms(3) by (simp add: log_event_def)
  have rd: "readdirSync (fs s) dir = Inr (map fst es)" using assms(3) by (simp add: readdirSync_def)
  from pre_loop_refines [OF assms(1,2) st0 map_of_distinct_entries [OF d] wf m]
  obtain s1 where s1: "preOrderLoop m dir (map fst es) dirCallback fileCallback ?s0 = (Done, s1)"
    "trace s1 = trace ?s0 @ preorder_visits dir es" "fs s1 = fs ?s0"
    "usr s1 = apply_visits dirCallback fileCallback (fs ?s0) (preorder_visits dir es) (usr ?s0)"
    by blast
  from post_loop_refines [OF assms(1,2) st0 map_of_distinct_entries [OF d] wf m]
  obtain s2 where s2: "postOrderLoop m dir (map fst es) dirCallback fileCallback ?s0 = (Done, s2)"
    "trace s2 = trace ?s0 @ postorder_visits dir es" "fs s2 = fs ?s0"
    "usr s2 = apply_visits dirCallback fileCallback (fs ?s0) (postorder_visits dir es) (usr ?s0)"
    by blast
  let ?pre = "preorder_visits dir es" and ?post = "postorder_visits dir es"
  have r1: "preOrderDirectoryTraverse n dir dirCallback fileCallback s = (Done, s1)"
    using n rd s1 by simp
  have r2: "postOrderDirectoryTraverse n dir dirCallback fileCallback s = (Done, s2)"
    using n rd s2 by simp
  have t1: "trace s1 = trace s @ Listed dir # ?pre" using s1 by (simp add: log_event_def)
  have t2: "trace s2 = trace s @ Listed dir # ?post" using s2 by (simp add: log_event_def)
  have f1: "fs s1 = fs s" "fs s2 = fs s" using s1 s2 by (simp_all add: log_event_def)
  have u1: "usr s1 = apply_visits dirCallback fileCallback (fs s) ?pre (usr s)"
    using s1 by (simp add: log_event_def)
  have u2: "usr s2 = apply_visits dirCallback fileCallback (fs s) ?post (usr s)"
    using s2 by (simp add: log_event_def)
  have ms: "mset (filter is_callback ?pre) = mset (filter is_callback ?post)"
    by (simp add: visits_mset)
  have d1: "distinct (filter is_callback ?pre)"
    using distinct_preorder_visits [OF d wf] by simp
  have d2: "distinct (filter is_callback ?post)"
    using distinct_postorder_visits [OF d wf] by simp
  have ord: "\<forall>a b. a \<in> set (filter is_callback ?pre) \<longrightarrow> b \<in> set (filter is_callback ?pre) \<longrightarrow>
            a \<noteq> b \<longrightarrow>
            (proper_prefix (event_path a) (event_path b) \<longrightarrow>
               before (filter is_callback ?pre) a b \<and> before (filter is_callback ?post) b a)
          \<and> (\<not> proper_prefix (event_path a) (event_path b)
               \<and> \<not> proper_prefix (event_path b) (event_path a) \<longrightarrow>
               (before (filter is_callback ?pre) a b \<longleftrightarrow> before (filter is_callback ?post) a b))"
    using visit_order [OF d wf] by simp
  show "\<exists>s1 s2 pre post.
      preOrderDirectoryTraverse n dir dirCallback fileCallback s = (Done, s1)
    \<and> postOrderDirectoryTraverse n dir dirCallback fileCallback s = (Done, s2)
    \<and> fs s1 = fs s \<and> fs s2 = fs s
    \<and> usr s1 = apply_visits dirCallback fileCallback (fs s) pre (usr s)
    \<and> usr s2 = apply_visits dirCallback fileCallback (fs s) post (usr s)
    \<and> trace s1 = trace s @ Listed dir # pre
    \<and> trace s2 = trace s @ Listed dir # post
    \<and> mset (filter is_callback pre) = mset (filter is_callback post)
    \<and> distinct (filter is_callback pre)
    \<and> distinct (filter is_callback post)
    \<and> (\<forall>p. DirCb p \<in> set pre \<longleftrightarrow> (\<exists>ds. (p, Dir ds) \<in> set (descendants dir es)))
    \<and> (\<forall>p. FileCb p \<in> set pre
            \<longleftrightarrow> (\<exists>nd. (p, nd) \<in> set (descendants dir es) \<and> \<not> isDirectory (p, nd)))
    \<and> (\<forall>a b. a \<in> set (filter is_callback pre) \<longrightarrow> b \<in> set (filter is_callback pre) \<longrightarrow>
            a \<noteq> b \<longrightarrow>
            (proper_prefix (event_path a) (event_path b) \<longrightarrow>
               before (filter is_callback pre) a b \<and> before (filter is_callback post) b a)
          \<and> (\<not> proper_prefix (event_path a) (event_path b)
               \<and> \<not> proper_prefix (event_path b) (event_path a) \<longrightarrow>
               (before (filter is_callback pre) a b \<longleftrightarrow> before (filter is_callback post) a b)))"
    apply (rule exI [of _ s1], rule exI [of _ s2], rule exI [of _ ?pre], rule exI [of _ ?post])
    using r1 r2 f1 u1 u2 t1 t2 ms d1 d2 ord DirCb_visits [of _ dir es] FileCb_visits [of _ dir es]
    by (intro conjI) blast+
qed

lemma read_only_no_callback: "read_only no_callback"
  by (simp add: read_only_def no_callback_def)

lemma read_only_note: "read_only note_dir" "read_only note_file"
  by (simp_all add: read_only_def note_dir_def note_file_def)

text \<open>
  The directory \<open>/p\<close> with a file, a directory holding a file, and a link, traversed
  with callbacks that note their calls.
\<close>

theorem traversal_completeness_witness:
  "read_only note_dir \<and> read_only note_file
   \<and> statSync (Dir [(''p'', Dir [(''a'', File ''1''), (''d'', Dir [(''b'', File ''2'')]),
                                (''l'', Symlink [''p'', ''d''])])]) [''p'']
       = Inr ([''p''], Dir [(''a'', File ''1''), (''d'', Dir [(''b'', File ''2'')]),
                            (''l'', Symlink [''p'', ''d''])])
   \<and> wf_node (Dir [(''a'', File ''1''), (''d'', Dir [(''b'', File ''2'')]),
                   (''l'', Symlink [''p'', ''d''])])
   \<and> (\<exists>N. \<forall>n \<ge> N. \<exists>s1 s2 pre post.
        preOrderDirectoryTraverse n [''p''] note_dir note_file
          \<lparr>fs = Dir [(''p'', Dir [(''a'', File ''1''), (''d'', Dir [(''b'', File ''2'')]),
                                 (''l'', Symlink [''p'', ''d''])])], usr = [], trace = []\<rparr>
          = (Done, s1)
      \<and> postOrderDirectoryTraverse n [''p''] note_dir note_file
          \<lparr>fs = Dir [(''p'', Dir [(''a'', File ''1''), (''d'', Dir [(''b'', File ''2'')]),
                                 (''l'', Symlink [''p'', ''d''])])], usr = [], trace = []\<rparr>
          = (Done, s2)
      \<and> usr s1 = apply_visits note_dir note_file
            (Dir [(''p'', Dir [(''a'', File ''1''), (''d'', Dir [(''b'', File ''2'')]),
                                 (''l'', Symlink [''p'', ''d''])])]) pre []
      \<and> usr s2 = apply_visits note_dir note_file
            (Dir [(''p'', Dir [(''a'', File ''1''), (''d'', Dir [(''b'', File ''2'')]),
                                 (''l'', Symlink [''p'', ''d''])])]) post []
      \<and> trace s1 = Listed [''p''] # pre \<and> trace s2 = Listed [''p''] # post
      \<and> mset (filter is_callback pre) = mset (filter is_callback post)
      \<and> distinct (filter is_callback pre))
   \<and> usr (snd (preOrderDirectoryTraverse 2 [''p''] note_dir note_file
          \<lparr>fs = Dir [(''p'', Dir [(''a'', File ''1''), (''d'', Dir [(''b'', File ''2'')]),
                                 (''l'', Symlink [''p'', ''d''])])], usr = [], trace = []\<rparr>))
       = [(''onFile'', [''p'', ''a'']), (''onDirectory'', [''p'', ''d'']),
          (''onFile'', [''p'', ''d'', ''b'']), (''onFile'', [''p'', ''l''])]
   \<and> usr (snd (postOrderDirectoryTraverse 2 [''p''] note_dir note_file
          \<lparr>fs = Dir [(''p'', Dir [(''a'', File ''1''), (''d'', Dir [(''b'', File ''2'')]),
                                 (''l'', Symlink [''p'', ''d''])])], usr = [], trace = []\<rparr>))
       = [(''onFile'', [''p'', ''a'']), (''onFile'', [''p'', ''d'', ''b'']),
          (''onDirectory'', [''p'', ''d'']), (''onFile'', [''p'', ''l''])]"
proof -
  let ?E = "[(''a'', File ''1''), (''d'', Dir [(''b'', File ''2'')]), (''l'', Symlink [''p'', ''d''])]"
  let ?s = "\<lparr>fs = Dir [(''p'', Dir ?E)], usr = [] :: (string \<times> path) list, trace = []\<rparr>"
  have st: "statSync (fs ?s) [''p''] = Inr ([''p''], Dir ?E)" by code_simp
  have st': "statSync (Dir [(''p'', Dir ?E)]) [''p''] = Inr ([''p''], Dir ?E)" by code_simp
  have wf: "wf_node (Dir ?E)" by code_simp
  have e1: "usr (snd (preOrderDirectoryTraverse 2 [''p''] note_dir note_file ?s))
       = [(''onFile'', [''p'', ''a'']), (''onDirectory'', [''p'', ''d'']),
          (''onFile'', [''p'', ''d'', ''b'']), (''onFile'', [''p'', ''l''])]"
    by code_simp
  have e2: "usr (snd (postOrderDirectoryTraverse 2 [''p''] note_dir note_file ?s))
       = [(''onFile'', [''p'', ''a'']), (''onFile'', [''p'', ''d'', ''b'']),
          (''onDirectory'', [''p'', ''d'']), (''onFile'', [''p'', ''l''])]"
    by code_simp
  from traversal_completeness [OF read_only_note st wf]
  have "\<exists>N. \<forall>n \<ge> N. \<exists>s1 s2 pre post.
        preOrderDirectoryTraverse n [''p''] note_dir note_file ?s = (Done, s1)
      \<and> postOrderDirectoryTraverse n [''p''] note_dir note_file ?s = (Done, s2)
      \<and> usr s1 = apply_visits note_dir note_file (fs ?s) pre (usr ?s)
      \<and> usr s2 = apply_visits note_dir note_file (fs ?s) post (usr ?s)
      \<and> trace s1 = trace ?s @ Listed [''p''] # pre \<and> trace s2 = trace ?s @ Listed [''p''] # post
      \<and> mset (filter is_callback pre) = mset (filter is_callback post)
      \<and> distinct (filter is_callback pre)"
    apply (elim exE)
    subgoal for N
      apply (rule exI [of _ N])
      apply (intro allI impI)
      apply (drule spec, drule (1) mp)
      apply (elim exE conjE)
      apply (intro exI conjI; assumption)
      done
    done
  then have "\<exists>N. \<forall>n \<ge> N. \<exists>s1 s2 pre post.
        preOrderDirectoryTraverse n [''p''] note_dir note_file ?s = (Done, s1)
      \<and> postOrderDirectoryTraverse n [''p''] note_dir note_file ?s = (Done, s2)
      \<and> usr s1 = apply_visits note_dir note_file (Dir [(''p'', Dir ?E)]) pre []
      \<and> usr s2 = apply_visits note_dir note_file (Dir [(''p'', Dir ?E)]) post []
      \<and> trace s1 = Listed [''p''] # pre \<and> trace s2 = Listed [''p''] # post
      \<and> mset (filter is_callback pre) = mset (filter is_callback post)
      \<and> distinct (filter is_callback pre)"
    by simp
  with read_only_note st' wf e1 e2 show ?thesis by (intro conjI)
qed

section \<open>Properties of the renderer\<close>

lemma node_at_append:
  "node_at cur (p @ r) = (case node_at cur p of Some n \<Rightarrow> node_at n r | None \<Rightarrow> None)"
  by (induction p arbitrary: cur) (auto split: node.splits option.splits)

lemma walk_node_at:
  "walk k root fl here cur p = Inr (q, n) \<Longrightarrow> node_at root here = Some cur \<Longrightarrow>
   node_at root q = Some n"
  by (induction k root fl here cur p rule: walk.induct)
     (auto simp: node_at_append split: node.splits option.splits if_splits)

lemma stat_node_at: "statSync f p = Inr (q, n) \<Longrightarrow> node_at f q = Some n"
  unfolding statSync_def by (erule walk_node_at) simp

lemma map_of_update_same: "map_of (AList.update k v ps) k = Some v"
  by (simp add: update_conv')

lemma node_at_put_node:
  "node_at f d = Some (Dir es) \<Longrightarrow> node_at (put_node (d @ [nm]) new f) (d @ [nm]) = Some new"
proof (induction d arbitrary: f)
  case Nil
  then show ?case by (auto simp: map_of_update_same split: option.splits)
next
  case (Cons c cs)
  then show ?case
    by (auto simp: map_of_update_same split: node.splits option.splits)
qed

text \<open>
  C9, as amended. A source file whose base name starts with an underscore, and is neither
  \<open>_\<close> nor \<open>_.\<close>, is copied into the directory of the destination path under its base
  name with the leading underscore replaced by a dot: when that directory exists and the
  new name is free or names a file there, the rendering returns and the file system then
  holds a file with the source's content at that place. The base name \<open>package.json\<close>
  does not start with an underscore, so the manifest case cannot apply.
\<close>

theorem render_hidden_file:
  assumes "statSync fs0 src = Inr (sp, File content)"
    and "startsWith_underscore (basename src)"
    and "basename src \<noteq> ''_''" and "basename src \<noteq> ''_.''"
    and "statSync fs0 (dirname dest) = Inr (d, Dir es)"
    and "map_of es (CHR ''.'' # tl (basename src)) = None
         \<or> (\<exists>c. map_of es (CHR ''.'' # tl (basename src)) = Some (File c))"
  shows "renderTemplate B (Suc n) src dest (fs0, calls)
           = (Done, put_node (d @ [CHR ''.'' # tl (basename src)]) (File content) fs0,
              calls @ [CopyFile src (dirname dest @ [CHR ''.'' # tl (basename src)])])
       \<and> node_at (put_node (d @ [CHR ''.'' # tl (basename src)]) (File content) fs0)
            (d @ [CHR ''.'' # tl (basename src)]) = Some (File content)"
proof -
  let ?nm = "CHR ''.'' # tl (basename src)"
  from assms(2) have ne: "basename src \<noteq> []" and hd: "hd (basename src) = CHR ''_''"
    by (simp_all add: startsWith_underscore_def)
  then have bn: "basename src = CHR ''_'' # tl (basename src)"
    by (cases "basename src") auto
  have notpkg: "basename src \<noteq> ''package.json''"
    using hd by auto
  have tl1: "tl (basename src) \<noteq> []" using bn assms(3) by auto
  have tl2: "tl (basename src) \<noteq> ''.''" using bn assms(4) by auto
  have res: "resolve (dirname dest) (replace_underscore (basename src)) = dirname dest @ [?nm]"
    using assms(2) tl1 tl2 by (simp add: resolve_def replace_underscore_def)
  have rd: "readFileSync fs0 src = Inr content"
    using assms(1) by (simp add: readFileSync_def)
  have wr: "write_file max_symlinks fs0 (dirname dest @ [?nm]) content
              = Inr (put_node (d @ [?nm]) (File content) fs0)"
    using assms(5,6) by (subst write_file.simps) auto
  have cp: "copyFileSync fs0 src (dirname dest @ [?nm])
              = Inr (put_node (d @ [?nm]) (File content) fs0)"
    by (simp add: copyFileSync_def rd wr)
  have "renderTemplate B (Suc n) src dest (fs0, calls)
           = (Done, put_node (d @ [?nm]) (File content) fs0,
              calls @ [CopyFile src (dirname dest @ [?nm])])"
    using assms(1,2) notpkg res cp by (simp add: Let_def)
  moreover have "node_at (put_node (d @ [?nm]) (File content) fs0) (d @ [?nm]) = Some (File content)"
    using node_at_put_node [OF stat_node_at [OF assms(5)]] .
  ultimately show ?thesis by simp
qed

text \<open>Rendering \<open>/t/_gitignore\<close> into the empty directory \<open>/p\<close>.\<close>

theorem render_hidden_file_witness:
  "statSync (Dir [(''t'', Dir [(''_gitignore'', File ''node_modules'')]), (''p'', Dir [])])
      [''t'', ''_gitignore''] = Inr ([''t'', ''_gitignore''], File ''node_modules'')
   \<and> startsWith_underscore (basename [''t'', ''_gitignore''])
   \<and> statSync (Dir [(''t'', Dir [(''_gitignore'', File ''node_modules'')]), (''p'', Dir [])])
      (dirname [''p'', ''_gitignore'']) = Inr ([''p''], Dir [])
   \<and> renderTemplate no_json (Suc 0) [''t'', ''_gitignore''] [''p'', ''_gitignore'']
        (Dir [(''t'', Dir [(''_gitignore'', File ''node_modules'')]), (''p'', Dir [])], [])
       = (Done,
          Dir [(''t'', Dir [(''_gitignore'', File ''node_modules'')]),
               (''p'', Dir [(''.gitignore'', File ''node_modules'')])],
          [CopyFile [''t'', ''_gitignore''] [''p'', ''.gitignore'']])"
proof -
  let ?f = "Dir [(''t'', Dir [(''_gitignore'', File ''node_modules'')]), (''p'', Dir [])]"
  have h1: "statSync ?f [''t'', ''_gitignore''] = Inr ([''t'', ''_gitignore''], File ''node_modules'')"
    by code_simp
  have h2: "startsWith_underscore (basename [''t'', ''_gitignore''])" by code_simp
  have h3: "basename [''t'', ''_gitignore''] \<noteq> ''_''" by code_simp
  have h4: "basename [''t'', ''_gitignore''] \<noteq> ''_.''" by code_simp
  have h5: "statSync ?f (dirname [''p'', ''_gitignore'']) = Inr ([''p''], Dir [])" by code_simp
  have h6: "map_of [] (CHR ''.'' # tl (basename [''t'', ''_gitignore''])) = None
         \<or> (\<exists>c. map_of [] (CHR ''.'' # tl (basename [''t'', ''_gitignore''])) = Some (File c))"
    by simp
  have e1: "put_node ([''p''] @ [CHR ''.'' # tl (basename [''t'', ''_gitignore''])])
               (File ''node_modules'') ?f
            = Dir [(''t'', Dir [(''_gitignore'', File ''node_modules'')]),
                   (''p'', Dir [(''.gitignore'', File ''node_modules'')])]"
    by code_simp
  have e2: "dirname [''p'', ''_gitignore''] @ [CHR ''.'' # tl (basename [''t'', ''_gitignore''])]
            = [''p'', ''.gitignore'']"
    by code_simp
  from render_hidden_file [OF h1 h2 h3 h4 h5 h6, of no_json 0 "[]"]
  have "renderTemplate no_json (Suc 0) [''t'', ''_gitignore''] [''p'', ''_gitignore''] (?f, [])
       = (Done,
          Dir [(''t'', Dir [(''_gitignore'', File ''node_modules'')]),
               (''p'', Dir [(''.gitignore'', File ''node_modules'')])],
          [CopyFile [''t'', ''_gitignore''] [''p'', ''.gitignore'']])"
    unfolding e1 e2 by simp
  with h1 h2 h5 show ?thesis by (intro conjI)
qed

text \<open>
  C9 as stated fails for the base name \<open>_\<close>: the new name is \<open>.\<close>, which
  \<open>path.resolve\<close> resolves to the directory of the destination itself, so the copy is
  attempted onto the directory \<open>/p\<close> and throws; no file is created.
\<close>

theorem render_hidden_file_counterexample:
  "startsWith_underscore (basename [''t'', ''_''])
   \<and> statSync (Dir [(''t'', Dir [(''_'', File ''x'')]), (''p'', Dir [])]) [''t'', ''_'']
       = Inr ([''t'', ''_''], File ''x'')
   \<and> renderTemplate no_json (Suc 0) [''t'', ''_''] [''p'', ''_'']
        (Dir [(''t'', Dir [(''_'', File ''x'')]), (''p'', Dir [])], [])
       = (Threw (FsError EISDIR), Dir [(''t'', Dir [(''_'', File ''x'')]), (''p'', Dir [])],
          [CopyFile [''t'', ''_''] [''p'']])"
  by code_simp

section \<open>Properties of objects and keys\<close>

lemma map_of_insert_index:
  "map_of ps k = None \<Longrightarrow>
   map_of (insert_index i k v ps) k' = (if k' = k then Some v else map_of ps k')"
  by (induction ps) (auto split: option.splits if_splits)

lemma map_of_put_prop: "map_of (put_prop k v ps) k' = (if k' = k then Some v else map_of ps k')"
  by (auto simp: put_prop_def update_conv' map_of_insert_index map_add_def split: option.splits)

lemma lookup_put_prop:
  "lookup_prop (put_prop k v ps) k' = (if k' = k then v else lookup_prop ps k')"
  by (simp add: lookup_prop_def map_of_put_prop)

lemma set_insert_index: "set (insert_index i k v ps) = insert (k, v) (set ps)"
  by (induction ps) (auto split: option.splits)

lemma keys_put_prop: "set (map fst (put_prop k v ps)) = insert k (set (map fst ps))"
proof (cases "map_of ps k")
  case None
  then show ?thesis
    by (auto simp: put_prop_def set_insert_index split: option.splits)
next
  case (Some w)
  then have "k \<in> fst ` set ps" by (meson domI domIff map_of_eq_None_iff)
  then show ?thesis using Some
    by (auto simp: put_prop_def update_keys)
qed

lemma distinct_insert_index:
  "distinct (map fst ps) \<Longrightarrow> k \<notin> fst ` set ps \<Longrightarrow> distinct (map fst (insert_index i k v ps))"
  by (induction ps) (auto simp: set_insert_index split: option.splits)

lemma distinct_put_prop:
  "distinct (map fst ps) \<Longrightarrow> distinct (map fst (put_prop k v ps))"
proof (cases "map_of ps k")
  case None
  assume d: "distinct (map fst ps)"
  from None have "k \<notin> fst ` set ps" by (simp add: map_of_eq_None_iff)
  with d None show ?thesis
    by (auto simp: put_prop_def distinct_insert_index split: option.splits)
next
  case (Some w)
  assume "distinct (map fst ps)"
  with Some show ?thesis by (simp add: put_prop_def distinct_update)
qed

lemma put_prop_same: "map_of ps k = Some v \<Longrightarrow> put_prop k v ps = ps"
  by (simp add: put_prop_def update_triv)

lemma put_prop_keys_existing:
  "map_of ps k \<noteq> None \<Longrightarrow> map fst (put_prop k v ps) = map fst ps"
proof -
  assume a: "map_of ps k \<noteq> None"
  then have "k \<in> fst ` set ps" by (simp add: map_of_eq_None_iff)
  then have "map fst (AList.update k v ps) = map fst ps"
    by (induction ps) auto
  with a show ?thesis by (simp add: put_prop_def)
qed

subsection \<open>An array index has one canonical spelling\<close>

lemma dec_value_snoc: "dec_value (s @ [c]) = 10 * dec_value s + ((of_char c :: nat) - 48)"
  by (simp add: dec_value_def)

lemma digit_value_less: "is_digit c \<Longrightarrow> (of_char c :: nat) - 48 < 10"
  by (auto simp: is_digit_def)

lemma digit_value_inj:
  "is_digit c \<Longrightarrow> is_digit d \<Longrightarrow> (of_char c :: nat) - 48 = of_char d - 48 \<Longrightarrow> c = d"
proof -
  assume a: "is_digit c" "is_digit d" "(of_char c :: nat) - 48 = of_char d - 48"
  then have "(of_char c :: nat) = of_char d" unfolding is_digit_def by linarith
  then show "c = d" by (simp only: of_char_eq_iff)
qed

lemma digit_value_zero: "is_digit c \<Longrightarrow> (of_char c :: nat) - 48 = 0 \<Longrightarrow> c = CHR ''0''"
proof -
  assume a: "is_digit c" "(of_char c :: nat) - 48 = 0"
  then have "(of_char c :: nat) = of_char (CHR ''0'')" unfolding is_digit_def by simp
  then show ?thesis by (simp only: of_char_eq_iff)
qed

lemma dec_value_pos:
  "list_all is_digit s \<Longrightarrow> s \<noteq> [] \<Longrightarrow> hd s \<noteq> CHR ''0'' \<Longrightarrow> 0 < dec_value s"
proof (induction s rule: rev_induct)
  case Nil
  then show ?case by simp
next
  case (snoc c s)
  show ?case
  proof (cases "s = []")
    case True
    with snoc.prems have "is_digit c" "c \<noteq> CHR ''0''" by auto
    then have "(of_char c :: nat) - 48 \<noteq> 0" using digit_value_zero by blast
    with True show ?thesis by (simp add: dec_value_def)
  next
    case False
    with snoc have "0 < dec_value s" by (auto simp: hd_append)
    then show ?thesis by (simp add: dec_value_snoc)
  qed
qed

lemma dec_value_inj:
  "list_all is_digit s \<Longrightarrow> list_all is_digit t \<Longrightarrow> s \<noteq> [] \<Longrightarrow> t \<noteq> [] \<Longrightarrow>
   hd s \<noteq> CHR ''0'' \<Longrightarrow> hd t \<noteq> CHR ''0'' \<Longrightarrow> dec_value s = dec_value t \<Longrightarrow> s = t"
proof (induction s arbitrary: t rule: rev_induct)
  case Nil
  then show ?case by simp
next
  case (snoc c s)
  from snoc.prems(4) obtain d t' where t: "t = t' @ [d]"
    by (metis rev_exhaust)
  from snoc.prems t have dc: "is_digit c" and dd: "is_digit d"
    and ds: "list_all is_digit s" and dt: "list_all is_digit t'" by auto
  from snoc.prems(7) t have eq: "10 * dec_value s + ((of_char c :: nat) - 48)
      = 10 * dec_value t' + ((of_char d :: nat) - 48)"
    by (simp add: dec_value_snoc)
  have lc: "(of_char c :: nat) - 48 < 10" and ld: "(of_char d :: nat) - 48 < 10"
    using dc dd by (auto intro: digit_value_less)
  from eq lc ld have v: "dec_value s = dec_value t'" and l: "(of_char c :: nat) - 48 = of_char d - 48"
    by presburger+
  from l dc dd have cd: "c = d" by (rule digit_value_inj [rotated 2])
  show ?case
  proof (cases "s = []")
    case True
    have "t' = []"
    proof (rule ccontr)
      assume ne: "t' \<noteq> []"
      with snoc.prems(6) t have "hd t' \<noteq> CHR ''0''" by (simp add: hd_append)
      from dec_value_pos [OF dt ne this] v True show False by (simp add: dec_value_def)
    qed
    with True cd t show ?thesis by simp
  next
    case False
    have ne: "t' \<noteq> []"
    proof
      assume e: "t' = []"
      from snoc.prems(5) False have "hd s \<noteq> CHR ''0''" by (simp add: hd_append)
      from dec_value_pos [OF ds False this] v e show False by (simp add: dec_value_def)
    qed
    from snoc.prems(5,6) False ne t have "hd s \<noteq> CHR ''0''" "hd t' \<noteq> CHR ''0''"
      by (simp_all add: hd_append)
    from snoc.IH [OF ds dt False ne this v] cd t show ?thesis by simp
  qed
qed

lemma array_index_inj:
  assumes "array_index k = Some i" and "array_index k' = Some i"
  shows "k = k'"
proof -
  from assms have k: "k \<noteq> []" "list_all is_digit k" "length k = 1 \<or> hd k \<noteq> CHR ''0''" "dec_value k = i"
    and k': "k' \<noteq> []" "list_all is_digit k'" "length k' = 1 \<or> hd k' \<noteq> CHR ''0''" "dec_value k' = i"
    by (auto simp: array_index_def split: if_splits)
  have zero: "s = ''0''" if "s \<noteq> []" "list_all is_digit s" "length s = 1 \<or> hd s \<noteq> CHR ''0''"
    "dec_value s = 0" for s
  proof -
    from that dec_value_pos [of s] have "hd s = CHR ''0''" by auto
    with that have "length s = 1" by auto
    with \<open>hd s = CHR ''0''\<close> show ?thesis by (cases s) auto
  qed
  show ?thesis
  proof (cases "i = 0")
    case True
    with k k' zero show ?thesis by metis
  next
    case False
    have nz: "hd s \<noteq> CHR ''0''" if "s \<noteq> []" "list_all is_digit s" "length s = 1 \<or> hd s \<noteq> CHR ''0''"
      "dec_value s = i" for s
    proof
      assume h: "hd s = CHR ''0''"
      with that have "length s = 1" by auto
      with h have "s = ''0''" by (cases s) auto
      with that False show False by (simp add: dec_value_def)
    qed
    from dec_value_inj [OF k(2) k'(2) k(1) k'(1) nz [OF k] nz [OF k']] k(4) k'(4)
    show ?thesis by simp
  qed
qed

section \<open>What a merge writes\<close>

lemma isObject_iff: "isObject v \<longleftrightarrow> (\<exists>a. v = Ref a)"
  by (cases v) (auto simp: isObject_def)

lemma isArray_Ref: "isArray h v \<Longrightarrow> \<exists>a. v = Ref a \<and> a < length h"
  by (cases v) (auto simp: isArray_def deref_def split: option.splits if_splits)

lemma isArray_agree:
  "isArray h v \<Longrightarrow> deref g (addr_of v) = deref h (addr_of v) \<Longrightarrow> isArray g v"
  by (cases v) (auto simp: isArray_def)

lemma set_prop_kind:
  "set_prop L ob k v = Inr ob' \<Longrightarrow> (\<exists>ps. ob = JObject ps) = (\<exists>ps. ob' = JObject ps)"
  by (cases ob) (auto split: option.splits if_splits)

lemma get_set_prop_other:
  assumes "set_prop L ob k v = Inr ob'" and "k' \<noteq> k" and "isObject (get_prop ob' k')"
  shows "get_prop ob' k' = get_prop ob k'"
proof (cases ob)
  case (JObject ps)
  with assms show ?thesis by (auto simp: lookup_put_prop)
next
  case (JArray es ps)
  show ?thesis
  proof (cases "array_index k")
    case None
    with assms JArray show ?thesis
      by (auto simp: lookup_put_prop isObject_def nth_append split: option.splits if_splits)
  next
    case (Some i)
    with assms(2) have ne: "array_index k' \<noteq> Some i" using array_index_inj by blast
    from assms JArray Some ne show ?thesis
      by (auto simp: isObject_def nth_append nth_list_update split: option.splits if_splits)
  qed
qed

lemma get_set_prop_object:
  "set_prop L (JObject ps) k v = Inr ob' \<Longrightarrow>
   get_prop ob' k' = (if k' = k then v else get_prop (JObject ps) k')"
  by (auto simp: lookup_put_prop)

lemma merge_plan_keys_Cons:
  "merge_plan_keys n h t u (key # keys) = Some (W, R) \<longleftrightarrow>
   (\<exists>W1 R1 W2 R2. key_plan n h t u key = Some (W1, R1)
      \<and> merge_plan_keys n h t u keys = Some (W2, R2) \<and> W = W1 @ W2 \<and> R = R1 @ R2)"
  unfolding key_plan_def by (simp split: option.splits prod.splits) blast

lemma merge_plan_Suc:
  "merge_plan (Suc n) h t u = Some (W, R) \<longleftrightarrow>
   (\<exists>tb ob W' R'. deref h t = Some tb \<and> deref h u = Some ob \<and> distinct (own_keys ob)
      \<and> merge_plan_keys n h t u (own_keys ob) = Some (W', R') \<and> W = t # W' \<and> R = u # R')"
  by (simp split: option.splits prod.splits) blast

lemma key_plan_cases:
  assumes "key_plan n h t u key = Some (W1, R1)"
  obtains (arrays) "isArray h (get_at h t key)" "isArray h (get_at h u key)" "W1 = []"
            "R1 = [addr_of (get_at h t key), addr_of (get_at h u key)]"
  | (objects) "\<not> (isArray h (get_at h t key) \<and> isArray h (get_at h u key))"
            "isObject (get_at h t key)" "isObject (get_at h u key)"
            "merge_plan n h (addr_of (get_at h t key)) (addr_of (get_at h u key)) = Some (W1, R1)"
  | (other) "\<not> (isObject (get_at h t key) \<and> isObject (get_at h u key))" "W1 = []" "R1 = []"
proof (cases "isArray h (get_at h t key) \<and> isArray h (get_at h u key)")
  case True
  with assms have "W1 = []" "R1 = [addr_of (get_at h t key), addr_of (get_at h u key)]"
    by (auto simp: key_plan_def)
  with True arrays show ?thesis by blast
next
  case na: False
  show ?thesis
  proof (cases "isObject (get_at h t key) \<and> isObject (get_at h u key)")
    case True
    with na assms have "merge_plan n h (addr_of (get_at h t key)) (addr_of (get_at h u key)) = Some (W1, R1)"
      by (auto simp: key_plan_def)
    with na True objects show ?thesis by blast
  next
    case False
    with na assms have "W1 = []" "R1 = []" by (auto simp: key_plan_def)
    with False other show ?thesis by blast
  qed
qed

lemma plan_valid_keys:
  assumes IH: "\<And>h t u W R. merge_plan n h t u = Some (W, R) \<Longrightarrow> \<forall>a \<in> set W \<union> set R. a < length h"
  shows "merge_plan_keys n h t u ks = Some (W, R) \<Longrightarrow> \<forall>a \<in> set W \<union> set R. a < length h"
proof (induction ks arbitrary: W R)
  case Nil
  then show ?case by simp
next
  case (Cons key keys)
  from Cons.prems obtain W1 R1 W2 R2 where kp: "key_plan n h t u key = Some (W1, R1)"
    and rest: "merge_plan_keys n h t u keys = Some (W2, R2)" and W: "W = W1 @ W2" "R = R1 @ R2"
    unfolding merge_plan_keys_Cons by blast
  from kp have "\<forall>a \<in> set W1 \<union> set R1. a < length h"
  proof (cases rule: key_plan_cases)
    case arrays
    then show ?thesis using isArray_Ref by fastforce
  next
    case objects
    then show ?thesis using IH by blast
  next
    case other
    then show ?thesis by simp
  qed
  with Cons.IH [OF rest] W show ?case by auto
qed

lemma plan_valid:
  "merge_plan n h t u = Some (W, R) \<Longrightarrow> \<forall>a \<in> set W \<union> set R. a < length h"
proof (induction n arbitrary: h t u W R)
  case 0
  then show ?case by simp
next
  case (Suc n)
  from Suc.prems obtain tb ob W' R' where d: "deref h t = Some tb" "deref h u = Some ob"
    and k: "merge_plan_keys n h t u (own_keys ob) = Some (W', R')" and W: "W = t # W'" "R = u # R'"
    unfolding merge_plan_Suc by blast
  from plan_valid_keys [OF Suc.IH k] d W show ?case
    by (auto simp: deref_def split: if_splits)
qed

lemma isArray_deref_eq:
  "deref g (addr_of v) = deref h (addr_of v) \<Longrightarrow> isArray g v = isArray h v"
  by (cases v) (auto simp: isArray_def)

lemma isArray_isObject: "isArray h v \<Longrightarrow> isObject v"
  by (cases v) (auto simp: isArray_def isObject_def)

lemma get_at_deref_eq: "deref g a = deref h a \<Longrightarrow> get_at g a k = get_at h a k"
  by (simp add: get_at_def)

declare merge_plan.simps(2) [simp del] merge_plan_keys.simps(2) [simp del]

lemma merge_plan_heads:
  "merge_plan n h t u = Some (W, R) \<Longrightarrow> t \<in> set W \<and> u \<in> set R"
  by (cases n) (auto simp: merge_plan_Suc)

lemma plan_agree_keys:
  assumes IH: "\<And>h g t u W R. merge_plan n h t u = Some (W, R) \<Longrightarrow>
      \<forall>a \<in> set W \<union> set R. deref g a = deref h a \<Longrightarrow> merge_plan n g t u = Some (W, R)"
  shows "merge_plan_keys n h t u ks = Some (W, R) \<Longrightarrow> deref g t = deref h t \<Longrightarrow>
         deref g u = deref h u \<Longrightarrow> \<forall>a \<in> set W \<union> set R. deref g a = deref h a \<Longrightarrow>
         merge_plan_keys n g t u ks = Some (W, R)"
proof (induction ks arbitrary: W R)
  case Nil
  then show ?case by simp
next
  case (Cons key keys)
  from Cons.prems(1) obtain W1 R1 W2 R2 where kp: "key_plan n h t u key = Some (W1, R1)"
    and rest: "merge_plan_keys n h t u keys = Some (W2, R2)" and W: "W = W1 @ W2" "R = R1 @ R2"
    unfolding merge_plan_keys_Cons by blast
  have gt: "get_at g t key = get_at h t key" and gu: "get_at g u key = get_at h u key"
    using Cons.prems(2,3) by (simp_all add: get_at_def)
  have ag1: "\<forall>a \<in> set W1 \<union> set R1. deref g a = deref h a"
    and ag2: "\<forall>a \<in> set W2 \<union> set R2. deref g a = deref h a"
    using Cons.prems(4) W by auto
  from kp have "key_plan n g t u key = Some (W1, R1)"
  proof (cases rule: key_plan_cases)
    case arrays
    from arrays(3,4) ag1 have "deref g (addr_of (get_at h t key)) = deref h (addr_of (get_at h t key))"
      "deref g (addr_of (get_at h u key)) = deref h (addr_of (get_at h u key))" by simp_all
    with arrays(1,2) have "isArray g (get_at h t key)" "isArray g (get_at h u key)"
      using isArray_deref_eq by blast+
    with arrays(3,4) show ?thesis unfolding key_plan_def gt gu by simp
  next
    case objects
    from merge_plan_heads [OF objects(4)] ag1
    have "deref g (addr_of (get_at h t key)) = deref h (addr_of (get_at h t key))"
      "deref g (addr_of (get_at h u key)) = deref h (addr_of (get_at h u key))" by blast+
    then have "isArray g (get_at h t key) = isArray h (get_at h t key)"
      "isArray g (get_at h u key) = isArray h (get_at h u key)"
      using isArray_deref_eq by blast+
    with objects(1) have na: "\<not> (isArray g (get_at h t key) \<and> isArray g (get_at h u key))"
      by blast
    have "merge_plan n g (addr_of (get_at h t key)) (addr_of (get_at h u key)) = Some (W1, R1)"
      using IH [OF objects(4) ag1] .
    with na objects(2,3) show ?thesis unfolding key_plan_def gt gu by auto
  next
    case other
    then have "\<not> (isArray g (get_at h t key) \<and> isArray g (get_at h u key))"
      using isArray_isObject by blast
    with other show ?thesis unfolding key_plan_def gt gu by auto
  qed
  moreover have "merge_plan_keys n g t u keys = Some (W2, R2)"
    using Cons.IH [OF rest Cons.prems(2,3) ag2] .
  ultimately show ?case unfolding merge_plan_keys_Cons using W by blast
qed

lemma plan_agree:
  "merge_plan n h t u = Some (W, R) \<Longrightarrow> \<forall>a \<in> set W \<union> set R. deref g a = deref h a \<Longrightarrow>
   merge_plan n g t u = Some (W, R)"
proof (induction n arbitrary: h g t u W R)
  case 0
  then show ?case by simp
next
  case (Suc n)
  from Suc.prems(1) obtain tb ob W' R' where d: "deref h t = Some tb" "deref h u = Some ob"
    "distinct (own_keys ob)"
    and k: "merge_plan_keys n h t u (own_keys ob) = Some (W', R')" and W: "W = t # W'" "R = u # R'"
    unfolding merge_plan_Suc by blast
  from Suc.prems(2) W have e: "deref g t = deref h t" "deref g u = deref h u"
    and r: "\<forall>a \<in> set W' \<union> set R'. deref g a = deref h a" by auto
  have "merge_plan_keys n g t u (own_keys ob) = Some (W', R')"
    by (rule plan_agree_keys [OF Suc.IH k e r])
  with d e W show ?case unfolding merge_plan_Suc by simp
qed

subsection \<open>One iteration of the loop\<close>

lemma bind_outcome_Returned:
  "bind_outcome m f = Returned y \<longleftrightarrow> (\<exists>x. m = Returned x \<and> f x = Returned y)"
  by (cases m) auto

lemma set_at_Returned:
  assumes "set_at L g t k v = Returned g2"
  obtains ob' where "t < length g" "set_prop (L g) (g ! t) k v = Inr ob'" "g2 = g[t := ob']"
  using assms by (auto simp: set_at_def deref_def split: if_splits sum.splits)

lemma get_val_Returned:
  "get_val h (Ref a) k = Returned x \<longleftrightarrow> \<not> reaches_prototype h (Ref a) k \<and> x = get_at h a k"
  by (auto simp: get_val_def)

lemma set_val_Returned:
  "set_val L h (Ref a) k x = Returned h' \<longleftrightarrow>
   \<not> reaches_prototype h (Ref a) k \<and> set_at L h a k x = Returned h'"
  by (auto simp: set_val_def)

lemma mergeKeys_step:
  assumes "mergeKeys L n (key # keys) g (Ref t) (Ref u) = Returned g'"
  obtains (arrays) g2 where "isArray g (get_at g t key)" "isArray g (get_at g u key)"
      "set_at L (g @ [array_of (mergeArrayWithDedupe g (get_at g t key) (get_at g u key))]) t key
         (Ref (length g)) = Returned g2"
      "mergeKeys L n keys g2 (Ref t) (Ref u) = Returned g'"
  | (objects) g1 g2 where "\<not> (isArray g (get_at g t key) \<and> isArray g (get_at g u key))"
      "isObject (get_at g t key)" "isObject (get_at g u key)"
      "deepMerge L n g (get_at g t key) (get_at g u key) = Returned g1"
      "set_at L g1 t key (get_at g t key) = Returned g2"
      "mergeKeys L n keys g2 (Ref t) (Ref u) = Returned g'"
  | (other) g2 where "\<not> (isObject (get_at g t key) \<and> isObject (get_at g u key))"
      "set_at L g t key (get_at g u key) = Returned g2"
      "mergeKeys L n keys g2 (Ref t) (Ref u) = Returned g'"
proof (cases "isArray g (get_at g t key) \<and> isArray g (get_at g u key)")
  case True
  with assms obtain g2 where
    "set_at L (g @ [array_of (mergeArrayWithDedupe g (get_at g t key) (get_at g u key))]) t key
         (Ref (length g)) = Returned g2"
      "mergeKeys L n keys g2 (Ref t) (Ref u) = Returned g'"
    by (simp add: bind_outcome_Returned alloc_def get_val_Returned set_val_Returned) blast
  with True arrays show ?thesis by blast
next
  case na: False
  show ?thesis
  proof (cases "isObject (get_at g t key) \<and> isObject (get_at g u key)")
    case True
    with na assms obtain g1 g2 where "deepMerge L n g (get_at g t key) (get_at g u key) = Returned g1"
      "set_at L g1 t key (get_at g t key) = Returned g2"
      "mergeKeys L n keys g2 (Ref t) (Ref u) = Returned g'"
      by (auto simp: bind_outcome_Returned get_val_Returned set_val_Returned)
    with na True objects show ?thesis by blast
  next
    case False
    with na assms obtain g2 where "set_at L g t key (get_at g u key) = Returned g2"
      "mergeKeys L n keys g2 (Ref t) (Ref u) = Returned g'"
      by (auto simp: bind_outcome_Returned get_val_Returned set_val_Returned)
    with False other show ?thesis by blast
  qed
qed

subsection \<open>A merge writes only the objects of its plan\<close>

lemma mergeKeys_frame:
  assumes IH: "\<And>h t u W R h'. merge_plan n h t u = Some (W, R) \<Longrightarrow> distinct W \<Longrightarrow>
      set W \<inter> set R = {} \<Longrightarrow> deepMerge L n h (Ref t) (Ref u) = Returned h' \<Longrightarrow>
      length h \<le> length h' \<and> (\<forall>a < length h. a \<notin> set W \<longrightarrow> h' ! a = h ! a)"
  shows "merge_plan_keys n h t u ks = Some (W, R) \<Longrightarrow> distinct W \<Longrightarrow> set W \<inter> set R = {} \<Longrightarrow>
     t \<notin> set W \<Longrightarrow> t \<notin> set R \<Longrightarrow> u \<notin> set W \<Longrightarrow> t \<noteq> u \<Longrightarrow> distinct ks \<Longrightarrow>
     t < length h \<Longrightarrow> u < length h \<Longrightarrow> length h \<le> length g \<Longrightarrow>
     \<forall>a \<in> set W \<union> set R \<union> {u}. g ! a = h ! a \<Longrightarrow>
     \<forall>k \<in> set ks. isObject (get_at g t k) \<longrightarrow> get_at g t k = get_at h t k \<Longrightarrow>
     mergeKeys L n ks g (Ref t) (Ref u) = Returned g' \<Longrightarrow>
     length g \<le> length g' \<and> (\<forall>a < length g. a \<notin> set W \<union> {t} \<longrightarrow> g' ! a = g ! a)"
proof (induction ks arbitrary: W R g)
  case Nil
  then show ?case by simp
next
  case (Cons key keys)
  from Cons.prems(1) obtain W1 R1 W2 R2 where kp: "key_plan n h t u key = Some (W1, R1)"
    and rest: "merge_plan_keys n h t u keys = Some (W2, R2)" and W: "W = W1 @ W2" "R = R1 @ R2"
    unfolding merge_plan_keys_Cons by blast
  note p = Cons.prems
  from p W have dW2: "distinct W2" and dW1: "distinct W1" and W12: "set W1 \<inter> set W2 = {}"
    and WR2: "set W2 \<inter> set R2 = {}" and WR1: "set W1 \<inter> set R1 = {}"
    and W1R2: "set W1 \<inter> set R2 = {}"
    and t2: "t \<notin> set W2" "t \<notin> set R2" "u \<notin> set W2" and t1: "t \<notin> set W1" "u \<notin> set W1"
    and dk: "distinct keys" "key \<notin> set keys"
    by auto
  have val: "\<forall>a \<in> set W \<union> set R. a < length h"
    by (rule plan_valid_keys [OF _ p(1)]) (rule plan_valid)
  have gu: "get_at g u key = get_at h u key"
    using p(10,11,12) by (simp add: get_at_def deref_def)
  \<comment> \<open>what the rest of the loop needs, from any heap \<open>g2\<close> that this iteration produces\<close>
  have continue: "length g \<le> length g' \<and> (\<forall>a < length g. a \<notin> set W \<union> {t} \<longrightarrow> g' ! a = g ! a)"
    if len: "length g \<le> length g2"
      and fr: "\<forall>a < length g. a \<notin> set W1 \<union> {t} \<longrightarrow> g2 ! a = g ! a"
      and tob: "\<forall>k \<in> set keys. isObject (get_at g2 t k) \<longrightarrow> get_at g2 t k = get_at g t k"
      and run: "mergeKeys L n keys g2 (Ref t) (Ref u) = Returned g'"
    for g2
  proof -
    have ag: "\<forall>a \<in> set W2 \<union> set R2 \<union> {u}. g2 ! a = h ! a"
    proof
      fix a assume a: "a \<in> set W2 \<union> set R2 \<union> {u}"
      with val W p(10) have "a < length h" by auto
      moreover from a W12 W1R2 t1 t2 p(7) have "a \<notin> set W1 \<union> {t}" by auto
      moreover from a W have "a \<in> set W \<union> set R \<union> {u}" by auto
      ultimately show "g2 ! a = h ! a" using fr p(11,12) by auto
    qed
    have tk: "\<forall>k \<in> set keys. isObject (get_at g2 t k) \<longrightarrow> get_at g2 t k = get_at h t k"
      using tob p(13) by auto
    from Cons.IH [OF rest dW2 WR2 t2(1,2,3) p(7) dk(1) p(9,10) _ ag tk run] len p(11)
    have "length g2 \<le> length g' \<and> (\<forall>a < length g2. a \<notin> set W2 \<union> {t} \<longrightarrow> g' ! a = g2 ! a)"
      by simp
    with len fr W show ?thesis by auto
  qed
  \<comment> \<open>assigning to a property of the target keeps the objects under the other keys\<close>
  have after_set: "\<forall>k \<in> set keys. isObject (get_at g2 t k) \<longrightarrow> get_at g2 t k = get_at g1 t k"
    if "set_at L g1 t key v = Returned g2" for g1 g2 v
  proof -
    from that obtain ob' where s: "t < length g1" "set_prop (L g1) (g1 ! t) key v = Inr ob'"
      "g2 = g1[t := ob']" by (rule set_at_Returned)
    show ?thesis
    proof (intro ballI impI)
      fix k assume k: "k \<in> set keys" "isObject (get_at g2 t k)"
      with dk have ne: "k \<noteq> key" by auto
      from k s have "isObject (get_prop ob' k)" by (simp add: get_at_def deref_def)
      from get_set_prop_other [OF s(2) ne this] s
      show "get_at g2 t k = get_at g1 t k" by (simp add: get_at_def deref_def)
    qed
  qed
  from p(14) show ?case
  proof (cases rule: mergeKeys_step)
    case (arrays g2)
    let ?g1 = "g @ [array_of (mergeArrayWithDedupe g (get_at g t key) (get_at g u key))]"
    from arrays(3) obtain ob' where s: "t < length ?g1" "g2 = ?g1[t := ob']"
      by (rule set_at_Returned)
    have len: "length g \<le> length g2" using s by simp
    have fr: "\<forall>a < length g. a \<notin> set W1 \<union> {t} \<longrightarrow> g2 ! a = g ! a"
      using s by (auto simp: nth_append)
    have "get_at ?g1 t k = get_at g t k" for k
      using p(9,11) by (simp add: get_at_def deref_def nth_append)
    with after_set [OF arrays(3)]
    have tob: "\<forall>k \<in> set keys. isObject (get_at g2 t k) \<longrightarrow> get_at g2 t k = get_at g t k"
      by simp
    from continue [OF len fr tob arrays(4)] have "length g \<le> length g' \<and> (\<forall>a < length g. a \<notin> set W \<union> {t} \<longrightarrow> g' ! a = g ! a)" .
    then show ?thesis .
  next
    case (objects g1 g2)
    \<comment> \<open>the plan made the same choice, on the same two objects\<close>
    from objects(2) p(13) have ot: "get_at g t key = get_at h t key" by simp
    from objects(2,3) obtain t' u' where tu: "get_at h t key = Ref t'" "get_at h u key = Ref u'"
      using ot gu by (auto simp: isObject_iff)
    from kp have plan: "merge_plan n h t' u' = Some (W1, R1)"
    proof (cases rule: key_plan_cases)
      case arrays
      with tu have "t' \<in> set R" "u' \<in> set R" using W by auto
      with p(12) val have "g ! t' = h ! t'" "g ! u' = h ! u'" "t' < length h" "u' < length h"
        by auto
      with p(11) have "deref g t' = deref h t'" "deref g u' = deref h u'"
        by (simp_all add: deref_def)
      with arrays(1,2) tu have "isArray g (Ref t')" "isArray g (Ref u')"
        by (simp_all add: isArray_def)
      with objects(1) ot gu tu show ?thesis by simp
    next
      case objects
      with tu show ?thesis by simp
    next
      case other
      with tu show ?thesis by (simp add: isObject_iff)
    qed
    have agp: "\<forall>a \<in> set W1 \<union> set R1. deref g a = deref h a"
    proof
      fix a assume a: "a \<in> set W1 \<union> set R1"
      with val W have "a < length h" by auto
      moreover from a W p(12) have "g ! a = h ! a" by auto
      ultimately show "deref g a = deref h a" using p(11) by (simp add: deref_def)
    qed
    have plang: "merge_plan n g t' u' = Some (W1, R1)"
      by (rule plan_agree [OF plan agp])
    from objects(4) ot gu tu have run1: "deepMerge L n g (Ref t') (Ref u') = Returned g1" by simp
    from IH [OF plang dW1 WR1 run1]
    have f1: "length g \<le> length g1" "\<forall>a < length g. a \<notin> set W1 \<longrightarrow> g1 ! a = g ! a" by auto
    from objects(5) obtain ob' where s: "t < length g1" "g2 = g1[t := ob']"
      by (rule set_at_Returned)
    have len: "length g \<le> length g2" using s f1 by simp
    have fr: "\<forall>a < length g. a \<notin> set W1 \<union> {t} \<longrightarrow> g2 ! a = g ! a"
      using s f1 by auto
    have "get_at g1 t k = get_at g t k" for k
      using p(9,11) f1 t1 by (simp add: get_at_def deref_def)
    with after_set [OF objects(5)]
    have tob: "\<forall>k \<in> set keys. isObject (get_at g2 t k) \<longrightarrow> get_at g2 t k = get_at g t k"
      by simp
    from continue [OF len fr tob objects(6)] show ?thesis .
  next
    case (other g2)
    from other(2) obtain ob' where s: "t < length g" "g2 = g[t := ob']"
      by (rule set_at_Returned)
    have len: "length g \<le> length g2" using s by simp
    have fr: "\<forall>a < length g. a \<notin> set W1 \<union> {t} \<longrightarrow> g2 ! a = g ! a"
      using s by auto
    from continue [OF len fr after_set [OF other(2)] other(3)] show ?thesis .
  qed
qed

lemma deepMerge_Suc_Ref:
  "deepMerge L (Suc n) h (Ref t) (Ref u) = Returned h' \<longleftrightarrow>
   (\<exists>ob. deref h u = Some ob \<and> mergeKeys L n (own_keys ob) h (Ref t) (Ref u) = Returned h')"
  by (auto simp: bind_outcome_Returned split: option.splits)

lemma deepMerge_frame:
  "merge_plan n h t u = Some (W, R) \<Longrightarrow> distinct W \<Longrightarrow> set W \<inter> set R = {} \<Longrightarrow>
   deepMerge L n h (Ref t) (Ref u) = Returned h' \<Longrightarrow>
   length h \<le> length h' \<and> (\<forall>a < length h. a \<notin> set W \<longrightarrow> h' ! a = h ! a)"
proof (induction n arbitrary: h t u W R h')
  case 0
  then show ?case by simp
next
  case (Suc n)
  from Suc.prems(1) obtain tb ob W' R' where d: "deref h t = Some tb" "deref h u = Some ob"
    "distinct (own_keys ob)"
    and k: "merge_plan_keys n h t u (own_keys ob) = Some (W', R')" and W: "W = t # W'" "R = u # R'"
    unfolding merge_plan_Suc by blast
  from Suc.prems(4) d have run: "mergeKeys L n (own_keys ob) h (Ref t) (Ref u) = Returned h'"
    unfolding deepMerge_Suc_Ref by simp
  from Suc.prems(2,3) W have c: "distinct W'" "set W' \<inter> set R' = {}" "t \<notin> set W'" "t \<notin> set R'"
    "u \<notin> set W'" "t \<noteq> u" by auto
  from d have v: "t < length h" "u < length h" by (auto simp: deref_def split: if_splits)
  have "length h \<le> length h' \<and> (\<forall>a < length h. a \<notin> set W' \<union> {t} \<longrightarrow> h' ! a = h ! a)"
    by (rule mergeKeys_frame [OF Suc.IH k c d(3) v _ _ _ run]) simp_all
  with W show ?case by auto
qed

subsection \<open>The result of a merge, key by key\<close>

lemma mergeKeys_frame':
  "merge_plan_keys n h t u ks = Some (W, R) \<Longrightarrow> distinct W \<Longrightarrow> set W \<inter> set R = {} \<Longrightarrow>
     t \<notin> set W \<Longrightarrow> t \<notin> set R \<Longrightarrow> u \<notin> set W \<Longrightarrow> t \<noteq> u \<Longrightarrow> distinct ks \<Longrightarrow>
     t < length h \<Longrightarrow> u < length h \<Longrightarrow> length h \<le> length g \<Longrightarrow>
     \<forall>a \<in> set W \<union> set R \<union> {u}. g ! a = h ! a \<Longrightarrow>
     \<forall>k \<in> set ks. isObject (get_at g t k) \<longrightarrow> get_at g t k = get_at h t k \<Longrightarrow>
     mergeKeys L n ks g (Ref t) (Ref u) = Returned g' \<Longrightarrow>
     length g \<le> length g' \<and> (\<forall>a < length g. a \<notin> set W \<union> {t} \<longrightarrow> g' ! a = g ! a)"
  by (rule mergeKeys_frame [OF deepMerge_frame])

lemma spread_agree:
  "deref g (addr_of v) = deref h (addr_of v) \<Longrightarrow> spread g v = spread h v"
  by (cases v) (auto simp: spread_def)

lemma set_at_object:
  assumes "set_at L g t k v = Returned g2" and "g ! t = JObject ps"
  shows "t < length g \<and> g2 = g[t := JObject (put_prop k v ps)]"
  using assms by (auto simp: set_at_def deref_def split: if_splits)

lemma mergeKeys_result:
  "merge_plan_keys n h t u ks = Some (W, R) \<Longrightarrow> distinct W \<Longrightarrow> set W \<inter> set R = {} \<Longrightarrow>
     t \<notin> set W \<Longrightarrow> t \<notin> set R \<Longrightarrow> u \<notin> set W \<Longrightarrow> t \<noteq> u \<Longrightarrow> distinct ks \<Longrightarrow>
     t < length h \<Longrightarrow> u < length h \<Longrightarrow> length h \<le> length g \<Longrightarrow>
     \<forall>a \<in> set W \<union> set R \<union> {u}. g ! a = h ! a \<Longrightarrow>
     \<forall>k \<in> set ks. get_at g t k = get_at h t k \<Longrightarrow>
     g ! t = JObject ps \<Longrightarrow>
     mergeKeys L n ks g (Ref t) (Ref u) = Returned g' \<Longrightarrow>
     (\<exists>ps'. g' ! t = JObject ps' \<and> set (map fst ps) \<subseteq> set (map fst ps'))
     \<and> (\<forall>k. k \<notin> set ks \<longrightarrow> get_at g' t k = get_at g t k)
     \<and> (\<forall>k \<in> set ks.
          (isArray h (get_at h t k) \<and> isArray h (get_at h u k) \<longrightarrow>
             (\<exists>a. get_at g' t k = Ref a \<and> length h \<le> a
                 \<and> deref g' a = Some (array_of (mergeArrayWithDedupe h (get_at h t k) (get_at h u k)))))
        \<and> (\<not> (isArray h (get_at h t k) \<and> isArray h (get_at h u k))
             \<and> isObject (get_at h t k) \<and> isObject (get_at h u k) \<longrightarrow>
             get_at g' t k = get_at h t k)
        \<and> (\<not> (isObject (get_at h t k) \<and> isObject (get_at h u k)) \<longrightarrow>
             get_at g' t k = get_at h u k))"
proof (induction ks arbitrary: W R g ps)
  case Nil
  then show ?case by simp
next
  case (Cons key keys)
  from Cons.prems(1) obtain W1 R1 W2 R2 where kp: "key_plan n h t u key = Some (W1, R1)"
    and rest: "merge_plan_keys n h t u keys = Some (W2, R2)" and W: "W = W1 @ W2" "R = R1 @ R2"
    unfolding merge_plan_keys_Cons by blast
  note p = Cons.prems
  from p W have dW2: "distinct W2" and dW1: "distinct W1" and W12: "set W1 \<inter> set W2 = {}"
    and WR2: "set W2 \<inter> set R2 = {}" and WR1: "set W1 \<inter> set R1 = {}"
    and W1R2: "set W1 \<inter> set R2 = {}"
    and t2: "t \<notin> set W2" "t \<notin> set R2" "u \<notin> set W2" and t1: "t \<notin> set W1" "u \<notin> set W1"
    and dk: "distinct keys" "key \<notin> set keys"
    by auto
  have val: "\<forall>a \<in> set W \<union> set R. a < length h"
    by (rule plan_valid_keys [OF _ p(1)]) (rule plan_valid)
  have gu: "get_at g u key = get_at h u key"
    using p(10,11,12) by (simp add: get_at_def deref_def)
  have gt: "get_at g t key = get_at h t key" using p(13) by simp
  let ?ov = "get_at h t key" and ?nv = "get_at h u key"
  \<comment> \<open>the rest of the loop, from the heap \<open>g2\<close> that this iteration produces\<close>
  have continue: ?case
    if len: "length g \<le> length g2"
      and fr: "\<forall>a < length g. a \<notin> set W1 \<union> {t} \<longrightarrow> g2 ! a = g ! a"
      and tob: "g2 ! t = JObject (put_prop key v ps)"
      and run: "mergeKeys L n keys g2 (Ref t) (Ref u) = Returned g'"
      and res: "\<And>g'. length g2 \<le> length g' \<Longrightarrow> (\<forall>a < length g2. a \<notin> set W2 \<union> {t} \<longrightarrow> g' ! a = g2 ! a)
          \<Longrightarrow> get_at g' t key = v \<Longrightarrow>
          (isArray h ?ov \<and> isArray h ?nv \<longrightarrow>
             (\<exists>a. get_at g' t key = Ref a \<and> length h \<le> a
                 \<and> deref g' a = Some (array_of (mergeArrayWithDedupe h ?ov ?nv))))
        \<and> (\<not> (isArray h ?ov \<and> isArray h ?nv) \<and> isObject ?ov \<and> isObject ?nv \<longrightarrow>
             get_at g' t key = ?ov)
        \<and> (\<not> (isObject ?ov \<and> isObject ?nv) \<longrightarrow> get_at g' t key = ?nv)"
    for g2 v
  proof -
    have ag: "\<forall>a \<in> set W2 \<union> set R2 \<union> {u}. g2 ! a = h ! a"
    proof
      fix a assume a: "a \<in> set W2 \<union> set R2 \<union> {u}"
      with val W p(10) have "a < length h" by auto
      moreover from a W12 W1R2 t1 t2 p(7) have "a \<notin> set W1 \<union> {t}" by auto
      moreover from a W have "a \<in> set W \<union> set R \<union> {u}" by auto
      ultimately show "g2 ! a = h ! a" using fr p(11,12) by auto
    qed
    have tl: "t < length g2" using p(9,11) len by simp
    have get2: "get_at g2 t k = (if k = key then v else get_at g t k)" for k
      using tob tl p(9,11,14) by (simp add: get_at_def deref_def lookup_put_prop)
    have tk: "\<forall>k \<in> set keys. get_at g2 t k = get_at h t k"
      using get2 dk p(13) by auto
    have l2: "length h \<le> length g2" using len p(11) by simp
    from Cons.IH [OF rest dW2 WR2 t2(1,2,3) p(7) dk(1) p(9,10) l2 ag tk tob run]
    have ih: "\<exists>ps'. g' ! t = JObject ps' \<and> set (map fst (put_prop key v ps)) \<subseteq> set (map fst ps')"
      "\<forall>k. k \<notin> set keys \<longrightarrow> get_at g' t k = get_at g2 t k"
      "\<forall>k \<in> set keys.
          (isArray h (get_at h t k) \<and> isArray h (get_at h u k) \<longrightarrow>
             (\<exists>a. get_at g' t k = Ref a \<and> length h \<le> a
                 \<and> deref g' a = Some (array_of (mergeArrayWithDedupe h (get_at h t k) (get_at h u k)))))
        \<and> (\<not> (isArray h (get_at h t k) \<and> isArray h (get_at h u k))
             \<and> isObject (get_at h t k) \<and> isObject (get_at h u k) \<longrightarrow>
             get_at g' t k = get_at h t k)
        \<and> (\<not> (isObject (get_at h t k) \<and> isObject (get_at h u k)) \<longrightarrow>
             get_at g' t k = get_at h u k)"
      by blast+
    have tkI: "\<forall>k \<in> set keys. isObject (get_at g2 t k) \<longrightarrow> get_at g2 t k = get_at h t k"
      using tk by simp
    from mergeKeys_frame' [OF rest dW2 WR2 t2(1,2,3) p(7) dk(1) p(9,10) l2 ag tkI run]
    have fr2: "length g2 \<le> length g'" "\<forall>a < length g2. a \<notin> set W2 \<union> {t} \<longrightarrow> g' ! a = g2 ! a"
      by blast+
    have gk: "get_at g' t key = v" using ih(2) dk get2 by simp
    note r = res [OF fr2 gk]
    have c1: "\<exists>ps'. g' ! t = JObject ps' \<and> set (map fst ps) \<subseteq> set (map fst ps')"
      using ih(1) keys_put_prop [of key v ps] by auto
    have c2: "\<forall>k. k \<notin> set (key # keys) \<longrightarrow> get_at g' t k = get_at g t k"
      using ih(2) get2 by auto
    show ?thesis
      apply (intro conjI)
        apply (rule c1)
       apply (rule c2)
      using r ih(3) by simp
  qed
  have agree: "deref g a = deref h a" if "a \<in> set W \<union> set R" for a
  proof -
    from that val have "a < length h" by auto
    moreover from that p(12) have "g ! a = h ! a" by auto
    ultimately show ?thesis using p(11) by (simp add: deref_def)
  qed
  from kp show ?case
  proof (cases rule: key_plan_cases)
    case arrays
    then have inR: "addr_of ?ov \<in> set R" "addr_of ?nv \<in> set R" using W by auto
    have da: "deref g (addr_of ?ov) = deref h (addr_of ?ov)" "deref g (addr_of ?nv) = deref h (addr_of ?nv)"
      using inR agree by auto
    have ia: "isArray g ?ov" "isArray g ?nv"
      using arrays(1,2) da isArray_deref_eq by blast+
    have m: "mergeArrayWithDedupe g ?ov ?nv = mergeArrayWithDedupe h ?ov ?nv"
      unfolding mergeArrayWithDedupe_def using spread_agree [OF da(1)] spread_agree [OF da(2)] by simp
    from p(15) show ?thesis
    proof (cases rule: mergeKeys_step)
      case (arrays g2)
      let ?arr = "array_of (mergeArrayWithDedupe h ?ov ?nv)"
      let ?g1 = "g @ [?arr]"
      have g1t: "?g1 ! t = JObject ps" using p(9,11,14) by (simp add: nth_append)
      from arrays(3) have s: "g2 = ?g1[t := JObject (put_prop key (Ref (length g)) ps)]"
        using set_at_object [OF _ g1t] gt gu m by simp
      have len: "length g \<le> length g2" using s by simp
      have fr: "\<forall>a < length g. a \<notin> set W1 \<union> {t} \<longrightarrow> g2 ! a = g ! a"
        using s by (auto simp: nth_append)
      have tob: "g2 ! t = JObject (put_prop key (Ref (length g)) ps)"
        using s p(9,11) by simp
      have new: "g2 ! length g = ?arr" "length g < length g2" "length g \<noteq> t"
        using s p(9,11) by (auto simp: nth_append)
      show ?thesis
      proof (rule continue [OF len fr tob arrays(4)])
        fix g' assume a: "length g2 \<le> length g'"
          "\<forall>a < length g2. a \<notin> set W2 \<union> {t} \<longrightarrow> g' ! a = g2 ! a" "get_at g' t key = Ref (length g)"
        have "length g \<notin> set W2"
        proof
          assume "length g \<in> set W2"
          with val W have "length g < length h" by auto
          with p(11) show False by simp
        qed
        with a new have "g' ! length g = ?arr" "length g < length g'" by auto
        then have "deref g' (length g) = Some ?arr" by (simp add: deref_def)
        with a(3) p(11) \<open>isArray h ?ov\<close> \<open>isArray h ?nv\<close> isArray_isObject
        show "(isArray h ?ov \<and> isArray h ?nv \<longrightarrow>
             (\<exists>a. get_at g' t key = Ref a \<and> length h \<le> a
                 \<and> deref g' a = Some (array_of (mergeArrayWithDedupe h ?ov ?nv))))
          \<and> (\<not> (isArray h ?ov \<and> isArray h ?nv) \<and> isObject ?ov \<and> isObject ?nv \<longrightarrow>
             get_at g' t key = ?ov)
          \<and> (\<not> (isObject ?ov \<and> isObject ?nv) \<longrightarrow> get_at g' t key = ?nv)"
          by auto
      qed
    next
      case (objects g1 g2)
      with ia gt gu show ?thesis by simp
    next
      case (other g2)
      with ia gt gu isArray_isObject show ?thesis by auto
    qed
  next
    case objects
    from objects(2,3) obtain t' u' where tu: "?ov = Ref t'" "?nv = Ref u'"
      by (auto simp: isObject_iff)
    from objects(4) tu have plan: "merge_plan n h t' u' = Some (W1, R1)" by simp
    from merge_plan_heads [OF plan] have hd: "t' \<in> set W" "u' \<in> set R" using W by auto
    have da: "deref g t' = deref h t'" "deref g u' = deref h u'" using hd agree by auto
    have na: "\<not> (isArray g ?ov \<and> isArray g ?nv)"
      using objects(1) da tu by (simp add: isArray_def)
    have plang: "merge_plan n g t' u' = Some (W1, R1)"
      apply (rule plan_agree [OF plan]) using agree W by auto
    from p(15) show ?thesis
    proof (cases rule: mergeKeys_step)
      case (arrays g2)
      with na gt gu show ?thesis by simp
    next
      case (objects g1 g2)
      from objects(4) gt gu tu have run1: "deepMerge L n g (Ref t') (Ref u') = Returned g1" by simp
      from deepMerge_frame [OF plang dW1 WR1 run1]
      have f1: "length g \<le> length g1" "\<forall>a < length g. a \<notin> set W1 \<longrightarrow> g1 ! a = g ! a" by auto
      have g1t: "g1 ! t = JObject ps" using f1 t1 p(9,11,14) by simp
      from objects(5) have s: "g2 = g1[t := JObject (put_prop key ?ov ps)]"
        using set_at_object [OF _ g1t] gt by simp
      have len: "length g \<le> length g2" using s f1 by simp
      have fr: "\<forall>a < length g. a \<notin> set W1 \<union> {t} \<longrightarrow> g2 ! a = g ! a"
        using s f1 by auto
      have tob: "g2 ! t = JObject (put_prop key ?ov ps)"
        using s f1 p(9,11) by simp
      show ?thesis
        apply (rule continue [OF len fr tob objects(6)])
        using \<open>\<not> (isArray h ?ov \<and> isArray h ?nv)\<close> \<open>isObject ?ov\<close> \<open>isObject ?nv\<close> by auto
    next
      case (other g2)
      with gt gu \<open>isObject ?ov\<close> \<open>isObject ?nv\<close> show ?thesis by simp
    qed
  next
    case other
    from p(15) show ?thesis
    proof (cases rule: mergeKeys_step)
      case (arrays g2)
      with other gt gu isArray_isObject show ?thesis by auto
    next
      case (objects g1 g2)
      with other gt gu show ?thesis by simp
    next
      case (other g2)
      from other(2) have s: "g2 = g[t := JObject (put_prop key ?nv ps)]"
        using set_at_object [OF _ p(14)] gu by simp
      have len: "length g \<le> length g2" using s by simp
      have fr: "\<forall>a < length g. a \<notin> set W1 \<union> {t} \<longrightarrow> g2 ! a = g ! a"
        using s by auto
      have tob: "g2 ! t = JObject (put_prop key ?nv ps)"
        using s p(9,11) by simp
      show ?thesis
        apply (rule continue [OF len fr tob other(3)])
        using \<open>\<not> (isObject ?ov \<and> isObject ?nv)\<close> isArray_isObject by auto
    qed
  qed
qed

subsection \<open>A merge that writes only mappings returns\<close>

lemma set_at_object_Returned:
  "t < length g \<Longrightarrow> g ! t = JObject ps \<Longrightarrow>
   set_at L g t k v = Returned (g[t := JObject (put_prop k v ps)])"
  by (simp add: set_at_def deref_def)

lemma get_val_plain: "k \<noteq> ''__proto__'' \<Longrightarrow> get_val h (Ref a) k = Returned (get_at h a k)"
  by (simp add: get_val_def reaches_prototype_def)

lemma set_val_plain: "k \<noteq> ''__proto__'' \<Longrightarrow> set_val L h (Ref a) k x = set_at L h a k x"
  by (simp add: set_val_def reaches_prototype_def)

lemma mergeKeys_arrays:
  "key \<noteq> ''__proto__'' \<Longrightarrow> isArray g (get_at g t key) \<Longrightarrow> isArray g (get_at g u key) \<Longrightarrow>
   mergeKeys L n (key # keys) g (Ref t) (Ref u) =
     bind_outcome (set_at L (g @ [array_of (mergeArrayWithDedupe g (get_at g t key) (get_at g u key))])
                     t key (Ref (length g)))
       (\<lambda>g2. mergeKeys L n keys g2 (Ref t) (Ref u))"
  by (simp add: alloc_def get_val_plain set_val_plain)

lemma mergeKeys_objects:
  "key \<noteq> ''__proto__'' \<Longrightarrow> \<not> (isArray g (get_at g t key) \<and> isArray g (get_at g u key)) \<Longrightarrow>
   isObject (get_at g t key) \<Longrightarrow> isObject (get_at g u key) \<Longrightarrow>
   mergeKeys L n (key # keys) g (Ref t) (Ref u) =
     bind_outcome (deepMerge L n g (get_at g t key) (get_at g u key))
       (\<lambda>g1. bind_outcome (set_at L g1 t key (get_at g t key))
         (\<lambda>g2. mergeKeys L n keys g2 (Ref t) (Ref u)))"
  by (auto simp: get_val_plain set_val_plain)

lemma mergeKeys_other:
  "key \<noteq> ''__proto__'' \<Longrightarrow> \<not> (isObject (get_at g t key) \<and> isObject (get_at g u key)) \<Longrightarrow>
   mergeKeys L n (key # keys) g (Ref t) (Ref u) =
     bind_outcome (set_at L g t key (get_at g u key))
       (\<lambda>g2. mergeKeys L n keys g2 (Ref t) (Ref u))"
  using isArray_isObject by (auto simp: get_val_plain set_val_plain)

declare mergeKeys.simps(2) [simp del]

lemma mergeKeys_returns:
  assumes IH: "\<And>h t u W R. merge_plan n h t u = Some (W, R) \<Longrightarrow> distinct W \<Longrightarrow>
      set W \<inter> set R = {} \<Longrightarrow> \<forall>a \<in> set W. \<exists>ps. h ! a = JObject ps \<Longrightarrow>
      \<forall>a \<in> set R. ''__proto__'' \<notin> set (own_keys (h ! a)) \<Longrightarrow>
      \<exists>h'. deepMerge L n h (Ref t) (Ref u) = Returned h'"
  shows "merge_plan_keys n h t u ks = Some (W, R) \<Longrightarrow> distinct W \<Longrightarrow> set W \<inter> set R = {} \<Longrightarrow>
     t \<notin> set W \<Longrightarrow> t \<notin> set R \<Longrightarrow> u \<notin> set W \<Longrightarrow> t \<noteq> u \<Longrightarrow> distinct ks \<Longrightarrow>
     t < length h \<Longrightarrow> u < length h \<Longrightarrow> length h \<le> length g \<Longrightarrow>
     \<forall>a \<in> set W \<union> set R \<union> {u}. g ! a = h ! a \<Longrightarrow>
     \<forall>k \<in> set ks. get_at g t k = get_at h t k \<Longrightarrow>
     g ! t = JObject ps \<Longrightarrow>
     \<forall>a \<in> set W. \<exists>ps. h ! a = JObject ps \<Longrightarrow>
     ''__proto__'' \<notin> set ks \<Longrightarrow>
     \<forall>a \<in> set R. ''__proto__'' \<notin> set (own_keys (h ! a)) \<Longrightarrow>
     \<exists>g'. mergeKeys L n ks g (Ref t) (Ref u) = Returned g'"
proof (induction ks arbitrary: W R g ps)
  case Nil
  then show ?case by simp
next
  case (Cons key keys)
  from Cons.prems(1) obtain W1 R1 W2 R2 where kp: "key_plan n h t u key = Some (W1, R1)"
    and rest: "merge_plan_keys n h t u keys = Some (W2, R2)" and W: "W = W1 @ W2" "R = R1 @ R2"
    unfolding merge_plan_keys_Cons by blast
  note p = Cons.prems
  from p W have dW2: "distinct W2" and dW1: "distinct W1" and W12: "set W1 \<inter> set W2 = {}"
    and WR2: "set W2 \<inter> set R2 = {}" and WR1: "set W1 \<inter> set R1 = {}"
    and W1R2: "set W1 \<inter> set R2 = {}"
    and t2: "t \<notin> set W2" "t \<notin> set R2" "u \<notin> set W2" and t1: "t \<notin> set W1" "u \<notin> set W1"
    and dk: "distinct keys" "key \<notin> set keys"
    and ob2: "\<forall>a \<in> set W2. \<exists>ps. h ! a = JObject ps" and ob1: "\<forall>a \<in> set W1. \<exists>ps. h ! a = JObject ps"
    and pk: "key \<noteq> ''__proto__''" "''__proto__'' \<notin> set keys"
    and np2: "\<forall>a \<in> set R2. ''__proto__'' \<notin> set (own_keys (h ! a))"
    and np1: "\<forall>a \<in> set R1. ''__proto__'' \<notin> set (own_keys (h ! a))"
    by auto
  have val: "\<forall>a \<in> set W \<union> set R. a < length h"
    by (rule plan_valid_keys [OF _ p(1)]) (rule plan_valid)
  have gu: "get_at g u key = get_at h u key"
    using p(10,11,12) by (simp add: get_at_def deref_def)
  have gt: "get_at g t key = get_at h t key" using p(13) by simp
  let ?ov = "get_at h t key" and ?nv = "get_at h u key"
  have continue: "\<exists>g'. mergeKeys L n keys g2 (Ref t) (Ref u) = Returned g'"
    if len: "length g \<le> length g2"
      and fr: "\<forall>a < length g. a \<notin> set W1 \<union> {t} \<longrightarrow> g2 ! a = g ! a"
      and tob: "g2 ! t = JObject (put_prop key v ps)"
    for g2 v
  proof -
    have ag: "\<forall>a \<in> set W2 \<union> set R2 \<union> {u}. g2 ! a = h ! a"
    proof
      fix a assume a: "a \<in> set W2 \<union> set R2 \<union> {u}"
      with val W p(10) have "a < length h" by auto
      moreover from a W12 W1R2 t1 t2 p(7) have "a \<notin> set W1 \<union> {t}" by auto
      moreover from a W have "a \<in> set W \<union> set R \<union> {u}" by auto
      ultimately show "g2 ! a = h ! a" using fr p(11,12) by auto
    qed
    have tl: "t < length g2" using p(9,11) len by simp
    have get2: "get_at g2 t k = (if k = key then v else get_at g t k)" for k
      using tob tl p(9,11,14) by (simp add: get_at_def deref_def lookup_put_prop)
    have tk: "\<forall>k \<in> set keys. get_at g2 t k = get_at h t k"
      using get2 dk p(13) by auto
    have l2: "length h \<le> length g2" using len p(11) by simp
    show ?thesis
      by (rule Cons.IH [OF rest dW2 WR2 t2(1,2,3) p(7) dk(1) p(9,10) l2 ag tk tob ob2 pk(2) np2])
  qed
  have agree: "deref g a = deref h a" if "a \<in> set W \<union> set R" for a
  proof -
    from that val have "a < length h" by auto
    moreover from that p(12) have "g ! a = h ! a" by auto
    ultimately show ?thesis using p(11) by (simp add: deref_def)
  qed
  have tg: "t < length g" using p(9,11) by simp
  from kp show ?case
  proof (cases rule: key_plan_cases)
    case arrays
    then have inR: "addr_of ?ov \<in> set R" "addr_of ?nv \<in> set R" using W by auto
    have da: "deref g (addr_of ?ov) = deref h (addr_of ?ov)" "deref g (addr_of ?nv) = deref h (addr_of ?nv)"
      using inR agree by auto
    have ia: "isArray g ?ov" "isArray g ?nv"
      using arrays(1,2) da isArray_deref_eq by blast+
    let ?g1 = "g @ [array_of (mergeArrayWithDedupe g ?ov ?nv)]"
    let ?g2 = "?g1[t := JObject (put_prop key (Ref (length g)) ps)]"
    have g1t: "?g1 ! t = JObject ps" "t < length ?g1" using tg p(14) by (simp_all add: nth_append)
    have s: "set_at L ?g1 t key (Ref (length g)) = Returned ?g2"
      by (rule set_at_object_Returned [OF g1t(2,1)])
    have "\<exists>g'. mergeKeys L n keys ?g2 (Ref t) (Ref u) = Returned g'"
      apply (rule continue [where v = "Ref (length g)"])
      using tg by (auto simp: nth_append)
    with s ia pk(1) show ?thesis by (simp add: mergeKeys_arrays gt gu)
  next
    case objects
    from objects(2,3) obtain t' u' where tu: "?ov = Ref t'" "?nv = Ref u'"
      by (auto simp: isObject_iff)
    from objects(4) tu have plan: "merge_plan n h t' u' = Some (W1, R1)" by simp
    from merge_plan_heads [OF plan] have hd: "t' \<in> set W" "u' \<in> set R" using W by auto
    have da: "deref g t' = deref h t'" "deref g u' = deref h u'" using hd agree by auto
    have na: "\<not> (isArray g ?ov \<and> isArray g ?nv)"
      using objects(1) da tu by (simp add: isArray_def)
    have plang: "merge_plan n g t' u' = Some (W1, R1)"
      apply (rule plan_agree [OF plan]) using agree W by auto
    have obg: "\<forall>a \<in> set W1. \<exists>ps. g ! a = JObject ps"
      using ob1 p(12) W by auto
    have npg: "\<forall>a \<in> set R1. ''__proto__'' \<notin> set (own_keys (g ! a))"
      using np1 p(12) W by auto
    from IH [OF plang dW1 WR1 obg npg] obtain g1 where run1: "deepMerge L n g (Ref t') (Ref u') = Returned g1"
      by blast
    from deepMerge_frame [OF plang dW1 WR1 run1]
    have f1: "length g \<le> length g1" "\<forall>a < length g. a \<notin> set W1 \<longrightarrow> g1 ! a = g ! a" by auto
    have g1t: "g1 ! t = JObject ps" "t < length g1" using f1 t1 tg p(14) by simp_all
    let ?g2 = "g1[t := JObject (put_prop key ?ov ps)]"
    have s: "set_at L g1 t key ?ov = Returned ?g2"
      by (rule set_at_object_Returned [OF g1t(2,1)])
    have "\<exists>g'. mergeKeys L n keys ?g2 (Ref t) (Ref u) = Returned g'"
      apply (rule continue [where v = ?ov])
      using f1 g1t by auto
    with s run1 na objects(2,3) tu pk(1) show ?thesis by (simp add: mergeKeys_objects gt gu)
  next
    case other
    let ?g2 = "g[t := JObject (put_prop key ?nv ps)]"
    have s: "set_at L g t key ?nv = Returned ?g2"
      by (rule set_at_object_Returned [OF tg p(14)])
    have "\<exists>g'. mergeKeys L n keys ?g2 (Ref t) (Ref u) = Returned g'"
      apply (rule continue [where v = ?nv])
      using tg by auto
    with s other(1) pk(1) show ?thesis by (simp add: mergeKeys_other gt gu)
  qed
qed

lemma deepMerge_returns:
  "merge_plan n h t u = Some (W, R) \<Longrightarrow> distinct W \<Longrightarrow> set W \<inter> set R = {} \<Longrightarrow>
   \<forall>a \<in> set W. \<exists>ps. h ! a = JObject ps \<Longrightarrow>
   \<forall>a \<in> set R. ''__proto__'' \<notin> set (own_keys (h ! a)) \<Longrightarrow>
   \<exists>h'. deepMerge L n h (Ref t) (Ref u) = Returned h'"
proof (induction n arbitrary: h t u W R)
  case 0
  then show ?case by simp
next
  case (Suc n)
  from Suc.prems(1) obtain tb ob W' R' where d: "deref h t = Some tb" "deref h u = Some ob"
    "distinct (own_keys ob)"
    and k: "merge_plan_keys n h t u (own_keys ob) = Some (W', R')" and W: "W = t # W'" "R = u # R'"
    unfolding merge_plan_Suc by blast
  from Suc.prems(2,3) W have c: "distinct W'" "set W' \<inter> set R' = {}" "t \<notin> set W'" "t \<notin> set R'"
    "u \<notin> set W'" "t \<noteq> u" by auto
  from d have v: "t < length h" "u < length h" by (auto simp: deref_def split: if_splits)
  from Suc.prems(4) W obtain ps where ps: "h ! t = JObject ps" by auto
  from Suc.prems(4) W have ob: "\<forall>a \<in> set W'. \<exists>ps. h ! a = JObject ps" by auto
  from Suc.prems(5) W have np: "\<forall>a \<in> set R'. ''__proto__'' \<notin> set (own_keys (h ! a))"
    and "''__proto__'' \<notin> set (own_keys (h ! u))" by auto
  with d(2) have pk: "''__proto__'' \<notin> set (own_keys ob)"
    by (auto simp: deref_def split: if_splits)
  have "\<exists>h'. mergeKeys L n (own_keys ob) h (Ref t) (Ref u) = Returned h'"
    by (rule mergeKeys_returns [OF Suc.IH k c d(3) v _ _ _ ps ob pk np]) simp_all
  with d show ?case unfolding deepMerge_Suc_Ref by simp
qed

lemma deepMerge_result:
  assumes "merge_plan n h t u = Some (W, R)" and "distinct W" and "set W \<inter> set R = {}"
    and "deref h t = Some (JObject ps)" and "deref h u = Some ob"
    and "deepMerge L n h (Ref t) (Ref u) = Returned h'"
  shows "(\<exists>ps'. h' ! t = JObject ps' \<and> set (map fst ps) \<subseteq> set (map fst ps'))
     \<and> (\<forall>k. k \<notin> set (own_keys ob) \<longrightarrow> get_at h' t k = get_at h t k)
     \<and> (\<forall>k \<in> set (own_keys ob).
          (isArray h (get_at h t k) \<and> isArray h (get_at h u k) \<longrightarrow>
             (\<exists>a. get_at h' t k = Ref a \<and> length h \<le> a
                 \<and> deref h' a = Some (array_of (mergeArrayWithDedupe h (get_at h t k) (get_at h u k)))))
        \<and> (\<not> (isArray h (get_at h t k) \<and> isArray h (get_at h u k))
             \<and> isObject (get_at h t k) \<and> isObject (get_at h u k) \<longrightarrow>
             get_at h' t k = get_at h t k)
        \<and> (\<not> (isObject (get_at h t k) \<and> isObject (get_at h u k)) \<longrightarrow>
             get_at h' t k = get_at h u k))"
proof (cases n)
  case 0
  with assms show ?thesis by simp
next
  case (Suc m)
  from assms(1) Suc have "merge_plan (Suc m) h t u = Some (W, R)" by simp
  then obtain tb ob' W' R' where "deref h u = Some ob'" "distinct (own_keys ob')"
    "merge_plan_keys m h t u (own_keys ob') = Some (W', R')" and W: "W = t # W'" "R = u # R'"
    unfolding merge_plan_Suc by blast
  with assms(5) have d: "distinct (own_keys ob)"
    and k: "merge_plan_keys m h t u (own_keys ob) = Some (W', R')" by auto
  from assms(6) Suc assms(5) have run: "mergeKeys L m (own_keys ob) h (Ref t) (Ref u) = Returned h'"
    unfolding deepMerge_Suc_Ref by simp
  from assms(2,3) W have c: "distinct W'" "set W' \<inter> set R' = {}" "t \<notin> set W'" "t \<notin> set R'"
    "u \<notin> set W'" "t \<noteq> u" by auto
  from assms(4,5) have v: "t < length h" "u < length h" and ps: "h ! t = JObject ps"
    by (auto simp: deref_def split: if_splits)
  show ?thesis
    by (rule mergeKeys_result [OF k c d v _ _ _ ps run]) simp_all
qed

subsection \<open>No key of a mapping is ever removed\<close>

lemma keeps_keys_refl: "keeps_keys h h"
  by (auto simp: keeps_keys_def split: jsobj.splits)

lemma keeps_keys_trans: "keeps_keys h g \<Longrightarrow> keeps_keys g k \<Longrightarrow> keeps_keys h k"
  unfolding keeps_keys_def
proof (intro conjI allI impI)
  assume a: "length h \<le> length g \<and> (\<forall>a<length h. case h ! a of
        JObject ps \<Rightarrow> (case g ! a of JObject ps' \<Rightarrow> set (map fst ps) \<subseteq> set (map fst ps')
                       | JArray es qs \<Rightarrow> False) | JArray es qs \<Rightarrow> True)"
    and b: "length g \<le> length k \<and> (\<forall>a<length g. case g ! a of
        JObject ps \<Rightarrow> (case k ! a of JObject ps' \<Rightarrow> set (map fst ps) \<subseteq> set (map fst ps')
                       | JArray es qs \<Rightarrow> False) | JArray es qs \<Rightarrow> True)"
  from a b show "length h \<le> length k" by simp
  fix x assume x: "x < length h"
  with a have 1: "case h ! x of
        JObject ps \<Rightarrow> (case g ! x of JObject ps' \<Rightarrow> set (map fst ps) \<subseteq> set (map fst ps')
                       | JArray es qs \<Rightarrow> False) | JArray es qs \<Rightarrow> True" by blast
  from x a b have 2: "case g ! x of
        JObject ps \<Rightarrow> (case k ! x of JObject ps' \<Rightarrow> set (map fst ps) \<subseteq> set (map fst ps')
                       | JArray es qs \<Rightarrow> False) | JArray es qs \<Rightarrow> True" by simp
  from 1 2 show "case h ! x of
        JObject ps \<Rightarrow> (case k ! x of JObject ps' \<Rightarrow> set (map fst ps) \<subseteq> set (map fst ps')
                       | JArray es qs \<Rightarrow> False) | JArray es qs \<Rightarrow> True"
    by (cases "h ! x"; cases "g ! x"; cases "k ! x") auto
qed

lemma keeps_keys_alloc: "keeps_keys h (h @ [ob])"
  by (auto simp: keeps_keys_def nth_append split: jsobj.splits)

lemma keeps_keys_set_at: "set_at L h a k v = Returned h' \<Longrightarrow> keeps_keys h h'"
proof (erule set_at_Returned)
  fix ob' assume a: "a < length h" and s: "set_prop (L h) (h ! a) k v = Inr ob'"
    and h': "h' = h[a := ob']"
  have "case h ! a of JObject ps \<Rightarrow> (case ob' of JObject ps' \<Rightarrow> set (map fst ps) \<subseteq> set (map fst ps')
                       | JArray es qs \<Rightarrow> False) | JArray es qs \<Rightarrow> True"
    using s keys_put_prop [of k v] by (cases "h ! a") auto
  with a h' show "keeps_keys h h'"
    by (auto simp: keeps_keys_def nth_list_update split: jsobj.splits)
qed

lemma keeps_keys_set_val: "set_val L h target k v = Returned h' \<Longrightarrow> keeps_keys h h'"
  by (cases target) (auto simp: set_val_def keeps_keys_set_at split: if_splits)

lemma mergeKeys_keeps_keys:
  assumes IH: "\<And>h target obj h'. deepMerge L n h target obj = Returned h' \<Longrightarrow> keeps_keys h h'"
  shows "mergeKeys L n ks h target obj = Returned h' \<Longrightarrow> keeps_keys h h'"
proof (induction ks arbitrary: h)
  case Nil
  then show ?case by (simp add: keeps_keys_refl)
next
  case (Cons key keys)
  from Cons.prems obtain oldVal newVal where
    run: "(if isArray h oldVal \<and> isArray h newVal then
         (case alloc (array_of (mergeArrayWithDedupe h oldVal newVal)) h of
            (a, h1) \<Rightarrow>
              bind_outcome (set_val L h1 target key (Ref a))
                (\<lambda>h2. mergeKeys L n keys h2 target obj))
       else if isObject oldVal \<and> isObject newVal then
         bind_outcome (deepMerge L n h oldVal newVal)
           (\<lambda>h1. bind_outcome (set_val L h1 target key oldVal)
             (\<lambda>h2. mergeKeys L n keys h2 target obj))
       else
         bind_outcome (set_val L h target key newVal)
           (\<lambda>h2. mergeKeys L n keys h2 target obj)) = Returned h'"
    unfolding mergeKeys.simps(2) bind_outcome_Returned by blast
  show ?case
  proof (cases "isArray h oldVal \<and> isArray h newVal")
    case True
    let ?h1 = "h @ [array_of (mergeArrayWithDedupe h oldVal newVal)]"
    from run True obtain h2 where "set_val L ?h1 target key (Ref (length h)) = Returned h2"
      "mergeKeys L n keys h2 target obj = Returned h'"
      by (auto simp: alloc_def bind_outcome_Returned)
    then have "keeps_keys ?h1 h2" "keeps_keys h2 h'"
      using keeps_keys_set_val Cons.IH by blast+
    with keeps_keys_alloc [of h] show ?thesis by (blast intro: keeps_keys_trans)
  next
    case na: False
    show ?thesis
    proof (cases "isObject oldVal \<and> isObject newVal")
      case True
      with run na obtain h1 h2 where "deepMerge L n h oldVal newVal = Returned h1"
        "set_val L h1 target key oldVal = Returned h2"
        "mergeKeys L n keys h2 target obj = Returned h'"
        by (auto simp: bind_outcome_Returned)
      then have "keeps_keys h h1" "keeps_keys h1 h2" "keeps_keys h2 h'"
        using IH keeps_keys_set_val Cons.IH by blast+
      then show ?thesis by (blast intro: keeps_keys_trans)
    next
      case False
      with run na obtain h2 where "set_val L h target key newVal = Returned h2"
        "mergeKeys L n keys h2 target obj = Returned h'"
        by (auto simp: bind_outcome_Returned)
      then have "keeps_keys h h2" "keeps_keys h2 h'"
        using keeps_keys_set_val Cons.IH by blast+
      then show ?thesis by (blast intro: keeps_keys_trans)
    qed
  qed
qed

lemma deepMerge_keeps_keys:
  "deepMerge L n h target obj = Returned h' \<Longrightarrow> keeps_keys h h'"
proof (induction n arbitrary: h target obj h')
  case 0
  then show ?case by simp
next
  case (Suc n)
  from Suc.prems obtain keys where "mergeKeys L n keys h target obj = Returned h'"
    by (auto simp: bind_outcome_Returned)
  then show ?case
  proof (rule mergeKeys_keeps_keys [rotated])
    fix g target' obj' g'
    assume "deepMerge L n g target' obj' = Returned g'"
    then show "keeps_keys g g'" by (rule Suc.IH)
  qed
qed

text \<open>A form of \<open>array_index\<close> that evaluates the bound in binary.\<close>

lemma array_index_code [code]:
  "array_index s =
     (if s \<noteq> [] \<and> list_all is_digit s \<and> (length s = 1 \<or> hd s \<noteq> CHR ''0'')
      then (if int (dec_value s) < 4294967295 then Some (dec_value s) else None)
      else None)"
  by (simp add: array_index_def)


section \<open>Properties of deepMerge\<close>

lemma separatedE:
  assumes "separated n h t u"
  obtains W R where "merge_plan n h t u = Some (W, R)" "distinct W" "set W \<inter> set R = {}"
  using assms by (auto simp: separated_def split: option.splits)

lemma separated_returns:
  assumes "separated n h t u" and "mappings_only n h t u" and "no_proto_key n h t u"
  shows "\<exists>h'. deepMerge L n h (Ref t) (Ref u) = Returned h'"
proof -
  from assms(1) obtain W R where p: "merge_plan n h t u = Some (W, R)" "distinct W" "set W \<inter> set R = {}"
    by (rule separatedE)
  have v: "\<forall>a \<in> set W \<union> set R. a < length h" by (rule plan_valid [OF p(1)])
  have "\<forall>a \<in> set W. \<exists>ps. h ! a = JObject ps"
  proof
    fix a assume a: "a \<in> set W"
    with assms(2) p(1) have "case deref h a of Some (JObject ps) \<Rightarrow> True | _ \<Rightarrow> False"
      by (simp add: mappings_only_def list_all_iff)
    then show "\<exists>ps. h ! a = JObject ps"
      by (auto simp: deref_def split: if_splits jsobj.splits)
  qed
  moreover have "\<forall>a \<in> set R. ''__proto__'' \<notin> set (own_keys (h ! a))"
  proof
    fix a assume a: "a \<in> set R"
    with assms(3) p(1) have "case deref h a of Some ob \<Rightarrow> ''__proto__'' \<notin> set (own_keys ob)
        | None \<Rightarrow> True"
      by (simp add: no_proto_key_def list_all_iff)
    with a v show "''__proto__'' \<notin> set (own_keys (h ! a))" by (simp add: deref_def)
  qed
  ultimately show ?thesis by (rule deepMerge_returns [OF p])
qed

subsection \<open>One iteration of the loop on a plain mapping\<close>

lemma iteration_arrays:
  assumes "deref g t = Some (JObject ps)" and "key \<noteq> ''__proto__''"
    and "isArray g (get_at g t key)" and "isArray g (get_at g u key)"
  shows "mergeKeys L n (key # keys) g (Ref t) (Ref u)
       = mergeKeys L n keys
           ((g @ [JArray (map Some (mergeArrayWithDedupe g (get_at g t key) (get_at g u key))) []])
              [t := JObject (put_prop key (Ref (length g)) ps)]) (Ref t) (Ref u)"
proof -
  let ?g1 = "g @ [array_of (mergeArrayWithDedupe g (get_at g t key) (get_at g u key))]"
  from assms(1) have t: "t < length ?g1" "?g1 ! t = JObject ps"
    by (auto simp: deref_def nth_append split: if_splits)
  have "set_at L ?g1 t key (Ref (length g))
      = Returned (?g1[t := JObject (put_prop key (Ref (length g)) ps)])"
    by (rule set_at_object_Returned [OF t])
  then show ?thesis
    unfolding mergeKeys_arrays [OF assms(2,3,4)] by (simp add: array_of_def)
qed

lemma iteration_other:
  assumes "deref g t = Some (JObject ps)" and "key \<noteq> ''__proto__''"
    and "\<not> (isObject (get_at g t key) \<and> isObject (get_at g u key))"
  shows "mergeKeys L n (key # keys) g (Ref t) (Ref u)
       = mergeKeys L n keys (g[t := JObject (put_prop key (get_at g u key) ps)]) (Ref t) (Ref u)"
proof -
  from assms(1) have t: "t < length g" "g ! t = JObject ps"
    by (auto simp: deref_def split: if_splits)
  have "set_at L g t key (get_at g u key)
      = Returned (g[t := JObject (put_prop key (get_at g u key) ps)])"
    by (rule set_at_object_Returned [OF t])
  then show ?thesis unfolding mergeKeys_other [OF assms(2,3)] by simp
qed

lemma get_at_update_same:
  assumes "deref g t = Some (JObject ps)"
  shows "get_at (g[t := JObject (put_prop key v ps)]) t key = v"
  using assms by (auto simp: get_at_def deref_def lookup_put_prop split: if_splits)

lemma union_first_seen:
  "mergeArrayWithDedupe h a b
     = new_Set (spread h a) @ new_Set (filter (\<lambda>y. y \<notin> set (spread h a)) (spread h b))"
  by (simp add: mergeArrayWithDedupe_def new_Set_append)



text \<open>
  C4, as amended. Let the target be a plain mapping and let it and the incoming object
  both hold an array under a key other than \<open>__proto__\<close>. The iteration of the loop for
  that key allocates one new array and stores it under the key in the target, and
  nothing else: it raises no error. The elements of the new array are those of the
  target's array, each once and in order, followed by the elements of the incoming array
  that the target's array does not hold, each once and in order. When the documents are
  separated and the whole call returns, the target holds that array under the key. The
  call returns when, besides, it writes only plain mappings and reads no key
  \<open>__proto__\<close>.
\<close>

theorem merge_sequences_union:
  assumes "deref g t = Some (JObject ps)" and "key \<noteq> ''__proto__''"
    and "isArray g (get_at g t key)" and "isArray g (get_at g u key)"
  shows "mergeKeys L n (key # keys) g (Ref t) (Ref u)
       = mergeKeys L n keys
           ((g @ [JArray (map Some
                   (new_Set (spread g (get_at g t key))
                    @ new_Set (filter (\<lambda>y. y \<notin> set (spread g (get_at g t key)))
                         (spread g (get_at g u key))))) []])
              [t := JObject (put_prop key (Ref (length g)) ps)]) (Ref t) (Ref u)
     \<and> distinct (new_Set (spread g (get_at g t key))
                  @ new_Set (filter (\<lambda>y. y \<notin> set (spread g (get_at g t key)))
                       (spread g (get_at g u key))))
     \<and> set (new_Set (spread g (get_at g t key))
                  @ new_Set (filter (\<lambda>y. y \<notin> set (spread g (get_at g t key)))
                       (spread g (get_at g u key))))
         = set (spread g (get_at g t key)) \<union> set (spread g (get_at g u key))
     \<and> (separated n g t u \<and> deref g u = Some ob \<and> key \<in> set (own_keys ob) \<longrightarrow>
          (\<forall>g'. deepMerge L n g (Ref t) (Ref u) = Returned g' \<longrightarrow>
             (\<exists>a. get_at g' t key = Ref a \<and> length g \<le> a
                \<and> deref g' a = Some (JArray (map Some
                     (new_Set (spread g (get_at g t key))
                      @ new_Set (filter (\<lambda>y. y \<notin> set (spread g (get_at g t key)))
                           (spread g (get_at g u key))))) []))))
     \<and> (separated n g t u \<and> mappings_only n g t u \<and> no_proto_key n g t u \<longrightarrow>
          (\<exists>g'. deepMerge L n g (Ref t) (Ref u) = Returned g'))"
proof -
  let ?U = "new_Set (spread g (get_at g t key))
            @ new_Set (filter (\<lambda>y. y \<notin> set (spread g (get_at g t key))) (spread g (get_at g u key)))"
  have m: "mergeArrayWithDedupe g (get_at g t key) (get_at g u key) = ?U"
    by (rule union_first_seen)
  have 1: "mergeKeys L n (key # keys) g (Ref t) (Ref u)
       = mergeKeys L n keys
           ((g @ [JArray (map Some ?U) []])[t := JObject (put_prop key (Ref (length g)) ps)])
           (Ref t) (Ref u)"
    using iteration_arrays [OF assms] unfolding m .
  have 2: "distinct ?U"
    using distinct_new_Set [of "spread g (get_at g t key) @ spread g (get_at g u key)"]
    unfolding new_Set_append .
  have 3: "set ?U = set (spread g (get_at g t key)) \<union> set (spread g (get_at g u key))"
    by (auto simp: set_new_Set)
  have 4: "\<exists>a. get_at g' t key = Ref a \<and> length g \<le> a
                \<and> deref g' a = Some (JArray (map Some ?U) [])"
    if s: "separated n g t u" and du: "deref g u = Some ob" and k: "key \<in> set (own_keys ob)"
      and run: "deepMerge L n g (Ref t) (Ref u) = Returned g'" for g'
  proof -
    from s obtain W R where p: "merge_plan n g t u = Some (W, R)" "distinct W" "set W \<inter> set R = {}"
      by (rule separatedE)
    from deepMerge_result [OF p assms(1) du run] k assms(3,4)
    have "\<exists>a. get_at g' t key = Ref a \<and> length g \<le> a
        \<and> deref g' a = Some (array_of (mergeArrayWithDedupe g (get_at g t key) (get_at g u key)))"
      by blast
    then show ?thesis unfolding m array_of_def .
  qed
  have 5: "\<exists>g'. deepMerge L n g (Ref t) (Ref u) = Returned g'"
    if "separated n g t u" "mappings_only n g t u" "no_proto_key n g t u"
    using that by (rule separated_returns)
  from 4 have w4: "separated n g t u \<and> deref g u = Some ob \<and> key \<in> set (own_keys ob) \<longrightarrow>
          (\<forall>g'. deepMerge L n g (Ref t) (Ref u) = Returned g' \<longrightarrow>
             (\<exists>a. get_at g' t key = Ref a \<and> length g \<le> a
                \<and> deref g' a = Some (JArray (map Some ?U) [])))"
    by blast
  from 5 have w5: "separated n g t u \<and> mappings_only n g t u \<and> no_proto_key n g t u \<longrightarrow>
          (\<exists>g'. deepMerge L n g (Ref t) (Ref u) = Returned g')"
    by blast
  from 1 2 3 w4 w5 show ?thesis by (intro conjI)
qed

text \<open>
  C1, as amended. Let the target be a plain mapping and \<open>key\<close> a key other than
  \<open>__proto__\<close>. When the target and the incoming object do not both hold an object under
  the key (one of the two values is a scalar, \<open>null\<close> or \<open>undefined\<close>), the iteration of
  the loop for the key is the assignment of the incoming value and nothing else: it makes
  no recursive call, whatever the fuel, and raises no error; and when the documents are
  separated and the whole call returns, the target still holds the incoming value under
  the key. When both hold an object and not both an array, so also when one holds an
  array and the other a mapping, the iteration is the recursive call on the two values
  followed by the assignment of the target's old value, which the target holds under the
  key when the whole call returns. The call returns when the documents are separated, it
  writes only plain mappings and it reads no key \<open>__proto__\<close>.
\<close>

theorem merge_scalar_overwrites:
  assumes "deref g t = Some (JObject ps)" and "key \<noteq> ''__proto__''"
  shows "(\<not> (isObject (get_at g t key) \<and> isObject (get_at g u key)) \<longrightarrow>
            mergeKeys L n (key # keys) g (Ref t) (Ref u)
              = mergeKeys L n keys (g[t := JObject (put_prop key (get_at g u key) ps)])
                  (Ref t) (Ref u)
          \<and> get_at (g[t := JObject (put_prop key (get_at g u key) ps)]) t key = get_at g u key
          \<and> (separated n g t u \<and> deref g u = Some ob \<and> key \<in> set (own_keys ob) \<longrightarrow>
               (\<forall>g'. deepMerge L n g (Ref t) (Ref u) = Returned g' \<longrightarrow>
                  get_at g' t key = get_at g u key)))
     \<and> (isObject (get_at g t key) \<and> isObject (get_at g u key)
          \<and> \<not> (isArray g (get_at g t key) \<and> isArray g (get_at g u key)) \<longrightarrow>
            mergeKeys L n (key # keys) g (Ref t) (Ref u)
              = bind_outcome (deepMerge L n g (get_at g t key) (get_at g u key))
                  (\<lambda>g1. bind_outcome (set_at L g1 t key (get_at g t key))
                    (\<lambda>g2. mergeKeys L n keys g2 (Ref t) (Ref u)))
          \<and> (separated n g t u \<and> deref g u = Some ob \<and> key \<in> set (own_keys ob) \<longrightarrow>
               (\<forall>g'. deepMerge L n g (Ref t) (Ref u) = Returned g' \<longrightarrow>
                  get_at g' t key = get_at g t key)))
     \<and> (separated n g t u \<and> mappings_only n g t u \<and> no_proto_key n g t u \<longrightarrow>
          (\<exists>g'. deepMerge L n g (Ref t) (Ref u) = Returned g'))"
proof -
  have res: "(\<not> (isArray g (get_at g t key) \<and> isArray g (get_at g u key))
             \<and> isObject (get_at g t key) \<and> isObject (get_at g u key) \<longrightarrow>
             get_at g' t key = get_at g t key)
        \<and> (\<not> (isObject (get_at g t key) \<and> isObject (get_at g u key)) \<longrightarrow>
             get_at g' t key = get_at g u key)"
    if s: "separated n g t u" and du: "deref g u = Some ob" and k: "key \<in> set (own_keys ob)"
      and run: "deepMerge L n g (Ref t) (Ref u) = Returned g'" for g'
  proof -
    from s obtain W R where p: "merge_plan n g t u = Some (W, R)" "distinct W" "set W \<inter> set R = {}"
      by (rule separatedE)
    from deepMerge_result [OF p assms(1) du run] k show ?thesis by blast
  qed
  have a: "mergeKeys L n (key # keys) g (Ref t) (Ref u)
              = mergeKeys L n keys (g[t := JObject (put_prop key (get_at g u key) ps)])
                  (Ref t) (Ref u)
          \<and> get_at (g[t := JObject (put_prop key (get_at g u key) ps)]) t key = get_at g u key
          \<and> (separated n g t u \<and> deref g u = Some ob \<and> key \<in> set (own_keys ob) \<longrightarrow>
               (\<forall>g'. deepMerge L n g (Ref t) (Ref u) = Returned g' \<longrightarrow>
                  get_at g' t key = get_at g u key))"
    if no: "\<not> (isObject (get_at g t key) \<and> isObject (get_at g u key))"
  proof (intro conjI)
    show "mergeKeys L n (key # keys) g (Ref t) (Ref u)
              = mergeKeys L n keys (g[t := JObject (put_prop key (get_at g u key) ps)])
                  (Ref t) (Ref u)"
      by (rule iteration_other [OF assms no])
    show "get_at (g[t := JObject (put_prop key (get_at g u key) ps)]) t key = get_at g u key"
      by (rule get_at_update_same [OF assms(1)])
    show "separated n g t u \<and> deref g u = Some ob \<and> key \<in> set (own_keys ob) \<longrightarrow>
               (\<forall>g'. deepMerge L n g (Ref t) (Ref u) = Returned g' \<longrightarrow>
                  get_at g' t key = get_at g u key)"
      using res no by blast
  qed
  have b: "mergeKeys L n (key # keys) g (Ref t) (Ref u)
              = bind_outcome (deepMerge L n g (get_at g t key) (get_at g u key))
                  (\<lambda>g1. bind_outcome (set_at L g1 t key (get_at g t key))
                    (\<lambda>g2. mergeKeys L n keys g2 (Ref t) (Ref u)))
          \<and> (separated n g t u \<and> deref g u = Some ob \<and> key \<in> set (own_keys ob) \<longrightarrow>
               (\<forall>g'. deepMerge L n g (Ref t) (Ref u) = Returned g' \<longrightarrow>
                  get_at g' t key = get_at g t key))"
    if ob: "isObject (get_at g t key) \<and> isObject (get_at g u key)
          \<and> \<not> (isArray g (get_at g t key) \<and> isArray g (get_at g u key))"
  proof (intro conjI)
    from ob show "mergeKeys L n (key # keys) g (Ref t) (Ref u)
              = bind_outcome (deepMerge L n g (get_at g t key) (get_at g u key))
                  (\<lambda>g1. bind_outcome (set_at L g1 t key (get_at g t key))
                    (\<lambda>g2. mergeKeys L n keys g2 (Ref t) (Ref u)))"
      by (intro mergeKeys_objects [OF assms(2)]) blast+
    show "separated n g t u \<and> deref g u = Some ob \<and> key \<in> set (own_keys ob) \<longrightarrow>
               (\<forall>g'. deepMerge L n g (Ref t) (Ref u) = Returned g' \<longrightarrow>
                  get_at g' t key = get_at g t key)"
      using res ob by blast
  qed
  have c: "separated n g t u \<and> mappings_only n g t u \<and> no_proto_key n g t u \<longrightarrow>
          (\<exists>g'. deepMerge L n g (Ref t) (Ref u) = Returned g')"
    using separated_returns by blast
  show ?thesis
  proof (intro conjI impI)
    assume "\<not> (isObject (get_at g t key) \<and> isObject (get_at g u key))"
    note x = a [OF this]
    from x show "mergeKeys L n (key # keys) g (Ref t) (Ref u)
              = mergeKeys L n keys (g[t := JObject (put_prop key (get_at g u key) ps)])
                  (Ref t) (Ref u)" by (rule conjunct1)
  qed (use a b c in blast)+
qed

text \<open>Merging \<open>{x: [2, 3]}\<close> into \<open>{x: [1, 2]}\<close> gives \<open>{x: [1, 2, 3]}\<close>.\<close>

theorem merge_sequences_union_witness:
  "deref [JObject [(''x'', Ref 1)], JArray [Some (Num 1), Some (Num 2)] [],
          JObject [(''x'', Ref 3)], JArray [Some (Num 2), Some (Num 3)] []] 0
     = Some (JObject [(''x'', Ref 1)])
   \<and> ''x'' \<noteq> ''__proto__''
   \<and> isArray [JObject [(''x'', Ref 1)], JArray [Some (Num 1), Some (Num 2)] [],
          JObject [(''x'', Ref 3)], JArray [Some (Num 2), Some (Num 3)] []] (Ref 1)
   \<and> isArray [JObject [(''x'', Ref 1)], JArray [Some (Num 1), Some (Num 2)] [],
          JObject [(''x'', Ref 3)], JArray [Some (Num 2), Some (Num 3)] []] (Ref 3)
   \<and> separated (Suc 0) [JObject [(''x'', Ref 1)], JArray [Some (Num 1), Some (Num 2)] [],
          JObject [(''x'', Ref 3)], JArray [Some (Num 2), Some (Num 3)] []] 0 2
   \<and> mappings_only (Suc 0) [JObject [(''x'', Ref 1)], JArray [Some (Num 1), Some (Num 2)] [],
          JObject [(''x'', Ref 3)], JArray [Some (Num 2), Some (Num 3)] []] 0 2
   \<and> no_proto_key (Suc 0) [JObject [(''x'', Ref 1)], JArray [Some (Num 1), Some (Num 2)] [],
          JObject [(''x'', Ref 3)], JArray [Some (Num 2), Some (Num 3)] []] 0 2
   \<and> mergeKeys num_length 0 [''x'']
        [JObject [(''x'', Ref 1)], JArray [Some (Num 1), Some (Num 2)] [],
         JObject [(''x'', Ref 3)], JArray [Some (Num 2), Some (Num 3)] []] (Ref 0) (Ref 2)
       = Returned [JObject [(''x'', Ref 4)], JArray [Some (Num 1), Some (Num 2)] [],
                   JObject [(''x'', Ref 3)], JArray [Some (Num 2), Some (Num 3)] [],
                   JArray [Some (Num 1), Some (Num 2), Some (Num 3)] []]
   \<and> deepMerge num_length (Suc 0)
        [JObject [(''x'', Ref 1)], JArray [Some (Num 1), Some (Num 2)] [],
         JObject [(''x'', Ref 3)], JArray [Some (Num 2), Some (Num 3)] []] (Ref 0) (Ref 2)
       = Returned [JObject [(''x'', Ref 4)], JArray [Some (Num 1), Some (Num 2)] [],
                   JObject [(''x'', Ref 3)], JArray [Some (Num 2), Some (Num 3)] [],
                   JArray [Some (Num 1), Some (Num 2), Some (Num 3)] []]
   \<and> (\<exists>a. get_at [JObject [(''x'', Ref 4)], JArray [Some (Num 1), Some (Num 2)] [],
                   JObject [(''x'', Ref 3)], JArray [Some (Num 2), Some (Num 3)] [],
                   JArray [Some (Num 1), Some (Num 2), Some (Num 3)] []] 0 ''x'' = Ref a
          \<and> 4 \<le> a
          \<and> deref [JObject [(''x'', Ref 4)], JArray [Some (Num 1), Some (Num 2)] [],
                   JObject [(''x'', Ref 3)], JArray [Some (Num 2), Some (Num 3)] [],
                   JArray [Some (Num 1), Some (Num 2), Some (Num 3)] []] a
              = Some (JArray [Some (Num 1), Some (Num 2), Some (Num 3)] []))"
proof -
  let ?h = "[JObject [(''x'', Ref 1)], JArray [Some (Num 1), Some (Num 2)] [],
             JObject [(''x'', Ref 3)], JArray [Some (Num 2), Some (Num 3)] []]"
  let ?h' = "[JObject [(''x'', Ref 4)], JArray [Some (Num 1), Some (Num 2)] [],
              JObject [(''x'', Ref 3)], JArray [Some (Num 2), Some (Num 3)] [],
              JArray [Some (Num 1), Some (Num 2), Some (Num 3)] []]"
  have s: "separated (Suc 0) ?h 0 2" by code_simp
  have mo: "mappings_only (Suc 0) ?h 0 2" by code_simp
  have np: "no_proto_key (Suc 0) ?h 0 2" by code_simp
  have dt: "deref ?h 0 = Some (JObject [(''x'', Ref 1)])" by code_simp
  have du: "deref ?h 2 = Some (JObject [(''x'', Ref 3)])" by code_simp
  have ne: "''x'' \<noteq> ''__proto__''" by simp
  have k: "''x'' \<in> set (own_keys (JObject [(''x'', Ref 3)]))" by simp
  have g1: "get_at ?h 0 ''x'' = Ref 1" by code_simp
  have g2: "get_at ?h 2 ''x'' = Ref 3" by code_simp
  have i1: "isArray ?h (Ref 1)" by code_simp
  have i2: "isArray ?h (Ref 3)" by code_simp
  have a1: "isArray ?h (get_at ?h 0 ''x'')" unfolding g1 by (rule i1)
  have a2: "isArray ?h (get_at ?h 2 ''x'')" unfolding g2 by (rule i2)
  have run: "deepMerge num_length (Suc 0) ?h (Ref 0) (Ref 2) = Returned ?h'"
    by code_simp
  have e: "map Some (new_Set (spread ?h (get_at ?h 0 ''x''))
            @ new_Set (filter (\<lambda>y. y \<notin> set (spread ?h (get_at ?h 0 ''x'')))
                 (spread ?h (get_at ?h 2 ''x''))))
           = [Some (Num 1), Some (Num 2), Some (Num 3)]"
    by code_simp
  have l: "length ?h = 4" by simp
  have st: "(?h @ [JArray [Some (Num 1), Some (Num 2), Some (Num 3)] []])
              [0 := JObject (put_prop ''x'' (Ref 4) [(''x'', Ref 1)])] = ?h'"
    by code_simp
  note th = merge_sequences_union [OF dt ne a1 a2, where L = num_length and n = "Suc 0"
      and ob = "JObject [(''x'', Ref 3)]"]
  from merge_sequences_union [OF dt ne a1 a2, where L = num_length and n = 0 and keys = "[]"]
  have "mergeKeys num_length 0 [''x''] ?h (Ref 0) (Ref 2)
      = mergeKeys num_length 0 []
          ((?h @ [JArray (map Some (new_Set (spread ?h (get_at ?h 0 ''x''))
            @ new_Set (filter (\<lambda>y. y \<notin> set (spread ?h (get_at ?h 0 ''x'')))
                 (spread ?h (get_at ?h 2 ''x''))))) []])
              [0 := JObject (put_prop ''x'' (Ref (length ?h)) [(''x'', Ref 1)])]) (Ref 0) (Ref 2)"
    by (rule conjunct1)
  then have step: "mergeKeys num_length 0 [''x''] ?h (Ref 0) (Ref 2) = Returned ?h'"
    unfolding e l st by simp
  from th [THEN conjunct2, THEN conjunct2, THEN conjunct2, THEN conjunct1] s du k run
  have "\<exists>a. get_at ?h' 0 ''x'' = Ref a \<and> length ?h \<le> a
          \<and> deref ?h' a = Some (JArray (map Some (new_Set (spread ?h (get_at ?h 0 ''x''))
            @ new_Set (filter (\<lambda>y. y \<notin> set (spread ?h (get_at ?h 0 ''x'')))
                 (spread ?h (get_at ?h 2 ''x''))))) [])"
    by blast
  then have "\<exists>a. get_at ?h' 0 ''x'' = Ref a \<and> 4 \<le> a
          \<and> deref ?h' a = Some (JArray [Some (Num 1), Some (Num 2), Some (Num 3)] [])"
    unfolding e l .
  with dt ne i1 i2 s mo np step run show ?thesis by (intro conjI)
qed

text \<open>
  C4 as stated fails when an earlier key makes the call throw:
  merging \<open>{y: {length: -1}, x: [2, 3]}\<close> into \<open>{y: [1, 2, 3], x: [1, 2]}\<close> assigns \<open>-1\<close>
  to the length of the array under \<open>y\<close>, which throws a RangeError before \<open>x\<close> is
  reached.
\<close>

theorem merge_sequences_union_counterexample:
  "isArray [JObject [(''y'', Ref 1), (''x'', Ref 2)],
            JArray [Some (Num 1), Some (Num 2), Some (Num 3)] [],
            JArray [Some (Num 1), Some (Num 2)] [],
            JObject [(''y'', Ref 4), (''x'', Ref 5)],
            JObject [(''length'', Num (- 1))],
            JArray [Some (Num 2), Some (Num 3)] []]
     (get_at [JObject [(''y'', Ref 1), (''x'', Ref 2)],
            JArray [Some (Num 1), Some (Num 2), Some (Num 3)] [],
            JArray [Some (Num 1), Some (Num 2)] [],
            JObject [(''y'', Ref 4), (''x'', Ref 5)],
            JObject [(''length'', Num (- 1))],
            JArray [Some (Num 2), Some (Num 3)] []] 0 ''x'')
   \<and> isArray [JObject [(''y'', Ref 1), (''x'', Ref 2)],
            JArray [Some (Num 1), Some (Num 2), Some (Num 3)] [],
            JArray [Some (Num 1), Some (Num 2)] [],
            JObject [(''y'', Ref 4), (''x'', Ref 5)],
            JObject [(''length'', Num (- 1))],
            JArray [Some (Num 2), Some (Num 3)] []]
     (get_at [JObject [(''y'', Ref 1), (''x'', Ref 2)],
            JArray [Some (Num 1), Some (Num 2), Some (Num 3)] [],
            JArray [Some (Num 1), Some (Num 2)] [],
            JObject [(''y'', Ref 4), (''x'', Ref 5)],
            JObject [(''length'', Num (- 1))],
            JArray [Some (Num 2), Some (Num 3)] []] 3 ''x'')
   \<and> num_length [] (Num (- 1)) = None
   \<and> deepMerge num_length (Suc (Suc 0))
           [JObject [(''y'', Ref 1), (''x'', Ref 2)],
            JArray [Some (Num 1), Some (Num 2), Some (Num 3)] [],
            JArray [Some (Num 1), Some (Num 2)] [],
            JObject [(''y'', Ref 4), (''x'', Ref 5)],
            JObject [(''length'', Num (- 1))],
            JArray [Some (Num 2), Some (Num 3)] []] (Ref 0) (Ref 3)
         = Raised RangeError"
proof -
  let ?h = "[JObject [(''y'', Ref 1), (''x'', Ref 2)],
            JArray [Some (Num 1), Some (Num 2), Some (Num 3)] [],
            JArray [Some (Num 1), Some (Num 2)] [],
            JObject [(''y'', Ref 4), (''x'', Ref 5)],
            JObject [(''length'', Num (- 1))],
            JArray [Some (Num 2), Some (Num 3)] []]"
  have 1: "isArray ?h (get_at ?h 0 ''x'')" by code_simp
  have 2: "isArray ?h (get_at ?h 3 ''x'')" by code_simp
  have 3: "num_length [] (Num (- 1)) = None" by code_simp
  have 4: "deepMerge num_length (Suc (Suc 0)) ?h (Ref 0) (Ref 3) = Raised RangeError"
    by code_simp
  from 1 2 3 4 show ?thesis by (intro conjI)
qed

text \<open>
  Merging \<open>{name: 'tony', links: {a: 3}}\<close> into \<open>{name: 'jack', links: {a: 1}}\<close>
  overwrites the name; merging \<open>{x: [5]}\<close> into \<open>{x: {a: 1}}\<close> recurses and leaves the
  target's own object under \<open>x\<close>.
\<close>

theorem merge_scalar_overwrites_witness:
  "deref [JObject [(''name'', Str ''jack''), (''links'', Ref 1)], JObject [(''a'', Num 1)],
      JObject [(''name'', Str ''tony''), (''links'', Ref 3)], JObject [(''a'', Num 3)]] 0
     = Some (JObject [(''name'', Str ''jack''), (''links'', Ref 1)])
   \<and> ''name'' \<noteq> ''__proto__''
   \<and> \<not> (isObject (Str ''jack'') \<and> isObject (Str ''tony''))
   \<and> separated (Suc (Suc 0))
     [JObject [(''name'', Str ''jack''), (''links'', Ref 1)], JObject [(''a'', Num 1)],
      JObject [(''name'', Str ''tony''), (''links'', Ref 3)], JObject [(''a'', Num 3)]] 0 2
   \<and> mappings_only (Suc (Suc 0))
     [JObject [(''name'', Str ''jack''), (''links'', Ref 1)], JObject [(''a'', Num 1)],
      JObject [(''name'', Str ''tony''), (''links'', Ref 3)], JObject [(''a'', Num 3)]] 0 2
   \<and> no_proto_key (Suc (Suc 0))
     [JObject [(''name'', Str ''jack''), (''links'', Ref 1)], JObject [(''a'', Num 1)],
      JObject [(''name'', Str ''tony''), (''links'', Ref 3)], JObject [(''a'', Num 3)]] 0 2
   \<and> mergeKeys num_length 0 [''name'']
     [JObject [(''name'', Str ''jack''), (''links'', Ref 1)], JObject [(''a'', Num 1)],
      JObject [(''name'', Str ''tony''), (''links'', Ref 3)], JObject [(''a'', Num 3)]]
     (Ref 0) (Ref 2)
     = Returned
     [JObject [(''name'', Str ''tony''), (''links'', Ref 1)], JObject [(''a'', Num 1)],
      JObject [(''name'', Str ''tony''), (''links'', Ref 3)], JObject [(''a'', Num 3)]]
   \<and> deepMerge num_length (Suc (Suc 0))
     [JObject [(''name'', Str ''jack''), (''links'', Ref 1)], JObject [(''a'', Num 1)],
      JObject [(''name'', Str ''tony''), (''links'', Ref 3)], JObject [(''a'', Num 3)]]
     (Ref 0) (Ref 2)
     = Returned
     [JObject [(''name'', Str ''tony''), (''links'', Ref 1)], JObject [(''a'', Num 3)],
      JObject [(''name'', Str ''tony''), (''links'', Ref 3)], JObject [(''a'', Num 3)]]
   \<and> get_at [JObject [(''name'', Str ''tony''), (''links'', Ref 1)], JObject [(''a'', Num 3)],
      JObject [(''name'', Str ''tony''), (''links'', Ref 3)], JObject [(''a'', Num 3)]] 0 ''name''
     = Str ''tony''
   \<and> isObject (Ref 1) \<and> isObject (Ref 3)
   \<and> \<not> isArray [JObject [(''x'', Ref 1)], JObject [(''a'', Num 1)],
                 JObject [(''x'', Ref 3)], JArray [Some (Num 5)] []] (Ref 1)
   \<and> separated (Suc (Suc 0)) [JObject [(''x'', Ref 1)], JObject [(''a'', Num 1)],
                 JObject [(''x'', Ref 3)], JArray [Some (Num 5)] []] 0 2
   \<and> deepMerge num_length (Suc (Suc 0)) [JObject [(''x'', Ref 1)], JObject [(''a'', Num 1)],
                 JObject [(''x'', Ref 3)], JArray [Some (Num 5)] []] (Ref 0) (Ref 2)
       = Returned [JObject [(''x'', Ref 1)], JObject [(''0'', Num 5), (''a'', Num 1)],
                   JObject [(''x'', Ref 3)], JArray [Some (Num 5)] []]
   \<and> get_at [JObject [(''x'', Ref 1)], JObject [(''0'', Num 5), (''a'', Num 1)],
              JObject [(''x'', Ref 3)], JArray [Some (Num 5)] []] 0 ''x'' = Ref 1"
proof -
  let ?h = "[JObject [(''name'', Str ''jack''), (''links'', Ref 1)], JObject [(''a'', Num 1)],
      JObject [(''name'', Str ''tony''), (''links'', Ref 3)], JObject [(''a'', Num 3)]]"
  let ?h1 = "[JObject [(''name'', Str ''tony''), (''links'', Ref 1)], JObject [(''a'', Num 1)],
      JObject [(''name'', Str ''tony''), (''links'', Ref 3)], JObject [(''a'', Num 3)]]"
  let ?h' = "[JObject [(''name'', Str ''tony''), (''links'', Ref 1)], JObject [(''a'', Num 3)],
      JObject [(''name'', Str ''tony''), (''links'', Ref 3)], JObject [(''a'', Num 3)]]"
  let ?ps = "[(''name'', Str ''jack''), (''links'', Ref 1)]"
  let ?ob = "JObject [(''name'', Str ''tony''), (''links'', Ref 3)]"
  have s: "separated (Suc (Suc 0)) ?h 0 2" by code_simp
  have mo: "mappings_only (Suc (Suc 0)) ?h 0 2" by code_simp
  have np: "no_proto_key (Suc (Suc 0)) ?h 0 2" by code_simp
  have dt: "deref ?h 0 = Some (JObject ?ps)" by code_simp
  have du: "deref ?h 2 = Some ?ob" by code_simp
  have ne: "''name'' \<noteq> ''__proto__''" by simp
  have k: "''name'' \<in> set (own_keys ?ob)" by simp
  have g1: "get_at ?h 0 ''name'' = Str ''jack''" by code_simp
  have g2: "get_at ?h 2 ''name'' = Str ''tony''" by code_simp
  have no: "\<not> (isObject (Str ''jack'') \<and> isObject (Str ''tony''))" by code_simp
  have no': "\<not> (isObject (get_at ?h 0 ''name'') \<and> isObject (get_at ?h 2 ''name''))"
    unfolding g1 g2 by (rule no)
  have run: "deepMerge num_length (Suc (Suc 0)) ?h (Ref 0) (Ref 2) = Returned ?h'"
    by code_simp
  have st: "?h[0 := JObject (put_prop ''name'' (Str ''tony'') ?ps)] = ?h1" by code_simp
  note th = merge_scalar_overwrites [OF dt ne, where u = 2 and L = num_length
      and n = "Suc (Suc 0)" and ob = ?ob, THEN conjunct1, rule_format, OF no']
  from merge_scalar_overwrites [OF dt ne, where u = 2 and L = num_length and n = 0
      and keys = "[]", THEN conjunct1, rule_format, OF no', THEN conjunct1]
  have step: "mergeKeys num_length 0 [''name''] ?h (Ref 0) (Ref 2) = Returned ?h1"
    unfolding g2 st by simp
  from th [THEN conjunct2, THEN conjunct2] s du k run
  have "get_at ?h' 0 ''name'' = get_at ?h 2 ''name''" by blast
  then have fin: "get_at ?h' 0 ''name'' = Str ''tony''" unfolding g2 .
  let ?k = "[JObject [(''x'', Ref 1)], JObject [(''a'', Num 1)],
             JObject [(''x'', Ref 3)], JArray [Some (Num 5)] []]"
  let ?k' = "[JObject [(''x'', Ref 1)], JObject [(''0'', Num 5), (''a'', Num 1)],
              JObject [(''x'', Ref 3)], JArray [Some (Num 5)] []]"
  have ks: "separated (Suc (Suc 0)) ?k 0 2" by code_simp
  have kdt: "deref ?k 0 = Some (JObject [(''x'', Ref 1)])" by code_simp
  have kdu: "deref ?k 2 = Some (JObject [(''x'', Ref 3)])" by code_simp
  have kne: "''x'' \<noteq> ''__proto__''" by simp
  have kk: "''x'' \<in> set (own_keys (JObject [(''x'', Ref 3)]))" by simp
  have kg1: "get_at ?k 0 ''x'' = Ref 1" by code_simp
  have kg2: "get_at ?k 2 ''x'' = Ref 3" by code_simp
  have o1: "isObject (Ref 1)" by code_simp
  have o2: "isObject (Ref 3)" by code_simp
  have na: "\<not> isArray ?k (Ref 1)" by code_simp
  have ob: "isObject (get_at ?k 0 ''x'') \<and> isObject (get_at ?k 2 ''x'')
      \<and> \<not> (isArray ?k (get_at ?k 0 ''x'') \<and> isArray ?k (get_at ?k 2 ''x''))"
    unfolding kg1 kg2 using o1 o2 na by blast
  have krun: "deepMerge num_length (Suc (Suc 0)) ?k (Ref 0) (Ref 2) = Returned ?k'"
    by code_simp
  from merge_scalar_overwrites [OF kdt kne, where u = 2 and L = num_length
      and n = "Suc (Suc 0)" and ob = "JObject [(''x'', Ref 3)]", THEN conjunct2, THEN conjunct1,
      rule_format, OF ob, THEN conjunct2] ks kdu kk krun
  have "get_at ?k' 0 ''x'' = get_at ?k 0 ''x''" by blast
  then have kfin: "get_at ?k' 0 ''x'' = Ref 1" unfolding kg1 .
  from dt ne no s mo np step run fin o1 o2 na ks krun kfin show ?thesis by (intro conjI)
qed

text \<open>
  C1 as stated fails where one side holds a mapping and the other an array: \<open>isObject\<close>
  accepts both, so the merge recurses instead of overwriting. Merging \<open>{x: [5]}\<close> into
  \<open>{x: {a: 1}}\<close> leaves the target's own object under \<open>x\<close>, now \<open>{0: 5, a: 1}\<close>.
\<close>

theorem merge_scalar_overwrites_counterexample:
  "\<not> isArray [JObject [(''x'', Ref 1)], JObject [(''a'', Num 1)],
               JObject [(''x'', Ref 3)], JArray [Some (Num 5)] []]
        (get_at [JObject [(''x'', Ref 1)], JObject [(''a'', Num 1)],
                 JObject [(''x'', Ref 3)], JArray [Some (Num 5)] []] 0 ''x'')
   \<and> isArray [JObject [(''x'', Ref 1)], JObject [(''a'', Num 1)],
               JObject [(''x'', Ref 3)], JArray [Some (Num 5)] []]
        (get_at [JObject [(''x'', Ref 1)], JObject [(''a'', Num 1)],
                 JObject [(''x'', Ref 3)], JArray [Some (Num 5)] []] 2 ''x'')
   \<and> deepMerge num_length (Suc (Suc 0))
        [JObject [(''x'', Ref 1)], JObject [(''a'', Num 1)],
         JObject [(''x'', Ref 3)], JArray [Some (Num 5)] []] (Ref 0) (Ref 2)
       = Returned [JObject [(''x'', Ref 1)], JObject [(''0'', Num 5), (''a'', Num 1)],
                   JObject [(''x'', Ref 3)], JArray [Some (Num 5)] []]
   \<and> get_at [JObject [(''x'', Ref 1)], JObject [(''0'', Num 5), (''a'', Num 1)],
              JObject [(''x'', Ref 3)], JArray [Some (Num 5)] []] 0 ''x''
       \<noteq> get_at [JObject [(''x'', Ref 1)], JObject [(''a'', Num 1)],
                 JObject [(''x'', Ref 3)], JArray [Some (Num 5)] []] 2 ''x''"
  by code_simp

section \<open>Reachable objects\<close>

lemma those_map_nth:
  "those (map f xs) = Some ys \<Longrightarrow>
   length ys = length xs \<and> (\<forall>i < length xs. f (xs ! i) = Some (ys ! i))"
proof (induction xs arbitrary: ys)
  case Nil
  then show ?case by simp
next
  case (Cons x xs)
  from Cons.prems obtain y ys' where y: "f x = Some y" "those (map f xs) = Some ys'" "ys = y # ys'"
    by (auto split: option.splits)
  from Cons.IH [OF y(2)] y(1,3) show ?case by (auto simp: nth_Cons split: nat.splits)
qed

lemma those_map_cong:
  "\<forall>x \<in> set xs. f x = g x \<Longrightarrow> those (map f xs) = those (map g xs)"
  by (induction xs) (auto split: option.splits)

lemma distinct_concat_nth:
  "distinct (concat xss) \<Longrightarrow> i < length xss \<Longrightarrow> j < length xss \<Longrightarrow> i \<noteq> j \<Longrightarrow>
   set (xss ! i) \<inter> set (xss ! j) = {}"
proof (induction xss arbitrary: i j)
  case Nil
  then show ?case by simp
next
  case (Cons xs xss)
  from Cons.prems(1) have d: "distinct (concat xss)" "set xs \<inter> set (concat xss) = {}" by auto
  show ?case
  proof (cases i)
    case 0
    with Cons.prems obtain j' where j: "j = Suc j'" "j' < length xss" by (cases j) auto
    then have "xss ! j' \<in> set xss" by simp
    then have "set (xss ! j') \<subseteq> set (concat xss)" by auto
    with d(2) 0 j show ?thesis by auto
  next
    case (Suc i')
    show ?thesis
    proof (cases j)
      case 0
      from Suc Cons.prems have "xss ! i' \<in> set xss" by simp
      then have "set (xss ! i') \<subseteq> set (concat xss)" by auto
      with d(2) 0 Suc show ?thesis by auto
    next
      case j: (Suc j')
      with Suc Cons.prems Cons.IH [OF d(1), of i' j'] show ?thesis by simp
    qed
  qed
qed

lemma reach_Suc:
  "reach (Suc m) h (Ref a) = Some F \<longleftrightarrow>
   (\<exists>ob xss. deref h a = Some ob \<and> those (map (reach m h) (values_of ob)) = Some xss
      \<and> F = a # concat xss)"
  by (auto split: option.splits)

lemma reach_Ref:
  assumes "reach m h (Ref a) = Some F"
  obtains m' ob xss where "m = Suc m'" "deref h a = Some ob"
    "those (map (reach m' h) (values_of ob)) = Some xss" "F = a # concat xss"
proof (cases m)
  case 0
  with assms show ?thesis by simp
next
  case (Suc m')
  with assms that show ?thesis unfolding Suc reach_Suc by blast
qed

lemma reach_not_Ref: "\<forall>a. v \<noteq> Ref a \<Longrightarrow> reach m h v = Some []"
  by (cases v) simp_all

lemma reach_valid: "reach m h v = Some F \<Longrightarrow> a \<in> set F \<Longrightarrow> a < length h"
proof (induction m arbitrary: v F)
  case 0
  then show ?case by (cases v) simp_all
next
  case (Suc m)
  show ?case
  proof (cases v)
    case (Ref b)
    with Suc.prems(1) have "reach (Suc m) h (Ref b) = Some F" by simp
    then obtain ob xss where r: "deref h b = Some ob"
      "those (map (reach m h) (values_of ob)) = Some xss" "F = b # concat xss"
      unfolding reach_Suc by blast
    from r(1) have b: "b < length h" by (auto simp: deref_def split: if_splits)
    show ?thesis
    proof (cases "a = b")
      case True
      with b show ?thesis by simp
    next
      case False
      with Suc.prems(2) r(3) obtain xs where xs: "xs \<in> set xss" "a \<in> set xs" by auto
      then obtain i where i: "i < length xss" "xss ! i = xs" by (auto simp: in_set_conv_nth)
      from those_map_nth [OF r(2)] i have "reach m h (values_of ob ! i) = Some xs" by auto
      from Suc.IH [OF this xs(2)] show ?thesis .
    qed
  qed (use Suc.prems in simp_all)
qed

lemma get_prop_value: "get_prop ob k = Ref b \<Longrightarrow> Ref b \<in> set (values_of ob)"
proof (cases ob)
  case (JObject ps)
  assume "get_prop ob k = Ref b"
  with JObject have "map_of ps k = Some (Ref b)"
    by (auto simp: lookup_prop_def split: option.splits)
  then have "(k, Ref b) \<in> set ps" by (rule map_of_SomeD)
  then have "Ref b \<in> snd ` set ps" by force
  with JObject show ?thesis by simp
next
  case (JArray es ps)
  assume g: "get_prop ob k = Ref b"
  show ?thesis
  proof (cases "array_index k")
    case None
    with g JArray have "map_of ps k = Some (Ref b)"
      by (auto simp: lookup_prop_def split: option.splits if_splits)
    then have "(k, Ref b) \<in> set ps" by (rule map_of_SomeD)
    then have "Ref b \<in> snd ` set ps" by force
    with JArray show ?thesis by simp
  next
    case (Some i)
    with g JArray have "i < length es" "es ! i = Some (Ref b)"
      by (auto split: option.splits if_splits)
    then have "Some (Ref b) \<in> set es" by (auto simp: in_set_conv_nth)
    then have "Ref b \<in> (\<lambda>e. case e of Some x \<Rightarrow> x | None \<Rightarrow> Undefined) ` set es" by force
    with JArray show ?thesis by simp
  qed
qed

lemma reach_child:
  assumes "those (map (reach m h) (values_of ob)) = Some xss" and "w \<in> set (values_of ob)"
  shows "\<exists>G. reach m h w = Some G \<and> set G \<subseteq> set (concat xss)"
proof -
  from assms(2) obtain i where i: "i < length (values_of ob)" "values_of ob ! i = w"
    by (auto simp: in_set_conv_nth)
  from those_map_nth [OF assms(1)] i have l: "length xss = length (values_of ob)"
    and r: "reach m h w = Some (xss ! i)" by auto
  from i l have "xss ! i \<in> set xss" by simp
  then have "set (xss ! i) \<subseteq> set (concat xss)" by auto
  with r show ?thesis by blast
qed

lemma plan_keys_member:
  "merge_plan_keys n h t u keys = Some (W, R) \<Longrightarrow> a \<in> set W \<Longrightarrow>
   \<exists>k \<in> set keys. \<exists>W1 R1. key_plan n h t u k = Some (W1, R1) \<and> a \<in> set W1"
proof (induction keys arbitrary: W R)
  case Nil
  then show ?case by simp
next
  case (Cons key keys)
  from Cons.prems(1) obtain W1 R1 W2 R2 where p: "key_plan n h t u key = Some (W1, R1)"
    "merge_plan_keys n h t u keys = Some (W2, R2)" "W = W1 @ W2"
    unfolding merge_plan_keys_Cons by blast
  show ?case
  proof (cases "a \<in> set W1")
    case True
    with p(1) show ?thesis by auto
  next
    case False
    with Cons.prems(2) p(3) have "a \<in> set W2" by simp
    from Cons.IH [OF p(2) this] show ?thesis by auto
  qed
qed

lemma key_plan_in_reach:
  assumes IH: "\<And>m t u W R F. merge_plan n h t u = Some (W, R) \<Longrightarrow> reach m h (Ref t) = Some F
               \<Longrightarrow> set W \<subseteq> set F"
    and "key_plan n h t u key = Some (W1, R1)" and "reach m h (get_at h t key) = Some G"
  shows "set W1 \<subseteq> set G"
  using assms(2)
proof (cases rule: key_plan_cases)
  case objects
  from objects(2) obtain b where b: "get_at h t key = Ref b" unfolding isObject_iff by blast
  with objects(4) have "merge_plan n h b (addr_of (get_at h u key)) = Some (W1, R1)" by simp
  from IH [OF this] assms(3) b show ?thesis by simp
qed simp_all

lemma plan_in_reach:
  "merge_plan n h t u = Some (W, R) \<Longrightarrow> reach m h (Ref t) = Some F \<Longrightarrow> set W \<subseteq> set F"
proof (induction n arbitrary: m t u W R F)
  case 0
  then show ?case by simp
next
  case (Suc n)
  from Suc.prems(1) obtain tb ob W' R' where d: "deref h t = Some tb"
    and k: "merge_plan_keys n h t u (own_keys ob) = Some (W', R')" and W: "W = t # W'"
    unfolding merge_plan_Suc by blast
  from Suc.prems(2) obtain m' tb' xss where r0: "m = Suc m'" "deref h t = Some tb'"
    "those (map (reach m' h) (values_of tb')) = Some xss" "F = t # concat xss"
    by (rule reach_Ref)
  with d have r: "m = Suc m'"
    "those (map (reach m' h) (values_of tb)) = Some xss" "F = t # concat xss"
    by simp_all
  have "a \<in> set (concat xss)" if "a \<in> set W'" for a
  proof -
    from plan_keys_member [OF k that] obtain key W1 R1 where
      p: "key_plan n h t u key = Some (W1, R1)" "a \<in> set W1" by blast
    from p(2) have "W1 \<noteq> []" by auto
    with p(1) obtain b where b: "get_at h t key = Ref b"
      by (cases rule: key_plan_cases) (auto simp: isObject_iff)
    with d have "get_prop tb key = Ref b" by (simp add: get_at_def)
    then have "Ref b \<in> set (values_of tb)" by (rule get_prop_value)
    from reach_child [OF r(2) this] obtain G where G: "reach m' h (Ref b) = Some G"
      "set G \<subseteq> set (concat xss)" by blast
    from key_plan_in_reach [OF Suc.IH p(1)] G(1) b have "set W1 \<subseteq> set G" by simp
    with p(2) G(2) show ?thesis by blast
  qed
  with W r(3) show ?case by auto
qed

lemma unfold_agree:
  "reach m h v = Some G \<Longrightarrow> \<forall>a \<in> set G. deref h' a = deref h a \<Longrightarrow>
   unfold m h' v = unfold m h v \<and> unfold m h v \<noteq> None \<and> reach m h' v = Some G"
proof (induction m arbitrary: v G)
  case 0
  then show ?case by (cases v) simp_all
next
  case (Suc m)
  show ?case
  proof (cases v)
    case (Ref b)
    with Suc.prems(1) have "reach (Suc m) h (Ref b) = Some G" by simp
    then obtain ob xss where r: "deref h b = Some ob"
      "those (map (reach m h) (values_of ob)) = Some xss" "G = b # concat xss"
      unfolding reach_Suc by blast
    from Suc.prems(2) r(1,3) have r': "deref h' b = Some ob" by simp
    have c: "unfold m h' w = unfold m h w \<and> unfold m h w \<noteq> None \<and> reach m h' w = reach m h w"
      if "w \<in> set (values_of ob)" for w
    proof -
      from reach_child [OF r(2) that] obtain G' where G': "reach m h w = Some G'"
        "set G' \<subseteq> set (concat xss)" by blast
      with Suc.prems(2) r(3) have "\<forall>a \<in> set G'. deref h' a = deref h a" by auto
      from Suc.IH [OF G'(1) this] G'(1) show ?thesis by simp
    qed
    then have "those (map (reach m h') (values_of ob)) = those (map (reach m h) (values_of ob))"
      by (intro those_map_cong) simp
    with r r' have 3: "reach (Suc m) h' (Ref b) = Some G" by simp
    have ps: "\<exists>ts. those (map (\<lambda>p. map_option (Pair (fst p)) (unfold m h (snd p))) ps) = Some ts"
      if "\<forall>w \<in> snd ` set ps. unfold m h w \<noteq> None" for ps :: "(string \<times> jsval) list"
      using that by (induction ps) auto
    have es: "\<exists>ts. those (map (\<lambda>e. case e of None \<Rightarrow> Some None
                 | Some x \<Rightarrow> map_option Some (unfold m h x)) es) = Some ts"
      if "\<forall>e \<in> set es. \<forall>x. e = Some x \<longrightarrow> unfold m h x \<noteq> None" for es :: "jsval option list"
      using that by (induction es) (auto split: option.splits)
    show ?thesis
    proof (cases ob)
      case (JObject ps)
      with c have e: "\<forall>p \<in> set ps. unfold m h' (snd p) = unfold m h (snd p)"
        and n: "\<forall>w \<in> snd ` set ps. unfold m h w \<noteq> None" by auto
      from e have "those (map (\<lambda>p. map_option (Pair (fst p)) (unfold m h' (snd p))) ps)
           = those (map (\<lambda>p. map_option (Pair (fst p)) (unfold m h (snd p))) ps)"
        by (intro those_map_cong) simp
      moreover from ps [OF n] obtain ts where
        "those (map (\<lambda>p. map_option (Pair (fst p)) (unfold m h (snd p))) ps) = Some ts" by blast
      ultimately show ?thesis using Ref r(1) r' JObject 3 by simp
    next
      case (JArray es ps)
      with c have e: "\<forall>p \<in> set ps. unfold m h' (snd p) = unfold m h (snd p)"
        and n: "\<forall>w \<in> snd ` set ps. unfold m h w \<noteq> None"
        and e2: "\<forall>x. Some x \<in> set es \<longrightarrow> unfold m h' x = unfold m h x \<and> unfold m h x \<noteq> None"
        by (auto simp: image_iff) force+
      from e have 1: "those (map (\<lambda>p. map_option (Pair (fst p)) (unfold m h' (snd p))) ps)
           = those (map (\<lambda>p. map_option (Pair (fst p)) (unfold m h (snd p))) ps)"
        by (intro those_map_cong) simp
      from e2 have 2: "those (map (\<lambda>e. case e of None \<Rightarrow> Some None
                 | Some x \<Rightarrow> map_option Some (unfold m h' x)) es)
          = those (map (\<lambda>e. case e of None \<Rightarrow> Some None
                 | Some x \<Rightarrow> map_option Some (unfold m h x)) es)"
        by (intro those_map_cong) (auto split: option.splits)
      from ps [OF n] obtain ts where
        ts: "those (map (\<lambda>p. map_option (Pair (fst p)) (unfold m h (snd p))) ps) = Some ts" by blast
      from e2 have "\<forall>e \<in> set es. \<forall>x. e = Some x \<longrightarrow> unfold m h x \<noteq> None" by blast
      from es [OF this] obtain ts' where
        ts': "those (map (\<lambda>e. case e of None \<Rightarrow> Some None
                 | Some x \<Rightarrow> map_option Some (unfold m h x)) es) = Some ts'" by blast
      show ?thesis using Ref r(1) r' JArray 3 1 2 ts ts' by simp
    qed
  qed (use Suc.prems in simp_all)
qed

lemma map_of_index:
  "map_of ps k = Some v \<Longrightarrow> \<exists>i < length ps. ps ! i = (k, v)"
  by (drule map_of_SomeD) (simp add: in_set_conv_nth)

lemma key_plan_reach:
  assumes "key_plan n h t u key = Some (W1, R1)" and "reach m h (get_at h t key) = Some G"
  shows "set W1 \<subseteq> set G"
proof (rule key_plan_in_reach [OF _ assms])
  fix m t u W R F
  assume "merge_plan n h t u = Some (W, R)" "reach m h (Ref t) = Some F"
  then show "set W \<subseteq> set F" by (rule plan_in_reach)
qed

lemma untouched_subtree:
  assumes p: "merge_plan n h t u = Some (W, R)"
    and dt: "deref h t = Some (JObject ps)" and du: "deref h u = Some ob"
    and r: "reach (Suc m) h (Ref t) = Some F" and dF: "distinct F"
    and key: "key \<in> set (map fst ps)" "key \<notin> set (own_keys ob)"
  shows "\<exists>G. reach m h (get_at h t key) = Some G \<and> set G \<inter> set W = {}"
proof -
  from r obtain tb xss where "deref h t = Some tb"
    "those (map (reach m h) (values_of tb)) = Some xss" and x2: "F = t # concat xss"
    unfolding reach_Suc by blast
  with dt have x1: "those (map (reach m h) (map snd ps)) = Some xss" by simp
  note x = x1 x2
  from those_map_nth [OF x(1)] have l: "length xss = length ps"
    and rr0: "\<forall>i < length ps. reach m h (map snd ps ! i) = Some (xss ! i)" by simp_all
  have rr: "reach m h (snd (ps ! i)) = Some (xss ! i)" if "i < length ps" for i
    using rr0 that by simp
  from key(1) obtain v where "map_of ps key = Some v"
    by (cases "map_of ps key") (auto simp: map_of_eq_None_iff)
  then have mk: "map_of ps key = Some v" .
  with dt have g: "get_at h t key = v" by (simp add: get_at_def lookup_prop_def)
  from map_of_index [OF mk] obtain i where i: "i < length ps" "ps ! i = (key, v)" by blast
  from rr [OF i(1)] i(2) have rv: "reach m h v = Some (xss ! i)" by simp
  from i(1) l have mem: "xss ! i \<in> set xss" by simp
  from p obtain n' where n: "n = Suc n'" by (cases n) auto
  from p n have "merge_plan (Suc n') h t u = Some (W, R)" by simp
  then obtain ob' W' R' where "deref h u = Some ob'"
    "merge_plan_keys n' h t u (own_keys ob') = Some (W', R')" and W: "W = t # W'"
    unfolding merge_plan_Suc by blast
  with du have k: "merge_plan_keys n' h t u (own_keys ob) = Some (W', R')" by simp
  have nW: "a \<notin> set W" if a: "a \<in> set (xss ! i)" for a
  proof
    assume aW: "a \<in> set W"
    from a mem have "a \<in> set (concat xss)" by auto
    with dF x(2) have "a \<noteq> t" by auto
    with aW W have "a \<in> set W'" by simp
    from plan_keys_member [OF k this] obtain k' W1 R1 where
      k': "k' \<in> set (own_keys ob)" "key_plan n' h t u k' = Some (W1, R1)" "a \<in> set W1" by blast
    from k'(3) have "W1 \<noteq> []" by auto
    with k'(2) obtain b where b: "get_at h t k' = Ref b"
      by (cases rule: key_plan_cases) (auto simp: isObject_iff)
    from b dt have "lookup_prop ps k' = Ref b" by (simp add: get_at_def)
    then have mb: "map_of ps k' = Some (Ref b)"
      by (cases "map_of ps k'") (simp_all add: lookup_prop_def)
    from map_of_index [OF mb] obtain j where j: "j < length ps" "ps ! j = (k', Ref b)" by blast
    from k'(1) key(2) have "k' \<noteq> key" by blast
    with i(2) j(2) have ij: "i \<noteq> j" by auto
    from rr [OF j(1)] j(2) have "reach m h (get_at h t k') = Some (xss ! j)" using b by simp
    then have "set W1 \<subseteq> set (xss ! j)"
      by (rule key_plan_reach [OF k'(2)])
    with k'(3) have "a \<in> set (xss ! j)" by blast
    moreover from dF x(2) have "distinct (concat xss)" by simp
    from distinct_concat_nth [OF this _ _ ij] i(1) j(1) l
    have "set (xss ! i) \<inter> set (xss ! j) = {}" by simp
    ultimately show False using a by blast
  qed
  have "set (xss ! i) \<inter> set W = {}"
  proof (rule ccontr)
    assume "set (xss ! i) \<inter> set W \<noteq> {}"
    then obtain a where "a \<in> set (xss ! i)" "a \<in> set W" by blast
    with nW show False by blast
  qed
  with rv show ?thesis unfolding g by simp
qed

text \<open>
  C3, as amended. In every call of deepMerge that returns, on any two values and any
  store, every plain mapping of the store is still a plain mapping and still has every
  key it had. When the target is a plain mapping and the documents are separated, a key
  of the target that the incoming object does not have also keeps its value, and when
  the target is a tree that value stands for the same document after the merge as
  before. The call returns when, besides, it writes only plain mappings and reads no key
  \<open>__proto__\<close>.
\<close>

theorem merge_keeps_target_keys:
  "(\<forall>h'. deepMerge L n h target obj = Returned h' \<longrightarrow> keeps_keys h h')
   \<and> (separated n h t u \<and> deref h t = Some (JObject ps) \<and> deref h u = Some ob \<longrightarrow>
        (\<forall>h'. deepMerge L n h (Ref t) (Ref u) = Returned h' \<longrightarrow>
           (\<exists>ps'. deref h' t = Some (JObject ps')
              \<and> set (own_keys (JObject ps)) \<subseteq> set (own_keys (JObject ps')))
         \<and> (\<forall>key. key \<in> set (own_keys (JObject ps)) \<and> key \<notin> set (own_keys ob) \<longrightarrow>
               get_at h' t key = get_at h t key
             \<and> (is_tree (Suc m) h (Ref t) \<longrightarrow>
                  unfold m h' (get_at h' t key) = unfold m h (get_at h t key)
                \<and> unfold m h (get_at h t key) \<noteq> None))))
   \<and> (separated n h t u \<and> mappings_only n h t u \<and> no_proto_key n h t u \<longrightarrow>
        (\<exists>h'. deepMerge L n h (Ref t) (Ref u) = Returned h'))"
proof -
  have a: "\<forall>h'. deepMerge L n h target obj = Returned h' \<longrightarrow> keeps_keys h h'"
    using deepMerge_keeps_keys by blast
  have c: "separated n h t u \<and> mappings_only n h t u \<and> no_proto_key n h t u \<longrightarrow>
        (\<exists>h'. deepMerge L n h (Ref t) (Ref u) = Returned h')"
    using separated_returns by blast
  have b: "(\<exists>ps'. deref h' t = Some (JObject ps')
             \<and> set (own_keys (JObject ps)) \<subseteq> set (own_keys (JObject ps')))
        \<and> (\<forall>key. key \<in> set (own_keys (JObject ps)) \<and> key \<notin> set (own_keys ob) \<longrightarrow>
              get_at h' t key = get_at h t key
            \<and> (is_tree (Suc m) h (Ref t) \<longrightarrow>
                 unfold m h' (get_at h' t key) = unfold m h (get_at h t key)
               \<and> unfold m h (get_at h t key) \<noteq> None))"
    if sep: "separated n h t u" and dt: "deref h t = Some (JObject ps)"
      and du: "deref h u = Some ob"
      and run: "deepMerge L n h (Ref t) (Ref u) = Returned h'" for h'
  proof -
    from sep obtain W R where p: "merge_plan n h t u = Some (W, R)" "distinct W" "set W \<inter> set R = {}"
      by (rule separatedE)
    from deepMerge_frame [OF p run] have f: "length h \<le> length h'"
      "\<And>a. a < length h \<Longrightarrow> a \<notin> set W \<Longrightarrow> h' ! a = h ! a" by auto
    from deepMerge_result [OF p dt du run] obtain ps' where
      ps': "h' ! t = JObject ps'" "set (map fst ps) \<subseteq> set (map fst ps')"
      and same: "\<And>k. k \<notin> set (own_keys ob) \<Longrightarrow> get_at h' t k = get_at h t k" by blast
    from dt have "t < length h" by (auto simp: deref_def split: if_splits)
    with f(1) ps'(1) have "deref h' t = Some (JObject ps')" by (simp add: deref_def)
    with ps'(2) have 1: "\<exists>ps'. deref h' t = Some (JObject ps')
             \<and> set (own_keys (JObject ps)) \<subseteq> set (own_keys (JObject ps'))" by simp
    have 2: "\<forall>key. key \<in> set (own_keys (JObject ps)) \<and> key \<notin> set (own_keys ob) \<longrightarrow>
              get_at h' t key = get_at h t key
            \<and> (is_tree (Suc m) h (Ref t) \<longrightarrow>
                 unfold m h' (get_at h' t key) = unfold m h (get_at h t key)
               \<and> unfold m h (get_at h t key) \<noteq> None)"
    proof (intro allI impI)
      fix key
      assume "key \<in> set (own_keys (JObject ps)) \<and> key \<notin> set (own_keys ob)"
      then have key: "key \<in> set (map fst ps)" "key \<notin> set (own_keys ob)" by simp_all
      have s: "get_at h' t key = get_at h t key" by (rule same [OF key(2)])
      have d: "unfold m h' (get_at h' t key) = unfold m h (get_at h t key)
               \<and> unfold m h (get_at h t key) \<noteq> None" if tree: "is_tree (Suc m) h (Ref t)"
      proof -
        from tree obtain F where F: "reach (Suc m) h (Ref t) = Some F" "distinct F"
          unfolding is_tree_def by (auto split: option.splits)
        from untouched_subtree [OF p(1) dt du F key] obtain G where
          G: "reach m h (get_at h t key) = Some G" "set G \<inter> set W = {}" by blast
        have "\<forall>a \<in> set G. deref h' a = deref h a"
        proof
          fix a assume a: "a \<in> set G"
          from reach_valid [OF G(1) a] have v: "a < length h" .
          from a G(2) have "a \<notin> set W" by blast
          from f(2) [OF v this] v f(1) show "deref h' a = deref h a" by (simp add: deref_def)
        qed
        from unfold_agree [OF G(1) this] show ?thesis unfolding s by blast
      qed
      show "get_at h' t key = get_at h t key
            \<and> (is_tree (Suc m) h (Ref t) \<longrightarrow>
                 unfold m h' (get_at h' t key) = unfold m h (get_at h t key)
               \<and> unfold m h (get_at h t key) \<noteq> None)"
      proof (rule conjI)
        show "get_at h' t key = get_at h t key" by (rule s)
      next
        show "is_tree (Suc m) h (Ref t) \<longrightarrow>
                 unfold m h' (get_at h' t key) = unfold m h (get_at h t key)
               \<and> unfold m h (get_at h t key) \<noteq> None"
          by (rule impI) (rule d)
      qed
    qed
    from 1 2 show ?thesis by (rule conjI)
  qed
  have b': "separated n h t u \<and> deref h t = Some (JObject ps) \<and> deref h u = Some ob \<longrightarrow>
        (\<forall>h'. deepMerge L n h (Ref t) (Ref u) = Returned h' \<longrightarrow>
           (\<exists>ps'. deref h' t = Some (JObject ps')
              \<and> set (own_keys (JObject ps)) \<subseteq> set (own_keys (JObject ps')))
         \<and> (\<forall>key. key \<in> set (own_keys (JObject ps)) \<and> key \<notin> set (own_keys ob) \<longrightarrow>
               get_at h' t key = get_at h t key
             \<and> (is_tree (Suc m) h (Ref t) \<longrightarrow>
                  unfold m h' (get_at h' t key) = unfold m h (get_at h t key)
                \<and> unfold m h (get_at h t key) \<noteq> None)))"
  proof (intro impI allI)
    fix h'
    assume "separated n h t u \<and> deref h t = Some (JObject ps) \<and> deref h u = Some ob"
      and "deepMerge L n h (Ref t) (Ref u) = Returned h'"
    then show "(\<exists>ps'. deref h' t = Some (JObject ps')
              \<and> set (own_keys (JObject ps)) \<subseteq> set (own_keys (JObject ps')))
         \<and> (\<forall>key. key \<in> set (own_keys (JObject ps)) \<and> key \<notin> set (own_keys ob) \<longrightarrow>
               get_at h' t key = get_at h t key
             \<and> (is_tree (Suc m) h (Ref t) \<longrightarrow>
                  unfold m h' (get_at h' t key) = unfold m h (get_at h t key)
                \<and> unfold m h (get_at h t key) \<noteq> None))"
      using b by blast
  qed
  from a b' c show ?thesis by (intro conjI)
qed

text \<open>Merging \<open>{b: 2}\<close> into \<open>{a: {c: 1}, b: 7}\<close> keeps \<open>a\<close> and the document under it.\<close>

theorem merge_keeps_target_keys_witness:
  "separated (Suc 0)
     [JObject [(''a'', Ref 1), (''b'', Num 7)], JObject [(''c'', Num 1)], JObject [(''b'', Num 2)]] 0 2
   \<and> mappings_only (Suc 0)
     [JObject [(''a'', Ref 1), (''b'', Num 7)], JObject [(''c'', Num 1)], JObject [(''b'', Num 2)]] 0 2
   \<and> no_proto_key (Suc 0)
     [JObject [(''a'', Ref 1), (''b'', Num 7)], JObject [(''c'', Num 1)], JObject [(''b'', Num 2)]] 0 2
   \<and> is_tree (Suc (Suc 0))
     [JObject [(''a'', Ref 1), (''b'', Num 7)], JObject [(''c'', Num 1)], JObject [(''b'', Num 2)]] (Ref 0)
   \<and> deepMerge num_length (Suc 0)
     [JObject [(''a'', Ref 1), (''b'', Num 7)], JObject [(''c'', Num 1)], JObject [(''b'', Num 2)]]
     (Ref 0) (Ref 2)
     = Returned
     [JObject [(''a'', Ref 1), (''b'', Num 2)], JObject [(''c'', Num 1)], JObject [(''b'', Num 2)]]
   \<and> keeps_keys
     [JObject [(''a'', Ref 1), (''b'', Num 7)], JObject [(''c'', Num 1)], JObject [(''b'', Num 2)]]
     [JObject [(''a'', Ref 1), (''b'', Num 2)], JObject [(''c'', Num 1)], JObject [(''b'', Num 2)]]
   \<and> get_at
     [JObject [(''a'', Ref 1), (''b'', Num 2)], JObject [(''c'', Num 1)], JObject [(''b'', Num 2)]]
     0 ''a'' = Ref 1
   \<and> unfold (Suc 0)
     [JObject [(''a'', Ref 1), (''b'', Num 2)], JObject [(''c'', Num 1)], JObject [(''b'', Num 2)]]
     (Ref 1) = Some (ObjectT [(''c'', Prim (Num 1))])"
proof -
  let ?h = "[JObject [(''a'', Ref 1), (''b'', Num 7)], JObject [(''c'', Num 1)],
             JObject [(''b'', Num 2)]]"
  let ?h' = "[JObject [(''a'', Ref 1), (''b'', Num 2)], JObject [(''c'', Num 1)],
              JObject [(''b'', Num 2)]]"
  have s: "separated (Suc 0) ?h 0 2" by code_simp
  have mo: "mappings_only (Suc 0) ?h 0 2" by code_simp
  have np: "no_proto_key (Suc 0) ?h 0 2" by code_simp
  have tr: "is_tree (Suc (Suc 0)) ?h (Ref 0)" by code_simp
  have dt: "deref ?h 0 = Some (JObject [(''a'', Ref 1), (''b'', Num 7)])" by code_simp
  have du: "deref ?h 2 = Some (JObject [(''b'', Num 2)])" by code_simp
  have ka: "''a'' \<in> set (own_keys (JObject [(''a'', Ref 1), (''b'', Num 7)]))
      \<and> ''a'' \<notin> set (own_keys (JObject [(''b'', Num 2)]))" by simp
  have g: "get_at ?h 0 ''a'' = Ref 1" by code_simp
  have uf: "unfold (Suc 0) ?h (Ref 1) = Some (ObjectT [(''c'', Prim (Num 1))])" by code_simp
  have run: "deepMerge num_length (Suc 0) ?h (Ref 0) (Ref 2) = Returned ?h'"
    by code_simp
  note th = merge_keeps_target_keys [where L = num_length and n = "Suc 0" and h = ?h
      and target = "Ref 0" and obj = "Ref 2" and t = 0 and u = 2
      and ps = "[(''a'', Ref 1), (''b'', Num 7)]" and ob = "JObject [(''b'', Num 2)]"
      and m = "Suc 0"]
  from th [THEN conjunct1] run have kk: "keeps_keys ?h ?h'" by blast
  from th [THEN conjunct2, THEN conjunct1] s dt du run
  have "\<forall>key. key \<in> set (own_keys (JObject [(''a'', Ref 1), (''b'', Num 7)]))
            \<and> key \<notin> set (own_keys (JObject [(''b'', Num 2)])) \<longrightarrow>
          get_at ?h' 0 key = get_at ?h 0 key
        \<and> (is_tree (Suc (Suc 0)) ?h (Ref 0) \<longrightarrow>
             unfold (Suc 0) ?h' (get_at ?h' 0 key) = unfold (Suc 0) ?h (get_at ?h 0 key)
           \<and> unfold (Suc 0) ?h (get_at ?h 0 key) \<noteq> None)"
    by blast
  with ka tr have "get_at ?h' 0 ''a'' = get_at ?h 0 ''a''
     \<and> unfold (Suc 0) ?h' (get_at ?h' 0 ''a'') = unfold (Suc 0) ?h (get_at ?h 0 ''a'')"
    by blast
  then have e1: "get_at ?h' 0 ''a'' = get_at ?h 0 ''a''"
    and e2: "unfold (Suc 0) ?h' (get_at ?h' 0 ''a'') = unfold (Suc 0) ?h (get_at ?h 0 ''a'')"
    by (rule conjunct1, rule conjunct2)
  from e1 have g': "get_at ?h' 0 ''a'' = Ref 1" unfolding g .
  from e2 have "unfold (Suc 0) ?h' (Ref 1) = Some (ObjectT [(''c'', Prim (Num 1))])"
    unfolding g' g uf .
  with s mo np tr run kk g' show ?thesis by (intro conjI)
qed

text \<open>
  C3 as stated fails for a target that is an array: merging \<open>{length: 1}\<close> into
  \<open>[1, 2, 3]\<close> assigns the length and leaves \<open>[1]\<close>, so the keys \<open>1\<close> and \<open>2\<close>, which the
  incoming object does not have, are gone. The same happens in the nested call when
  \<open>{x: {length: 1}}\<close> is merged into \<open>{x: [1, 2, 3]}\<close>.
\<close>

theorem merge_keeps_target_keys_counterexample:
  "own_keys (JArray [Some (Num 1), Some (Num 2), Some (Num 3)] []) = [''0'', ''1'', ''2'']
   \<and> ''1'' \<notin> set (own_keys (JObject [(''length'', Num 1)]))
   \<and> num_length [] (Num 1) = Some 1
   \<and> deepMerge num_length (Suc 0)
        [JArray [Some (Num 1), Some (Num 2), Some (Num 3)] [], JObject [(''length'', Num 1)]]
        (Ref 0) (Ref 1)
       = Returned [JArray [Some (Num 1)] [], JObject [(''length'', Num 1)]]
   \<and> own_keys (JArray [Some (Num 1)] []) = [''0'']
   \<and> deepMerge num_length (Suc (Suc 0))
        [JObject [(''x'', Ref 1)], JArray [Some (Num 1), Some (Num 2), Some (Num 3)] [],
         JObject [(''x'', Ref 3)], JObject [(''length'', Num 1)]]
        (Ref 0) (Ref 2)
       = Returned [JObject [(''x'', Ref 1)], JArray [Some (Num 1)] [],
                   JObject [(''x'', Ref 3)], JObject [(''length'', Num 1)]]"
  by code_simp

section \<open>The key order of an object\<close>

lemma insert_index_sorted:
  assumes "sorted_wrt js_key_less (map fst ps)" and "array_index k = Some i"
    and "k \<notin> fst ` set ps"
  shows "sorted_wrt js_key_less (map fst (insert_index i k v ps))"
  using assms
proof (induction ps)
  case Nil
  then show ?case by simp
next
  case (Cons p ps)
  from Cons.prems have s: "sorted_wrt js_key_less (map fst ps)"
    and lt: "\<forall>q \<in> fst ` set ps. js_key_less (fst p) q"
    and new: "k \<noteq> fst p" "k \<notin> fst ` set ps" by auto
  show ?case
  proof (cases "array_index (fst p)")
    case None
    have "js_key_less k (fst p)" using None Cons.prems(2) by (simp add: js_key_less_def)
    moreover have "js_key_less k q" if "q \<in> fst ` set ps" for q
    proof -
      from lt that have "js_key_less (fst p) q" by blast
      with None have "array_index q = None"
        by (cases "array_index q") (simp_all add: js_key_less_def)
      with Cons.prems(2) show ?thesis by (simp add: js_key_less_def)
    qed
    ultimately show ?thesis using None Cons.prems(1) by auto
  next
    case (Some j)
    show ?thesis
    proof (cases "j < i")
      case True
      have "js_key_less (fst p) k" using Some True Cons.prems(2) by (simp add: js_key_less_def)
      with lt have "\<forall>q \<in> set (map fst (insert_index i k v ps)). js_key_less (fst p) q"
        by (auto simp: set_insert_index)
      with Cons.IH [OF s Cons.prems(2) new(2)] Some True show ?thesis by simp
    next
      case False
      have "i \<noteq> j"
      proof
        assume "i = j"
        with Some Cons.prems(2) have "k = fst p" by (auto intro: array_index_inj)
        with new(1) show False by simp
      qed
      with False have ij: "i < j" by simp
      then have "js_key_less k (fst p)" using Some Cons.prems(2) by (simp add: js_key_less_def)
      moreover have "js_key_less k q" if "q \<in> fst ` set ps" for q
      proof -
        from lt that have "js_key_less (fst p) q" by blast
        with Some ij Cons.prems(2) show ?thesis
          by (cases "array_index q") (auto simp: js_key_less_def)
      qed
      ultimately show ?thesis using Some False Cons.prems(1) by auto
    qed
  qed
qed

lemma put_prop_sorted:
  assumes "sorted_wrt js_key_less (map fst ps)" and "k \<notin> fst ` set ps"
    and "\<forall>q \<in> fst ` set ps. array_index q = None \<longrightarrow> q < k"
  shows "sorted_wrt js_key_less (map fst (put_prop k v ps))"
proof -
  from assms(2) have n: "map_of ps k = None" by (simp add: map_of_eq_None_iff)
  show ?thesis
  proof (cases "array_index k")
    case (Some i)
    with n insert_index_sorted [OF assms(1) Some assms(2)] show ?thesis
      by (simp add: put_prop_def)
  next
    case None
    have "js_key_less q k" if "q \<in> fst ` set ps" for q
      using that assms(3) None by (cases "array_index q") (auto simp: js_key_less_def)
    with assms(1) None n show ?thesis
      by (auto simp: put_prop_def sorted_wrt_append)
  qed
qed

lemma foldl_put_keys:
  "set (map fst (foldl (\<lambda>qs n. put_prop n (f n) qs) qs ns)) = set (map fst qs) \<union> set ns"
proof (induction ns arbitrary: qs)
  case Nil
  then show ?case by simp
next
  case (Cons n ns)
  show ?case unfolding foldl_Cons Cons.IH keys_put_prop by auto
qed

lemma foldl_put_distinct:
  "distinct (map fst qs) \<Longrightarrow> distinct (map fst (foldl (\<lambda>qs n. put_prop n (f n) qs) qs ns))"
  by (induction ns arbitrary: qs) (simp_all add: distinct_put_prop)

lemma foldl_put_lookup:
  "lookup_prop (foldl (\<lambda>qs n. put_prop n (f n) qs) qs ns) k
     = (if k \<in> set ns then f k else lookup_prop qs k)"
  by (induction ns arbitrary: qs) (auto simp: lookup_put_prop)

lemma foldl_put_sorted:
  assumes "sorted_wrt (<) ns" and "sorted_wrt js_key_less (map fst qs)"
    and "\<forall>q \<in> fst ` set qs. \<forall>n \<in> set ns. q \<noteq> n \<and> (array_index q = None \<longrightarrow> q < n)"
  shows "sorted_wrt js_key_less (map fst (foldl (\<lambda>qs n. put_prop n (f n) qs) qs ns))"
  using assms
proof (induction ns arbitrary: qs)
  case Nil
  then show ?case by simp
next
  case (Cons n ns)
  from Cons.prems(1) have s: "sorted_wrt (<) ns" and lt: "\<forall>m \<in> set ns. n < m" by auto
  from Cons.prems(3) have new: "n \<notin> fst ` set qs"
    and le: "\<forall>q \<in> fst ` set qs. array_index q = None \<longrightarrow> q < n" by auto
  have 1: "sorted_wrt js_key_less (map fst (put_prop n (f n) qs))"
    by (rule put_prop_sorted [OF Cons.prems(2) new le])
  have k: "fst ` set (put_prop n (f n) qs) = insert n (fst ` set qs)"
    using keys_put_prop [of n "f n" qs] by simp
  have 2: "\<forall>q \<in> fst ` set (put_prop n (f n) qs). \<forall>m \<in> set ns.
             q \<noteq> m \<and> (array_index q = None \<longrightarrow> q < m)"
    unfolding k using lt Cons.prems(3) by auto
  from Cons.IH [OF s 1 2] show ?case by simp
qed

lemma foldl_put_append:
  "\<forall>n \<in> set ns. array_index n = None \<Longrightarrow> distinct ns \<Longrightarrow> set ns \<inter> fst ` set qs = {} \<Longrightarrow>
   foldl (\<lambda>qs n. put_prop n (f n) qs) qs ns = qs @ map (\<lambda>n. (n, f n)) ns"
proof (induction ns arbitrary: qs)
  case Nil
  then show ?case by simp
next
  case (Cons n ns)
  from Cons.prems(3) have "map_of qs n = None" by (auto simp: map_of_eq_None_iff)
  with Cons.prems(1) have p: "put_prop n (f n) qs = qs @ [(n, f n)]" by (simp add: put_prop_def)
  have "foldl (\<lambda>qs n. put_prop n (f n) qs) (qs @ [(n, f n)]) ns
      = (qs @ [(n, f n)]) @ map (\<lambda>n. (n, f n)) ns"
    using Cons.prems by (intro Cons.IH) auto
  with p show ?case by simp
qed

lemma sorted_entries_props:
  assumes "distinct (map fst ds)"
  shows "distinct (map fst (sorted_entries ds))"
    and "set (map fst (sorted_entries ds)) = set (map fst ds)"
    and "lookup_prop (sorted_entries ds) k = lookup_prop ds k"
    and "sorted_wrt js_key_less (map fst (sorted_entries ds))"
    and "\<forall>k \<in> set (map fst ds). array_index k = None \<Longrightarrow>
         map fst (sorted_entries ds) = sort (map fst ds)"
proof -
  show "distinct (map fst (sorted_entries ds))"
    unfolding sorted_entries_def by (rule foldl_put_distinct) simp
  show "set (map fst (sorted_entries ds)) = set (map fst ds)"
    unfolding sorted_entries_def foldl_put_keys by simp
  show "lookup_prop (sorted_entries ds) k = lookup_prop ds k"
  proof (cases "k \<in> set (map fst ds)")
    case True
    then show ?thesis unfolding sorted_entries_def foldl_put_lookup by simp
  next
    case False
    then have "map_of ds k = None" by (simp add: map_of_eq_None_iff)
    with False show ?thesis unfolding sorted_entries_def foldl_put_lookup
      by (simp add: lookup_prop_def)
  qed
  from assms have "sorted_wrt (<) (sort (map fst ds))"
    by (simp add: strict_sorted_iff)
  then show "sorted_wrt js_key_less (map fst (sorted_entries ds))"
    unfolding sorted_entries_def by (rule foldl_put_sorted) simp_all
  assume "\<forall>k \<in> set (map fst ds). array_index k = None"
  with assms have "foldl (\<lambda>qs name. put_prop name (lookup_prop ds name) qs) [] (sort (map fst ds))
     = [] @ map (\<lambda>n. (n, lookup_prop ds n)) (sort (map fst ds))"
    by (intro foldl_put_append) simp_all
  then show "map fst (sorted_entries ds) = sort (map fst ds)"
    unfolding sorted_entries_def by (simp add: comp_def)
qed

lemma insert_index_last:
  "\<forall>p \<in> set ps. \<exists>j. array_index (fst p) = Some j \<and> j < i \<Longrightarrow>
   insert_index i k v ps = ps @ [(k, v)]"
  by (induction ps) auto

lemma canonical_rebuild_pairs:
  "canonical ps \<Longrightarrow> foldl (\<lambda>qs p. put_prop (fst p) (snd p) qs) [] ps = ps"
proof (induction ps rule: rev_induct)
  case Nil
  then show ?case by simp
next
  case (snoc x xs)
  from snoc.prems have c: "canonical xs" and new: "fst x \<notin> fst ` set xs"
    and o: "\<forall>q \<in> fst ` set xs. index_first q (fst x)"
    by (auto simp: canonical_def sorted_wrt_append)
  from new have n: "map_of xs (fst x) = None" by (simp add: map_of_eq_None_iff)
  have "put_prop (fst x) (snd x) xs = xs @ [x]"
  proof (cases "array_index (fst x)")
    case None
    with n show ?thesis by (simp add: put_prop_def)
  next
    case (Some i)
    have "\<forall>p \<in> set xs. \<exists>j. array_index (fst p) = Some j \<and> j < i"
    proof
      fix p assume "p \<in> set xs"
      with o have "index_first (fst p) (fst x)" by auto
      with Some show "\<exists>j. array_index (fst p) = Some j \<and> j < i"
        by (cases "array_index (fst p)") (simp_all add: index_first_def)
    qed
    from insert_index_last [OF this] Some n show ?thesis by (simp add: put_prop_def)
  qed
  with snoc.IH [OF c] show ?case by simp
qed

lemma foldl_cong_set:
  "\<forall>x \<in> set xs. \<forall>a. f a x = g a x \<Longrightarrow> foldl f a xs = foldl g a xs"
  by (induction xs arbitrary: a) simp_all

lemma canonical_rebuild:
  assumes "canonical ps"
  shows "foldl (\<lambda>qs k. put_prop k (lookup_prop ps k) qs) [] (map fst ps) = ps"
proof -
  from assms have d: "distinct (map fst ps)" by (simp add: canonical_def)
  have "foldl (\<lambda>qs k. put_prop k (lookup_prop ps k) qs) [] (map fst ps)
      = foldl (\<lambda>qs p. put_prop (fst p) (lookup_prop ps (fst p)) qs) [] ps"
    by (simp add: foldl_map)
  also have "\<dots> = foldl (\<lambda>qs p. put_prop (fst p) (snd p) qs) [] ps"
  proof (rule foldl_cong_set, intro ballI allI)
    fix p a assume "p \<in> set ps"
    with d have "map_of ps (fst p) = Some (snd p)" by (cases p) simp
    then show "put_prop (fst p) (lookup_prop ps (fst p)) a = put_prop (fst p) (snd p) a"
      by (simp add: lookup_prop_def)
  qed
  also have "\<dots> = ps" by (rule canonical_rebuild_pairs [OF assms])
  finally show ?thesis .
qed

section \<open>sortDependencies\<close>

lemma get_at_update_other:
  "a \<noteq> b \<Longrightarrow> get_at (h[b := ob]) a k = get_at h a k"
  by (simp add: get_at_def deref_def)

lemma get_at_object: "a < length h \<Longrightarrow> h ! a = JObject ps \<Longrightarrow> get_at h a k = lookup_prop ps k"
  by (simp add: get_at_def deref_def)

lemma copyNames_result:
  assumes "t < length h" and "s < length h" and "e < length h" and "d < length h"
    and "e \<noteq> t" and "e \<noteq> s" and "e \<noteq> d"
    and "get_at h s depType = Ref e" and "get_at h t depType = Ref d"
    and "h ! d = JObject ds" and "h ! e = JObject qs"
    and "depType \<noteq> ''__proto__''" and "''__proto__'' \<notin> set names"
  shows "copyNames L h (Ref t) (Ref s) depType names
       = Returned (h[e := JObject (foldl (\<lambda>qs name. put_prop name (lookup_prop ds name) qs) qs names)])"
  using assms
proof (induction names arbitrary: h qs)
  case Nil
  then show ?case by (simp add: list_update_same_conv [THEN iffD2])
next
  case (Cons name names)
  note p = Cons.prems
  let ?x = "lookup_prop ds name"
  let ?h1 = "h[e := JObject (put_prop name ?x qs)]"
  from p(13) have nn: "name \<noteq> ''__proto__''" "''__proto__'' \<notin> set names" by auto
  have 1: "get_val h (Ref s) depType = Returned (Ref e)" using p(8,12) by (simp add: get_val_plain)
  have 2: "get_val h (Ref t) depType = Returned (Ref d)" using p(9,12) by (simp add: get_val_plain)
  have 3: "get_val h (Ref d) name = Returned ?x"
    using nn(1) get_at_object [OF p(4,10)] by (simp add: get_val_plain)
  have 4: "set_val L h (Ref e) name ?x = Returned ?h1"
    using nn(1) set_at_object_Returned [OF p(3,11)] by (simp add: set_val_plain)
  have ih: "copyNames L ?h1 (Ref t) (Ref s) depType names
       = Returned (?h1[e := JObject (foldl (\<lambda>qs name. put_prop name (lookup_prop ds name) qs)
                                       (put_prop name ?x qs) names)])"
  proof (rule Cons.IH)
    show "t < length ?h1" "s < length ?h1" "e < length ?h1" "d < length ?h1"
      using p(1-4) by simp_all
    show "e \<noteq> t" "e \<noteq> s" "e \<noteq> d" by (rule p(5) p(6) p(7))+
    show "get_at ?h1 s depType = Ref e" using p(6,8) by (simp add: get_at_update_other)
    show "get_at ?h1 t depType = Ref d" using p(5,9) by (simp add: get_at_update_other)
    show "?h1 ! d = JObject ds" using p(7,10) by simp
    show "?h1 ! e = JObject (put_prop name ?x qs)" using p(3) by simp
    show "depType \<noteq> ''__proto__''" by (rule p(12))
    show "''__proto__'' \<notin> set names" by (rule nn(2))
  qed
  show ?case by (simp add: 1 2 3 4 ih)
qed

lemma put_prop_new_plain:
  "k \<notin> fst ` set ps \<Longrightarrow> array_index k = None \<Longrightarrow> put_prop k v ps = ps @ [(k, v)]"
  by (simp add: put_prop_def map_of_eq_None_iff)

lemma sortLoop_result:
  assumes "t < N" and "N < length h" and "h ! N = JObject sps"
    and "\<forall>k \<in> set rest. (\<exists>d ds. get_at h t k = Ref d \<and> d < N \<and> h ! d = JObject ds
                               \<and> ''__proto__'' \<notin> set (map fst ds))
                           \<or> \<not> truthy (get_at h t k)"
    and "distinct rest" and "\<forall>k \<in> set rest. array_index k = None \<and> k \<noteq> ''__proto__''"
    and "set rest \<inter> fst ` set sps = {}"
  shows "\<exists>h' sps'. sortLoop L h (Ref t) (Ref N) rest = Returned h'
       \<and> length h \<le> length h' \<and> (\<forall>a < length h. a \<noteq> N \<longrightarrow> h' ! a = h ! a)
       \<and> h' ! N = JObject sps'
       \<and> map fst sps' = map fst sps @ filter (\<lambda>k. truthy (get_at h t k)) rest
       \<and> (\<forall>k. k \<notin> set rest \<longrightarrow> lookup_prop sps' k = lookup_prop sps k)
       \<and> (\<forall>k \<in> set rest. truthy (get_at h t k) \<longrightarrow>
            (\<exists>e d ds. lookup_prop sps' k = Ref e \<and> length h \<le> e \<and> e < length h'
                \<and> get_at h t k = Ref d \<and> h ! d = JObject ds
                \<and> h' ! e = JObject (sorted_entries ds)))"
  using assms
proof (induction rest arbitrary: h sps)
  case Nil
  then show ?case by simp
next
  case (Cons depType rest)
  note p = Cons.prems
  from p(5) have dr: "distinct rest" "depType \<notin> set rest" by auto
  from p(6) have pl: "array_index depType = None" "depType \<noteq> ''__proto__''"
    and plr: "\<forall>k \<in> set rest. array_index k = None \<and> k \<noteq> ''__proto__''" by auto
  from p(7) have nk: "depType \<notin> fst ` set sps" "set rest \<inter> fst ` set sps = {}" by auto
  have tl: "t < length h" "t \<noteq> N" using p(1,2) by auto
  have gv: "get_val h (Ref t) depType = Returned (get_at h t depType)"
    using pl(2) by (simp add: get_val_plain)
  show ?case
  proof (cases "truthy (get_at h t depType)")
    case False
    from p(4) have f: "\<forall>k \<in> set rest. (\<exists>d ds. get_at h t k = Ref d \<and> d < N \<and> h ! d = JObject ds
                               \<and> ''__proto__'' \<notin> set (map fst ds))
                           \<or> \<not> truthy (get_at h t k)" by simp
    from Cons.IH [OF p(1,2,3) f dr(1) plr nk(2)] obtain h' sps' where
      r: "sortLoop L h (Ref t) (Ref N) rest = Returned h'"
        "length h \<le> length h'" "\<forall>a < length h. a \<noteq> N \<longrightarrow> h' ! a = h ! a"
        "h' ! N = JObject sps'"
        "map fst sps' = map fst sps @ filter (\<lambda>k. truthy (get_at h t k)) rest"
        "\<forall>k. k \<notin> set rest \<longrightarrow> lookup_prop sps' k = lookup_prop sps k"
        "\<forall>k \<in> set rest. truthy (get_at h t k) \<longrightarrow>
            (\<exists>e d ds. lookup_prop sps' k = Ref e \<and> length h \<le> e \<and> e < length h'
                \<and> get_at h t k = Ref d \<and> h ! d = JObject ds
                \<and> h' ! e = JObject (sorted_entries ds))"
      by blast
    have run: "sortLoop L h (Ref t) (Ref N) (depType # rest) = Returned h'"
      using False r(1) by (simp add: gv)
    have 5: "map fst sps' = map fst sps @ filter (\<lambda>k. truthy (get_at h t k)) (depType # rest)"
      using False r(5) by simp
    have 6: "\<forall>k. k \<notin> set (depType # rest) \<longrightarrow> lookup_prop sps' k = lookup_prop sps k"
      using r(6) by simp
    have 7: "\<forall>k \<in> set (depType # rest). truthy (get_at h t k) \<longrightarrow>
            (\<exists>e d ds. lookup_prop sps' k = Ref e \<and> length h \<le> e \<and> e < length h'
                \<and> get_at h t k = Ref d \<and> h ! d = JObject ds
                \<and> h' ! e = JObject (sorted_entries ds))"
      using False r(7) by simp
    from run r(2,3,4) 5 6 7 show ?thesis by blast
  next
    case True
    with p(4) obtain d ds where d: "get_at h t depType = Ref d" "d < N" "h ! d = JObject ds"
      "''__proto__'' \<notin> set (map fst ds)" by auto
    let ?e = "length h"
    let ?h1 = "h @ [JObject []]"
    let ?sps1 = "put_prop depType (Ref ?e) sps"
    let ?h2 = "?h1[N := JObject ?sps1]"
    let ?h3 = "?h2[?e := JObject (sorted_entries ds)]"
    have dl: "d < length h" "d \<noteq> N" "d \<noteq> ?e" using d(2) p(2) by auto
    have h1N: "N < length ?h1" "?h1 ! N = JObject sps" using p(2,3) by (simp_all add: nth_append)
    have sv: "set_val L ?h1 (Ref N) depType (Ref ?e) = Returned ?h2"
      using pl(2) set_at_object_Returned [OF h1N] by (simp add: set_val_plain)
    have g2t: "get_at ?h2 t k = get_at h t k" for k
      using tl by (simp add: get_at_update_other get_at_def deref_def nth_append)
    have gv2: "get_val ?h2 (Ref t) depType = Returned (Ref d)"
      using pl(2) g2t d(1) by (simp add: get_val_plain)
    have h2d: "?h2 ! d = JObject ds" using dl d(3) by (simp add: nth_append)
    have ko: "keys_of ?h2 (Ref d) = Returned (map fst ds)"
      using dl h2d by (simp add: deref_def)
    have sp1: "?sps1 = sps @ [(depType, Ref ?e)]"
      by (rule put_prop_new_plain [OF nk(1) pl(1)])
    have cn: "copyNames L ?h2 (Ref t) (Ref N) depType (sort (map fst ds)) = Returned ?h3"
    proof -
      have "copyNames L ?h2 (Ref t) (Ref N) depType (sort (map fst ds))
          = Returned (?h2[?e := JObject (foldl (\<lambda>qs name. put_prop name (lookup_prop ds name) qs)
                                          [] (sort (map fst ds)))])"
      proof (rule copyNames_result)
        show "t < length ?h2" "N < length ?h2" "?e < length ?h2" "d < length ?h2"
          using tl p(2) dl by simp_all
        show "?e \<noteq> t" "?e \<noteq> N" "?e \<noteq> d" using tl p(2) dl by simp_all
        show "get_at ?h2 N depType = Ref ?e"
          using p(2) by (simp add: get_at_def deref_def lookup_put_prop)
        show "get_at ?h2 t depType = Ref d" using g2t d(1) by simp
        show "?h2 ! d = JObject ds" by (rule h2d)
        show "?h2 ! ?e = JObject []" using p(2) by (simp add: nth_append)
        show "depType \<noteq> ''__proto__''" by (rule pl(2))
        show "''__proto__'' \<notin> set (sort (map fst ds))" using d(4) by simp
      qed
      then show ?thesis by (simp add: sorted_entries_def)
    qed
    have l3: "length ?h3 = Suc (length h)" by simp
    have h3old: "?h3 ! a = h ! a" if "a < length h" "a \<noteq> N" for a
      using that by (simp add: nth_append)
    have h3N: "?h3 ! N = JObject ?sps1" using p(2) by (simp add: nth_append)
    have h3e: "?h3 ! ?e = JObject (sorted_entries ds)" by simp
    have g3t: "get_at ?h3 t k = get_at h t k" for k
      using tl h3old [of t] by (simp add: get_at_def deref_def)
    have f3: "\<forall>k \<in> set rest. (\<exists>d ds. get_at ?h3 t k = Ref d \<and> d < N \<and> ?h3 ! d = JObject ds
                               \<and> ''__proto__'' \<notin> set (map fst ds))
                           \<or> \<not> truthy (get_at ?h3 t k)"
    proof
      fix k assume k: "k \<in> set rest"
      with p(4) have "(\<exists>d ds. get_at h t k = Ref d \<and> d < N \<and> h ! d = JObject ds
                               \<and> ''__proto__'' \<notin> set (map fst ds))
                           \<or> \<not> truthy (get_at h t k)" by simp
      then show "(\<exists>d ds. get_at ?h3 t k = Ref d \<and> d < N \<and> ?h3 ! d = JObject ds
                               \<and> ''__proto__'' \<notin> set (map fst ds))
                           \<or> \<not> truthy (get_at ?h3 t k)"
      proof
        assume "\<exists>d ds. get_at h t k = Ref d \<and> d < N \<and> h ! d = JObject ds
                               \<and> ''__proto__'' \<notin> set (map fst ds)"
        then obtain d' ds' where x: "get_at h t k = Ref d'" "d' < N" "h ! d' = JObject ds'"
          "''__proto__'' \<notin> set (map fst ds')" by blast
        from x(2) p(2) have "?h3 ! d' = h ! d'" by (intro h3old) auto
        with x g3t [of k] show ?thesis by auto
      next
        assume "\<not> truthy (get_at h t k)"
        then show ?thesis unfolding g3t by blast
      qed
    qed
    have nk3: "set rest \<inter> fst ` set ?sps1 = {}"
      using nk(2) dr(2) unfolding sp1 by auto
    have N3: "N < length ?h3" using p(2) by simp
    from Cons.IH [OF p(1) N3 h3N f3 dr(1) plr nk3] obtain h' sps' where
      r: "sortLoop L ?h3 (Ref t) (Ref N) rest = Returned h'"
        "length ?h3 \<le> length h'" "\<forall>a < length ?h3. a \<noteq> N \<longrightarrow> h' ! a = ?h3 ! a"
        "h' ! N = JObject sps'"
        "map fst sps' = map fst ?sps1 @ filter (\<lambda>k. truthy (get_at ?h3 t k)) rest"
        "\<forall>k. k \<notin> set rest \<longrightarrow> lookup_prop sps' k = lookup_prop ?sps1 k"
        "\<forall>k \<in> set rest. truthy (get_at ?h3 t k) \<longrightarrow>
            (\<exists>e d ds. lookup_prop sps' k = Ref e \<and> length ?h3 \<le> e \<and> e < length h'
                \<and> get_at ?h3 t k = Ref d \<and> ?h3 ! d = JObject ds
                \<and> h' ! e = JObject (sorted_entries ds))"
      by blast
    have run: "sortLoop L h (Ref t) (Ref N) (depType # rest) = Returned h'"
      using True r(1) by (simp add: gv alloc_def sv gv2 ko cn del: keys_of.simps)
    have 2: "length h \<le> length h'" using r(2) by simp
    have 3: "\<forall>a < length h. a \<noteq> N \<longrightarrow> h' ! a = h ! a"
    proof (intro allI impI)
      fix a assume a: "a < length h" "a \<noteq> N"
      then have "h' ! a = ?h3 ! a" using r(3) by simp
      with h3old [OF a] show "h' ! a = h ! a" by simp
    qed
    have fl: "filter (\<lambda>k. truthy (get_at ?h3 t k)) rest = filter (\<lambda>k. truthy (get_at h t k)) rest"
      unfolding g3t ..
    have ks1: "map fst ?sps1 = map fst sps @ [depType]" unfolding sp1 by simp
    have 5: "map fst sps' = map fst sps @ filter (\<lambda>k. truthy (get_at h t k)) (depType # rest)"
      using True unfolding r(5) fl ks1 by simp
    have 6: "\<forall>k. k \<notin> set (depType # rest) \<longrightarrow> lookup_prop sps' k = lookup_prop sps k"
      using r(6) by (simp add: lookup_put_prop)
    have e': "?e < length h'" "h' ! ?e = JObject (sorted_entries ds)"
      using r(2,3) p(2) h3e by auto
    have 7: "\<forall>k \<in> set (depType # rest). truthy (get_at h t k) \<longrightarrow>
            (\<exists>e d ds. lookup_prop sps' k = Ref e \<and> length h \<le> e \<and> e < length h'
                \<and> get_at h t k = Ref d \<and> h ! d = JObject ds
                \<and> h' ! e = JObject (sorted_entries ds))"
    proof (intro ballI impI)
      fix k assume k: "k \<in> set (depType # rest)" and tr: "truthy (get_at h t k)"
      show "\<exists>e d ds. lookup_prop sps' k = Ref e \<and> length h \<le> e \<and> e < length h'
                \<and> get_at h t k = Ref d \<and> h ! d = JObject ds
                \<and> h' ! e = JObject (sorted_entries ds)"
      proof (cases "k = depType")
        case True
        with dr(2) r(6) have "lookup_prop sps' k = Ref ?e" by (simp add: lookup_put_prop)
        with True d(1,3) e' show ?thesis by auto
      next
        case False
        with k have kr: "k \<in> set rest" by simp
        with r(7) tr obtain e d' ds' where x: "lookup_prop sps' k = Ref e" "length ?h3 \<le> e"
          "e < length h'" "get_at ?h3 t k = Ref d'" "?h3 ! d' = JObject ds'"
          "h' ! e = JObject (sorted_entries ds')" unfolding g3t by blast
        from kr p(4) tr x(4) have "d' < N" unfolding g3t by auto
        with p(2) have "?h3 ! d' = h ! d'" by (intro h3old) auto
        with x show ?thesis unfolding g3t by auto
      qed
    qed
    from run 2 3 r(4) 5 6 7 show ?thesis by blast
  qed
qed

lemma depTypes_plain:
  "distinct depTypes" "\<forall>k \<in> set depTypes. array_index k = None \<and> k \<noteq> ''__proto__''"
  by (simp_all add: depTypes_def array_index_def is_digit_def)

lemma foldl_put_keys_existing:
  "set ks \<subseteq> fst ` set ps \<Longrightarrow>
   map fst (foldl (\<lambda>qs n. put_prop n (f n) qs) ps ks) = map fst ps"
proof (induction ks arbitrary: ps)
  case Nil
  then show ?case by simp
next
  case (Cons k ks)
  from Cons.prems have "map_of ps k \<noteq> None" by (auto simp: map_of_eq_None_iff)
  then have e: "map fst (put_prop k (f k) ps) = map fst ps" by (rule put_prop_keys_existing)
  then have "fst ` set (put_prop k (f k) ps) = fst ` set ps" by (metis list.set_map)
  with Cons.prems have "set ks \<subseteq> fst ` set (put_prop k (f k) ps)" by simp
  from Cons.IH [OF this] e show ?case by simp
qed

lemma prop_of_own:
  "a < length h \<Longrightarrow> h ! a = JObject ps \<Longrightarrow> k \<in> set (map fst ps) \<Longrightarrow>
   prop_of h (Ref a) k = lookup_prop ps k"
  by (simp add: prop_of_def get_val_def reaches_prototype_def owns_key_def deref_def get_at_def)

lemma spread_props_object:
  assumes "a < length h" and "h ! a = JObject ps"
  shows "spread_props h (Ref a) qs
       = Returned (foldl (\<lambda>qs k. put_prop k (lookup_prop ps k) qs) qs (map fst ps))"
proof -
  have "foldl (\<lambda>qs k. put_prop k (prop_of h (Ref a) k) qs) qs (map fst ps)
      = foldl (\<lambda>qs k. put_prop k (lookup_prop ps k) qs) qs (map fst ps)"
    by (rule foldl_cong_set) (simp add: prop_of_own [OF assms])
  with assms show ?thesis by (simp add: spread_props_def deref_def)
qed

lemma sortDependencies_result:
  assumes "deref h t = Some (JObject ps)" and "canonical ps" and "dep_fields_mappings h t"
  shows "\<exists>r h'. sortDependencies L h (Ref t) = Returned (Ref r, h')
       \<and> length h \<le> r \<and> (\<forall>a < length h. h' ! a = h ! a) \<and> length h \<le> length h'
       \<and> (\<exists>ps'. deref h' r = Some (JObject ps') \<and> map fst ps' = map fst ps
            \<and> (\<forall>k. k \<notin> set depTypes \<or> \<not> truthy (lookup_prop ps k) \<longrightarrow>
                  lookup_prop ps' k = lookup_prop ps k)
            \<and> (\<forall>k \<in> set depTypes. truthy (lookup_prop ps k) \<longrightarrow>
                  (\<exists>d ds e. lookup_prop ps k = Ref d \<and> deref h d = Some (JObject ds)
                      \<and> lookup_prop ps' k = Ref e \<and> length h \<le> e
                      \<and> deref h' e = Some (JObject (sorted_entries ds)))))"
proof -
  let ?N = "length h"
  let ?h1 = "h @ [JObject []]"
  from assms(1) have t: "t < ?N" "h ! t = JObject ps" by (auto simp: deref_def split: if_splits)
  have gt: "get_at h t k = lookup_prop ps k" for k by (rule get_at_object [OF t])
  have g1: "get_at ?h1 t k = lookup_prop ps k" for k
    using t by (simp add: get_at_def deref_def nth_append)
  have F: "(\<exists>d ds. lookup_prop ps k = Ref d \<and> d < ?N \<and> h ! d = JObject ds
                \<and> ''__proto__'' \<notin> set (map fst ds))
           \<or> \<not> truthy (lookup_prop ps k)" if k: "k \<in> set depTypes" for k
  proof (cases "lookup_prop ps k")
    case (Ref d)
    with assms(3) k have "case deref h d of
        Some (JObject ds) \<Rightarrow> distinct (map fst ds) \<and> ''__proto__'' \<notin> set (map fst ds)
      | _ \<Rightarrow> False"
      by (auto simp: dep_fields_mappings_def list_all_iff gt)
    then obtain ds where "deref h d = Some (JObject ds)" "''__proto__'' \<notin> set (map fst ds)"
      by (auto split: option.splits jsobj.splits)
    with Ref show ?thesis by (auto simp: deref_def split: if_splits)
  qed (use assms(3) k in \<open>auto simp: dep_fields_mappings_def list_all_iff gt\<close>)
  have F1: "\<forall>k \<in> set depTypes. (\<exists>d ds. get_at ?h1 t k = Ref d \<and> d < ?N \<and> ?h1 ! d = JObject ds
                               \<and> ''__proto__'' \<notin> set (map fst ds))
                           \<or> \<not> truthy (get_at ?h1 t k)"
  proof
    fix k assume "k \<in> set depTypes"
    from F [OF this] show "(\<exists>d ds. get_at ?h1 t k = Ref d \<and> d < ?N \<and> ?h1 ! d = JObject ds
                               \<and> ''__proto__'' \<notin> set (map fst ds))
                           \<or> \<not> truthy (get_at ?h1 t k)"
      unfolding g1 by (auto simp: nth_append)
  qed
  have N1: "?N < length ?h1" by simp
  have h1N: "?h1 ! ?N = JObject []" by simp
  have emp: "set depTypes \<inter> fst ` set ([] :: (string \<times> jsval) list) = {}" by simp
  note sl = sortLoop_result [OF t(1) N1 h1N F1 depTypes_plain(1) depTypes_plain(2) emp, of L]
  from sl obtain h2 sps' where
    r: "sortLoop L ?h1 (Ref t) (Ref ?N) depTypes = Returned h2"
      "length ?h1 \<le> length h2" "\<forall>a < length ?h1. a \<noteq> ?N \<longrightarrow> h2 ! a = ?h1 ! a"
      "h2 ! ?N = JObject sps'"
      "map fst sps' = filter (\<lambda>k. truthy (lookup_prop ps k)) depTypes"
      "\<forall>k \<in> set depTypes. truthy (lookup_prop ps k) \<longrightarrow>
            (\<exists>e d ds. lookup_prop sps' k = Ref e \<and> length ?h1 \<le> e \<and> e < length h2
                \<and> lookup_prop ps k = Ref d \<and> ?h1 ! d = JObject ds
                \<and> h2 ! e = JObject (sorted_entries ds))"
    unfolding g1 by auto
  have old: "h2 ! a = h ! a" if "a < ?N" for a
    using that r(3) by (simp add: nth_append)
  have h2t: "t < length h2" "h2 ! t = JObject ps" using t r(2) old [of t] by simp_all
  have h2N: "?N < length h2" using r(2) by simp
  have s1: "spread_props h2 (Ref t) [] = Returned ps"
    unfolding spread_props_object [OF h2t] canonical_rebuild [OF assms(2)] ..
  let ?ps2 = "foldl (\<lambda>qs k. put_prop k (lookup_prop sps' k) qs) ps (map fst sps')"
  have s2: "spread_props h2 (Ref ?N) ps = Returned ?ps2"
    by (rule spread_props_object [OF h2N r(4)])
  let ?r = "length h2"
  let ?h3 = "h2 @ [JObject ?ps2]"
  have run: "sortDependencies L h (Ref t) = Returned (Ref ?r, ?h3)"
    by (simp add: sortDependencies_def alloc_def r(1) s1 s2)
  have sub: "set (map fst sps') \<subseteq> fst ` set ps"
  proof
    fix k assume "k \<in> set (map fst sps')"
    then have "truthy (lookup_prop ps k)" unfolding r(5) by simp
    then have "map_of ps k \<noteq> None" by (cases "map_of ps k") (simp_all add: lookup_prop_def)
    then show "k \<in> fst ` set ps" by (simp add: map_of_eq_None_iff)
  qed
  have k2: "map fst ?ps2 = map fst ps" by (rule foldl_put_keys_existing [OF sub])
  have l2: "lookup_prop ?ps2 k = (if k \<in> set (map fst sps') then lookup_prop sps' k
      else lookup_prop ps k)" for k
    by (rule foldl_put_lookup)
  have a: "\<forall>k. k \<notin> set depTypes \<or> \<not> truthy (lookup_prop ps k) \<longrightarrow>
                  lookup_prop ?ps2 k = lookup_prop ps k"
    by (auto simp: foldl_put_lookup r(5))
  have b: "\<forall>k \<in> set depTypes. truthy (lookup_prop ps k) \<longrightarrow>
                  (\<exists>d ds e. lookup_prop ps k = Ref d \<and> deref h d = Some (JObject ds)
                      \<and> lookup_prop ?ps2 k = Ref e \<and> length h \<le> e
                      \<and> deref ?h3 e = Some (JObject (sorted_entries ds)))"
  proof (intro ballI impI)
    fix k assume k: "k \<in> set depTypes" and tr: "truthy (lookup_prop ps k)"
    with r(6) obtain e d ds where x: "lookup_prop sps' k = Ref e" "length ?h1 \<le> e"
      "e < length h2" "lookup_prop ps k = Ref d" "?h1 ! d = JObject ds"
      "h2 ! e = JObject (sorted_entries ds)" by blast
    from F [OF k] x(4) have "d < ?N" by auto
    with x(5) have d: "deref h d = Some (JObject ds)" by (simp add: deref_def nth_append)
    from k tr have "lookup_prop ?ps2 k = Ref e" by (simp add: foldl_put_lookup r(5) x(1))
    moreover from x(3,6) have "deref ?h3 e = Some (JObject (sorted_entries ds))"
      by (simp add: deref_def nth_append)
    moreover from x(2) have "length h \<le> e" by simp
    ultimately show "\<exists>d ds e. lookup_prop ps k = Ref d \<and> deref h d = Some (JObject ds)
                      \<and> lookup_prop ?ps2 k = Ref e \<and> length h \<le> e
                      \<and> deref ?h3 e = Some (JObject (sorted_entries ds))"
      using x(4) d by blast
  qed
  have c: "deref ?h3 ?r = Some (JObject ?ps2)" by (simp add: deref_def)
  have fr: "\<forall>a < length h. ?h3 ! a = h ! a"
    using old r(2) by (simp add: nth_append)
  have lr: "length h \<le> ?r" "length h \<le> length ?h3" using r(2) by simp_all
  from c k2 a b have "\<exists>ps'. deref ?h3 ?r = Some (JObject ps') \<and> map fst ps' = map fst ps
            \<and> (\<forall>k. k \<notin> set depTypes \<or> \<not> truthy (lookup_prop ps k) \<longrightarrow>
                  lookup_prop ps' k = lookup_prop ps k)
            \<and> (\<forall>k \<in> set depTypes. truthy (lookup_prop ps k) \<longrightarrow>
                  (\<exists>d ds e. lookup_prop ps k = Ref d \<and> deref h d = Some (JObject ds)
                      \<and> lookup_prop ps' k = Ref e \<and> length h \<le> e
                      \<and> deref ?h3 e = Some (JObject (sorted_entries ds))))"
    by blast
  with run lr fr show ?thesis by blast
qed

lemma dep_field_distinct:
  assumes "dep_fields_mappings h t" and "k \<in> set depTypes" and "get_at h t k = Ref d"
    and "deref h d = Some (JObject ds)"
  shows "distinct (map fst ds)"
  using assms by (auto simp: dep_fields_mappings_def list_all_iff)

text \<open>
  C2, as amended. Let \<open>src\<close> be a file named \<open>package.json\<close> and let \<open>dest\<close> exist; let
  both be readable and parse as JSON, to the objects \<open>t\<close> and \<open>u\<close>; let the merge of \<open>u\<close>
  into \<open>t\<close> return; and let the merged document be a plain mapping with its keys as
  JavaScript keeps them, in which each of the four dependency fields is falsy or a plain
  mapping with no name \<open>__proto__\<close>. Then renderTemplate reads \<open>dest\<close>, then \<open>src\<close>, and
  writes to \<open>dest\<close> the text of \<open>JSON.stringify(pkg, null, 2)\<close> followed by a newline,
  where \<open>pkg\<close> is a new object with the keys of the merged document in the same order.
  A key that is not a truthy dependency field has the value it has in the merged
  document, whose objects are all unchanged. A truthy dependency field holds a new
  mapping with the names and values of the merged one, the names in the order in which
  JavaScript lists keys created in ascending order: array indices first, by number, then
  the other names by code units, which is the sorted order when no name is an array
  index. A file that is not a manifest with an existing destination is rendered by one
  call of copyFileSync and no read of the destination.
\<close>

theorem render_manifest_merge:
  assumes "statSync fs0 src = Inr stats" and "\<not> isDirectory stats"
    and "basename src = ''package.json''" and "existsSync fs0 dest"
    and "readFileSync fs0 dest = Inr text1" and "json_parse B text1 [] = Some (Ref t, h1)"
    and "readFileSync fs0 src = Inr text2" and "json_parse B text2 h1 = Some (Ref u, h2)"
    and "deepMerge (to_length B) n h2 (Ref t) (Ref u) = Returned h3"
    and "deref h3 t = Some (JObject ps)" and "canonical ps" and "dep_fields_mappings h3 t"
  shows "(\<exists>r h4 ps'. sortDependencies (to_length B) h3 (Ref t) = Returned (Ref r, h4)
      \<and> renderTemplate B (Suc n) src dest (fs0, calls)
          = (case writeFileSync fs0 dest (json_stringify B h4 (Ref r) 2 @ [CHR 0x0A]) of
               Inl e \<Rightarrow> (Threw (FsError e), fs0,
                          calls @ [ReadFile dest, ReadFile src, WriteFile dest])
             | Inr fs1 \<Rightarrow> (Done, fs1, calls @ [ReadFile dest, ReadFile src, WriteFile dest]))
      \<and> (\<forall>a < length h3. h4 ! a = h3 ! a)
      \<and> deref h4 r = Some (JObject ps') \<and> map fst ps' = map fst ps
      \<and> (\<forall>k. k \<notin> set depTypes \<or> \<not> truthy (lookup_prop ps k) \<longrightarrow>
            lookup_prop ps' k = lookup_prop ps k)
      \<and> (\<forall>k \<in> set depTypes. truthy (lookup_prop ps k) \<longrightarrow>
           (\<exists>d ds e qs. lookup_prop ps k = Ref d \<and> deref h3 d = Some (JObject ds)
              \<and> lookup_prop ps' k = Ref e \<and> length h3 \<le> e \<and> deref h4 e = Some (JObject qs)
              \<and> distinct (map fst qs) \<and> set (map fst qs) = set (map fst ds)
              \<and> (\<forall>name. lookup_prop qs name = lookup_prop ds name)
              \<and> sorted_wrt js_key_less (map fst qs)
              \<and> ((\<forall>name \<in> set (map fst ds). array_index name = None) \<longrightarrow>
                   map fst qs = sort (map fst ds)))))
    \<and> (\<forall>src' dest' stats' m calls'.
          statSync fs0 src' = Inr stats' \<and> \<not> isDirectory stats'
          \<and> \<not> (basename src' = ''package.json'' \<and> existsSync fs0 dest') \<longrightarrow>
          (\<exists>d. renderTemplate B (Suc m) src' dest' (fs0, calls')
             = (case copyFileSync fs0 src' d of
                  Inl e \<Rightarrow> (Threw (FsError e), fs0, calls' @ [CopyFile src' d])
                | Inr fs1 \<Rightarrow> (Done, fs1, calls' @ [CopyFile src' d]))))"
proof -
  from assms(10) have t: "t < length h3" "h3 ! t = JObject ps"
    by (auto simp: deref_def split: if_splits)
  from sortDependencies_result [OF assms(10,11,12), of "to_length B"]
  obtain r h4 ps' where
    run: "sortDependencies (to_length B) h3 (Ref t) = Returned (Ref r, h4)"
    and fr: "\<forall>a < length h3. h4 ! a = h3 ! a"
    and pr: "deref h4 r = Some (JObject ps')" "map fst ps' = map fst ps"
    and other: "\<forall>k. k \<notin> set depTypes \<or> \<not> truthy (lookup_prop ps k) \<longrightarrow>
                  lookup_prop ps' k = lookup_prop ps k"
    and deps: "\<forall>k \<in> set depTypes. truthy (lookup_prop ps k) \<longrightarrow>
                  (\<exists>d ds e. lookup_prop ps k = Ref d \<and> deref h3 d = Some (JObject ds)
                      \<and> lookup_prop ps' k = Ref e \<and> length h3 \<le> e
                      \<and> deref h4 e = Some (JObject (sorted_entries ds)))"
    by blast
  have rt: "renderTemplate B (Suc n) src dest (fs0, calls)
          = (case writeFileSync fs0 dest (json_stringify B h4 (Ref r) 2 @ [CHR 0x0A]) of
               Inl e \<Rightarrow> (Threw (FsError e), fs0,
                          calls @ [ReadFile dest, ReadFile src, WriteFile dest])
             | Inr fs1 \<Rightarrow> (Done, fs1, calls @ [ReadFile dest, ReadFile src, WriteFile dest]))"
    using assms(1-9) run by (simp add: mergePackageJson_def)
  have deps': "\<forall>k \<in> set depTypes. truthy (lookup_prop ps k) \<longrightarrow>
           (\<exists>d ds e qs. lookup_prop ps k = Ref d \<and> deref h3 d = Some (JObject ds)
              \<and> lookup_prop ps' k = Ref e \<and> length h3 \<le> e \<and> deref h4 e = Some (JObject qs)
              \<and> distinct (map fst qs) \<and> set (map fst qs) = set (map fst ds)
              \<and> (\<forall>name. lookup_prop qs name = lookup_prop ds name)
              \<and> sorted_wrt js_key_less (map fst qs)
              \<and> ((\<forall>name \<in> set (map fst ds). array_index name = None) \<longrightarrow>
                   map fst qs = sort (map fst ds)))"
  proof (intro ballI impI)
    fix k assume k: "k \<in> set depTypes" and tr: "truthy (lookup_prop ps k)"
    with deps obtain d ds e where x: "lookup_prop ps k = Ref d" "deref h3 d = Some (JObject ds)"
      "lookup_prop ps' k = Ref e" "length h3 \<le> e"
      "deref h4 e = Some (JObject (sorted_entries ds))" by blast
    have "get_at h3 t k = Ref d" using get_at_object [OF t] x(1) by simp
    from dep_field_distinct [OF assms(12) k this x(2)] have dd: "distinct (map fst ds)" .
    note sp = sorted_entries_props [OF dd]
    have "distinct (map fst (sorted_entries ds))
        \<and> set (map fst (sorted_entries ds)) = set (map fst ds)
        \<and> (\<forall>name. lookup_prop (sorted_entries ds) name = lookup_prop ds name)
        \<and> sorted_wrt js_key_less (map fst (sorted_entries ds))
        \<and> ((\<forall>name \<in> set (map fst ds). array_index name = None) \<longrightarrow>
                   map fst (sorted_entries ds) = sort (map fst ds))"
      using sp(1,2,3,4) sp(5) by blast
    with x show "\<exists>d ds e qs. lookup_prop ps k = Ref d \<and> deref h3 d = Some (JObject ds)
              \<and> lookup_prop ps' k = Ref e \<and> length h3 \<le> e \<and> deref h4 e = Some (JObject qs)
              \<and> distinct (map fst qs) \<and> set (map fst qs) = set (map fst ds)
              \<and> (\<forall>name. lookup_prop qs name = lookup_prop ds name)
              \<and> sorted_wrt js_key_less (map fst qs)
              \<and> ((\<forall>name \<in> set (map fst ds). array_index name = None) \<longrightarrow>
                   map fst qs = sort (map fst ds))"
      by blast
  qed
  have copy: "\<exists>d. renderTemplate B (Suc m) src' dest' (fs0, calls')
             = (case copyFileSync fs0 src' d of
                  Inl e \<Rightarrow> (Threw (FsError e), fs0, calls' @ [CopyFile src' d])
                | Inr fs1 \<Rightarrow> (Done, fs1, calls' @ [CopyFile src' d]))"
    if "statSync fs0 src' = Inr stats'" "\<not> isDirectory stats'"
      "\<not> (basename src' = ''package.json'' \<and> existsSync fs0 dest')"
    for src' dest' stats' m calls'
    using that by (auto simp: Let_def)
  from run rt fr pr other deps' have 1:
    "\<exists>r h4 ps'. sortDependencies (to_length B) h3 (Ref t) = Returned (Ref r, h4)
      \<and> renderTemplate B (Suc n) src dest (fs0, calls)
          = (case writeFileSync fs0 dest (json_stringify B h4 (Ref r) 2 @ [CHR 0x0A]) of
               Inl e \<Rightarrow> (Threw (FsError e), fs0,
                          calls @ [ReadFile dest, ReadFile src, WriteFile dest])
             | Inr fs1 \<Rightarrow> (Done, fs1, calls @ [ReadFile dest, ReadFile src, WriteFile dest]))
      \<and> (\<forall>a < length h3. h4 ! a = h3 ! a)
      \<and> deref h4 r = Some (JObject ps') \<and> map fst ps' = map fst ps
      \<and> (\<forall>k. k \<notin> set depTypes \<or> \<not> truthy (lookup_prop ps k) \<longrightarrow>
            lookup_prop ps' k = lookup_prop ps k)
      \<and> (\<forall>k \<in> set depTypes. truthy (lookup_prop ps k) \<longrightarrow>
           (\<exists>d ds e qs. lookup_prop ps k = Ref d \<and> deref h3 d = Some (JObject ds)
              \<and> lookup_prop ps' k = Ref e \<and> length h3 \<le> e \<and> deref h4 e = Some (JObject qs)
              \<and> distinct (map fst qs) \<and> set (map fst qs) = set (map fst ds)
              \<and> (\<forall>name. lookup_prop qs name = lookup_prop ds name)
              \<and> sorted_wrt js_key_less (map fst qs)
              \<and> ((\<forall>name \<in> set (map fst ds). array_index name = None) \<longrightarrow>
                   map fst qs = sort (map fst ds))))"
    by (intro exI conjI)
  from copy have 2: "\<forall>src' dest' stats' m calls'.
          statSync fs0 src' = Inr stats' \<and> \<not> isDirectory stats'
          \<and> \<not> (basename src' = ''package.json'' \<and> existsSync fs0 dest') \<longrightarrow>
          (\<exists>d. renderTemplate B (Suc m) src' dest' (fs0, calls')
             = (case copyFileSync fs0 src' d of
                  Inl e \<Rightarrow> (Threw (FsError e), fs0, calls' @ [CopyFile src' d])
                | Inr fs1 \<Rightarrow> (Done, fs1, calls' @ [CopyFile src' d])))"
    by blast
  from 1 2 show ?thesis by (rule conjI)
qed

text \<open>
  The manifest \<open>{"dependencies":{"pinia":"2"}}\<close> of a template is rendered onto the
  manifest \<open>{"name":"app","dependencies":{"vue":"3","axios":"1"}}\<close>: the dependencies
  come out as \<open>axios\<close>, \<open>pinia\<close>, \<open>vue\<close>.
\<close>

theorem render_manifest_merge_witness:
  "statSync (Dir [(''tpl'', Dir [(''package.json'', File ''{\"dependencies\":{\"pinia\":\"2\"}}'')]),
                  (''out'', Dir [(''package.json'',
                     File ''{\"name\":\"app\",\"dependencies\":{\"vue\":\"3\",\"axios\":\"1\"}}'')])])
       [''tpl'', ''package.json'']
     = Inr ([''tpl'', ''package.json''], File ''{\"dependencies\":{\"pinia\":\"2\"}}'')
   \<and> \<not> isDirectory ([''tpl'', ''package.json''], File ''{\"dependencies\":{\"pinia\":\"2\"}}'')
   \<and> basename [''tpl'', ''package.json''] = ''package.json''
   \<and> existsSync (Dir [(''tpl'', Dir [(''package.json'', File ''{\"dependencies\":{\"pinia\":\"2\"}}'')]),
                  (''out'', Dir [(''package.json'',
                     File ''{\"name\":\"app\",\"dependencies\":{\"vue\":\"3\",\"axios\":\"1\"}}'')])])
       [''out'', ''package.json'']
   \<and> deepMerge (to_length example_builtins) (Suc (Suc 0))
        [JObject [(''name'', Str ''app''), (''dependencies'', Ref 1)],
         JObject [(''vue'', Str ''3''), (''axios'', Str ''1'')],
         JObject [(''dependencies'', Ref 3)], JObject [(''pinia'', Str ''2'')]] (Ref 0) (Ref 2)
       = Returned
        [JObject [(''name'', Str ''app''), (''dependencies'', Ref 1)],
         JObject [(''vue'', Str ''3''), (''axios'', Str ''1''), (''pinia'', Str ''2'')],
         JObject [(''dependencies'', Ref 3)], JObject [(''pinia'', Str ''2'')]]
   \<and> canonical [(''name'', Str ''app''), (''dependencies'', Ref 1)]
   \<and> dep_fields_mappings
        [JObject [(''name'', Str ''app''), (''dependencies'', Ref 1)],
         JObject [(''vue'', Str ''3''), (''axios'', Str ''1''), (''pinia'', Str ''2'')],
         JObject [(''dependencies'', Ref 3)], JObject [(''pinia'', Str ''2'')]] 0
   \<and> sortDependencies (to_length example_builtins)
        [JObject [(''name'', Str ''app''), (''dependencies'', Ref 1)],
         JObject [(''vue'', Str ''3''), (''axios'', Str ''1''), (''pinia'', Str ''2'')],
         JObject [(''dependencies'', Ref 3)], JObject [(''pinia'', Str ''2'')]] (Ref 0)
       = Returned (Ref 6,
        [JObject [(''name'', Str ''app''), (''dependencies'', Ref 1)],
         JObject [(''vue'', Str ''3''), (''axios'', Str ''1''), (''pinia'', Str ''2'')],
         JObject [(''dependencies'', Ref 3)], JObject [(''pinia'', Str ''2'')],
         JObject [(''dependencies'', Ref 5)],
         JObject [(''axios'', Str ''1''), (''pinia'', Str ''2''), (''vue'', Str ''3'')],
         JObject [(''name'', Str ''app''), (''dependencies'', Ref 5)]])
   \<and> renderTemplate example_builtins (Suc (Suc (Suc 0))) [''tpl'', ''package.json'']
        [''out'', ''package.json'']
        (Dir [(''tpl'', Dir [(''package.json'', File ''{\"dependencies\":{\"pinia\":\"2\"}}'')]),
              (''out'', Dir [(''package.json'',
                 File ''{\"name\":\"app\",\"dependencies\":{\"vue\":\"3\",\"axios\":\"1\"}}'')])], [])
       = (case writeFileSync
                 (Dir [(''tpl'', Dir [(''package.json'', File ''{\"dependencies\":{\"pinia\":\"2\"}}'')]),
                       (''out'', Dir [(''package.json'',
                 File ''{\"name\":\"app\",\"dependencies\":{\"vue\":\"3\",\"axios\":\"1\"}}'')])])
                 [''out'', ''package.json'']
                 (json_stringify example_builtins
        [JObject [(''name'', Str ''app''), (''dependencies'', Ref 1)],
         JObject [(''vue'', Str ''3''), (''axios'', Str ''1''), (''pinia'', Str ''2'')],
         JObject [(''dependencies'', Ref 3)], JObject [(''pinia'', Str ''2'')],
         JObject [(''dependencies'', Ref 5)],
         JObject [(''axios'', Str ''1''), (''pinia'', Str ''2''), (''vue'', Str ''3'')],
         JObject [(''name'', Str ''app''), (''dependencies'', Ref 5)]] (Ref 6) 2 @ [CHR 0x0A]) of
            Inl e \<Rightarrow> (Threw (FsError e),
                 Dir [(''tpl'', Dir [(''package.json'', File ''{\"dependencies\":{\"pinia\":\"2\"}}'')]),
                       (''out'', Dir [(''package.json'',
                 File ''{\"name\":\"app\",\"dependencies\":{\"vue\":\"3\",\"axios\":\"1\"}}'')])],
                 [ReadFile [''out'', ''package.json''], ReadFile [''tpl'', ''package.json''],
                  WriteFile [''out'', ''package.json'']])
          | Inr fs1 \<Rightarrow> (Done, fs1,
                 [ReadFile [''out'', ''package.json''], ReadFile [''tpl'', ''package.json''],
                  WriteFile [''out'', ''package.json'']]))
   \<and> fst (renderTemplate example_builtins (Suc (Suc (Suc 0))) [''tpl'', ''package.json'']
        [''out'', ''package.json'']
        (Dir [(''tpl'', Dir [(''package.json'', File ''{\"dependencies\":{\"pinia\":\"2\"}}'')]),
              (''out'', Dir [(''package.json'',
                 File ''{\"name\":\"app\",\"dependencies\":{\"vue\":\"3\",\"axios\":\"1\"}}'')])], []))
       = Done"
proof -
  let ?t1 = "''{\"name\":\"app\",\"dependencies\":{\"vue\":\"3\",\"axios\":\"1\"}}''"
  let ?t2 = "''{\"dependencies\":{\"pinia\":\"2\"}}''"
  let ?fs = "Dir [(''tpl'', Dir [(''package.json'', File ?t2)]),
                  (''out'', Dir [(''package.json'', File ?t1)])]"
  let ?src = "[''tpl'', ''package.json'']" and ?dest = "[''out'', ''package.json'']"
  let ?h1 = "[JObject [(''name'', Str ''app''), (''dependencies'', Ref 1)],
              JObject [(''vue'', Str ''3''), (''axios'', Str ''1'')]]"
  let ?h2 = "[JObject [(''name'', Str ''app''), (''dependencies'', Ref 1)],
         JObject [(''vue'', Str ''3''), (''axios'', Str ''1'')],
         JObject [(''dependencies'', Ref 3)], JObject [(''pinia'', Str ''2'')]]"
  let ?h3 = "[JObject [(''name'', Str ''app''), (''dependencies'', Ref 1)],
         JObject [(''vue'', Str ''3''), (''axios'', Str ''1''), (''pinia'', Str ''2'')],
         JObject [(''dependencies'', Ref 3)], JObject [(''pinia'', Str ''2'')]]"
  let ?h4 = "[JObject [(''name'', Str ''app''), (''dependencies'', Ref 1)],
         JObject [(''vue'', Str ''3''), (''axios'', Str ''1''), (''pinia'', Str ''2'')],
         JObject [(''dependencies'', Ref 3)], JObject [(''pinia'', Str ''2'')],
         JObject [(''dependencies'', Ref 5)],
         JObject [(''axios'', Str ''1''), (''pinia'', Str ''2''), (''vue'', Str ''3'')],
         JObject [(''name'', Str ''app''), (''dependencies'', Ref 5)]]"
  let ?ps = "[(''name'', Str ''app''), (''dependencies'', Ref 1)]"
  have a1: "statSync ?fs ?src = Inr (?src, File ?t2)" by code_simp
  have a2: "\<not> isDirectory (?src, File ?t2)" by code_simp
  have a3: "basename ?src = ''package.json''" by code_simp
  have a4: "existsSync ?fs ?dest" by code_simp
  have a5: "readFileSync ?fs ?dest = Inr ?t1" by code_simp
  have a6: "json_parse example_builtins ?t1 [] = Some (Ref 0, ?h1)" by code_simp
  have a7: "readFileSync ?fs ?src = Inr ?t2" by code_simp
  have a8: "json_parse example_builtins ?t2 ?h1 = Some (Ref 2, ?h2)" by code_simp
  have a9: "deepMerge (to_length example_builtins) (Suc (Suc 0)) ?h2 (Ref 0) (Ref 2) = Returned ?h3"
    by code_simp
  have a10: "deref ?h3 0 = Some (JObject ?ps)" by code_simp
  have a11: "canonical ?ps" by code_simp
  have a12: "dep_fields_mappings ?h3 0" by code_simp
  have sd: "sortDependencies (to_length example_builtins) ?h3 (Ref 0) = Returned (Ref 6, ?h4)"
    by code_simp
  from render_manifest_merge [OF a1 a2 a3 a4 a5 a6 a7 a8 a9 a10 a11 a12, where calls = "[]",
      THEN conjunct1]
  obtain r h4 where r: "sortDependencies (to_length example_builtins) ?h3 (Ref 0) = Returned (Ref r, h4)"
    "renderTemplate example_builtins (Suc (Suc (Suc 0))) ?src ?dest (?fs, [])
          = (case writeFileSync ?fs ?dest (json_stringify example_builtins h4 (Ref r) 2 @ [CHR 0x0A]) of
               Inl e \<Rightarrow> (Threw (FsError e), ?fs,
                          [] @ [ReadFile ?dest, ReadFile ?src, WriteFile ?dest])
             | Inr fs1 \<Rightarrow> (Done, fs1, [] @ [ReadFile ?dest, ReadFile ?src, WriteFile ?dest]))"
    by blast
  from r(1) have e: "r = 6" "h4 = ?h4" unfolding sd by simp_all
  have rt: "renderTemplate example_builtins (Suc (Suc (Suc 0))) ?src ?dest (?fs, [])
          = (case writeFileSync ?fs ?dest (json_stringify example_builtins ?h4 (Ref 6) 2 @ [CHR 0x0A]) of
               Inl e \<Rightarrow> (Threw (FsError e), ?fs, [ReadFile ?dest, ReadFile ?src, WriteFile ?dest])
             | Inr fs1 \<Rightarrow> (Done, fs1, [ReadFile ?dest, ReadFile ?src, WriteFile ?dest]))"
    using r(2) unfolding e append_Nil .
  have dn: "fst (renderTemplate example_builtins (Suc (Suc (Suc 0))) ?src ?dest (?fs, [])) = Done"
    by code_simp
  from a1 a2 a3 a4 a9 a11 a12 sd rt dn show ?thesis by (intro conjI)
qed

text \<open>
  C2 as stated fails for names that are array indices: the dependencies \<open>9\<close> and \<open>10\<close>
  are sorted to \<open>10\<close>, \<open>9\<close>, but JavaScript lists the keys of the new object as
  \<open>9\<close>, \<open>10\<close>, which is how they are written.
\<close>

theorem render_manifest_merge_counterexample:
  "sortDependencies num_length
      [JObject [(''dependencies'', Ref 1)], JObject [(''9'', Str ''a''), (''10'', Str ''b'')]]
      (Ref 0)
     = Returned (Ref 4,
        [JObject [(''dependencies'', Ref 1)], JObject [(''9'', Str ''a''), (''10'', Str ''b'')],
         JObject [(''dependencies'', Ref 3)], JObject [(''9'', Str ''a''), (''10'', Str ''b'')],
         JObject [(''dependencies'', Ref 3)]])
   \<and> own_keys (JObject [(''9'', Str ''a''), (''10'', Str ''b'')]) = [''9'', ''10'']
   \<and> sort [''9'', ''10''] = [''10'', ''9'']"
  by code_simp

end
